(* ===== verification/Marina_Prelude.thy ===== *)
theory Marina_Prelude
  imports
    Main
    "HOL-Library.Word"
    "HOL-Library.Multiset"
    "HOL-Library.Monad_Syntax"
    "HOL-Library.Signed_Division"
begin

text \<open>
  Shared vocabulary of the development: C integer types at their widths, the configuration
  macros of \<^verbatim>\<open>controller/config.h\<close> and \<^verbatim>\<open>p4/config.p4\<close>, checked array accesses, the byte images
  of integers, and generic lemmas on lists, cyclic indices and words that the component
  theories use.

  Conventions. A C function whose execution can leave an array or can loop forever returns an
  \<open>option\<close>; \<open>None\<close> means that the C execution has no defined result. Integers that
  index or identify (\<open>int32_t\<close> ids with the sentinel \<open>-1\<close>) are \<open>int\<close>; unsigned integers
  whose wrap-around matters are words.
\<close>

unbundle bit_operations_syntax

named_theorems c_arr \<open>unfolding rules for checked array accesses\<close>
named_theorems inv_defs \<open>definitions of the component invariants\<close>

section \<open>C integer types\<close>

type_synonym u8 = "8 word"
type_synonym u16 = "16 word"
type_synonym u32 = "32 word"
type_synonym u64 = "64 word"

section \<open>Configuration\<close>

text \<open>
  The sizes are macros that the operator edits before a build, so the model takes them as a
  record; \<open>marina_config\<close> holds the values of the repository. \<open>NUM_PIPES\<close> and
  \<open>NUM_BLOOMFILTERS\<close> are 4 throughout the code (\<open>flow_id_to_pipe\<close>, the \<open>PIPES\<close> array and the
  array of bloom filter write functions have that number built in).
\<close>

record config =
  MAX_FLOWS :: nat
  FLOW_HASHTABLE_MULTIPLIER :: nat
  DNS_HASHTABLE_SIZE :: nat
  BLOOMFILTER_WIDTH :: nat
  DATAPLANE_RINGBUFFER_SIZE :: nat
  PACKET_RINGBUFFER_SIZE :: nat
  DNS_RINGBUFFER_SIZE :: nat

definition marina_config :: config where
  "marina_config = \<lparr> MAX_FLOWS = 131072, FLOW_HASHTABLE_MULTIPLIER = 16,
     DNS_HASHTABLE_SIZE = 65536, BLOOMFILTER_WIDTH = 1048576,
     DATAPLANE_RINGBUFFER_SIZE = 4096, PACKET_RINGBUFFER_SIZE = 65536,
     DNS_RINGBUFFER_SIZE = 4096 \<rparr>"

definition NUM_PIPES :: nat where "NUM_PIPES = 4"
definition NUM_BLOOMFILTERS :: nat where "NUM_BLOOMFILTERS = 4"
definition MAX_DEV_PORT_ID :: nat where "MAX_DEV_PORT_ID = 512"
definition MIN_SESSION_ID :: nat where "MIN_SESSION_ID = 4"
definition FLOW_TIMEOUT :: u32 where "FLOW_TIMEOUT = 30"
definition MURMUR_SEED :: u32 where "MURMUR_SEED = 0xDEADBEEF"

definition FEATURE_SIZE :: "config \<Rightarrow> nat" where
  "FEATURE_SIZE cfg = MAX_FLOWS cfg * NUM_PIPES"

definition FLOW_HASHTABLE_SIZE :: "config \<Rightarrow> nat" where
  "FLOW_HASHTABLE_SIZE cfg = MAX_FLOWS cfg * NUM_PIPES * FLOW_HASHTABLE_MULTIPLIER cfg"

definition HEAPSIZE :: "config \<Rightarrow> nat" where
  "HEAPSIZE cfg = MAX_FLOWS cfg - 1"

text \<open>
  What the code relies on: non-empty tables and rings, table indices that fit an
  \<open>int32_t\<close>, ring indices that fit a \<open>uint32_t\<close>.
\<close>

definition cfg_ok :: "config \<Rightarrow> bool" where
  "cfg_ok cfg \<longleftrightarrow>
     0 < MAX_FLOWS cfg \<and> 1 < FLOW_HASHTABLE_MULTIPLIER cfg \<and>
     FLOW_HASHTABLE_SIZE cfg < 2 ^ 31 \<and>
     0 < DNS_HASHTABLE_SIZE cfg \<and> DNS_HASHTABLE_SIZE cfg < 2 ^ 31 \<and>
     0 < BLOOMFILTER_WIDTH cfg \<and> BLOOMFILTER_WIDTH cfg < 2 ^ 31 \<and>
     0 < DATAPLANE_RINGBUFFER_SIZE cfg \<and> DATAPLANE_RINGBUFFER_SIZE cfg < 2 ^ 31 \<and>
     0 < PACKET_RINGBUFFER_SIZE cfg \<and> PACKET_RINGBUFFER_SIZE cfg < 2 ^ 31 \<and>
     0 < DNS_RINGBUFFER_SIZE cfg \<and> DNS_RINGBUFFER_SIZE cfg < 2 ^ 31"

lemma cfg_ok_marina: "cfg_ok marina_config"
  by (simp add: cfg_ok_def marina_config_def FLOW_HASHTABLE_SIZE_def NUM_PIPES_def)

text \<open>A configuration small enough to evaluate examples on.\<close>

definition small_config :: config where
  "small_config = \<lparr> MAX_FLOWS = 2, FLOW_HASHTABLE_MULTIPLIER = 2,
     DNS_HASHTABLE_SIZE = 4, BLOOMFILTER_WIDTH = 16,
     DATAPLANE_RINGBUFFER_SIZE = 3, PACKET_RINGBUFFER_SIZE = 4, DNS_RINGBUFFER_SIZE = 3 \<rparr>"

lemma small_config_simps [simp]:
  "MAX_FLOWS small_config = 2" "FLOW_HASHTABLE_MULTIPLIER small_config = 2"
  "DNS_HASHTABLE_SIZE small_config = 4" "BLOOMFILTER_WIDTH small_config = 16"
  "DATAPLANE_RINGBUFFER_SIZE small_config = 3" "PACKET_RINGBUFFER_SIZE small_config = 4"
  "DNS_RINGBUFFER_SIZE small_config = 3" "FEATURE_SIZE small_config = 8"
  "FLOW_HASHTABLE_SIZE small_config = 16" "HEAPSIZE small_config = 1"
  by (simp_all add: small_config_def FEATURE_SIZE_def FLOW_HASHTABLE_SIZE_def HEAPSIZE_def NUM_PIPES_def)

lemma cfg_ok_small: "cfg_ok small_config"
  by (simp add: cfg_ok_def)

section \<open>Checked array accesses\<close>

definition aget :: "'a list \<Rightarrow> int \<Rightarrow> 'a option" where
  "aget xs i = (if 0 \<le> i \<and> i < int (length xs) then Some (xs ! nat i) else None)"

definition aset :: "'a list \<Rightarrow> int \<Rightarrow> 'a \<Rightarrow> 'a list option" where
  "aset xs i v = (if 0 \<le> i \<and> i < int (length xs) then Some (xs[nat i := v]) else None)"

declare aget_def [c_arr] aset_def [c_arr]

lemma aget_Some: "0 \<le> i \<Longrightarrow> i < int (length xs) \<Longrightarrow> aget xs i = Some (xs ! nat i)"
  by (simp add: aget_def)

lemma aset_Some: "0 \<le> i \<Longrightarrow> i < int (length xs) \<Longrightarrow> aset xs i v = Some (xs[nat i := v])"
  by (simp add: aset_def)

lemma aget_of_nat [simp]: "aget xs (int i) = (if i < length xs then Some (xs ! i) else None)"
  by (simp add: aget_def)

lemma aset_of_nat [simp]:
  "aset xs (int i) v = (if i < length xs then Some (xs[i := v]) else None)"
  by (simp add: aset_def)

lemma aget_zero [simp]: "aget xs 0 = (if xs = [] then None else Some (xs ! 0))"
  by (simp add: aget_def)

lemma aset_zero [simp]: "aset xs 0 v = (if xs = [] then None else Some (xs[0 := v]))"
  by (simp add: aset_def)

lemma aget_numeral [simp]:
  "aget xs (numeral n) = (if numeral n < length xs then Some (xs ! numeral n) else None)"
  by (simp add: aget_def)

lemma aset_numeral [simp]:
  "aset xs (numeral n) v = (if numeral n < length xs then Some (xs[numeral n := v]) else None)"
  by (simp add: aset_def)

lemma uint_less_int_iff: "uint w < int n \<longleftrightarrow> unat w < n"
  by (metis of_nat_less_iff uint_nat)

lemma aget_uint [simp]:
  "aget xs (uint w) = (if unat w < length xs then Some (xs ! unat w) else None)"
  by (simp add: aget_def uint_less_int_iff)

lemma aset_uint [simp]:
  "aset xs (uint w) v = (if unat w < length xs then Some (xs[unat w := v]) else None)"
  by (simp add: aset_def uint_less_int_iff)

lemma aset_length: "aset xs i v = Some ys \<Longrightarrow> length ys = length xs"
  by (auto simp: aset_def split: if_splits)

section \<open>Cyclic indices\<close>

text \<open>
  \<open>cdist N h i\<close> is the number of steps from slot \<open>h\<close> to slot \<open>i\<close> in a ring of
  \<open>N\<close> slots. The hash tables and the ring buffers are both arguments about it.
\<close>

definition cdist :: "nat \<Rightarrow> nat \<Rightarrow> nat \<Rightarrow> nat" where
  "cdist N h i = (i + N - h) mod N"

lemma cdist_alt: "h < N \<Longrightarrow> i < N \<Longrightarrow> cdist N h i = (if h \<le> i then i - h else i + N - h)"
  by (auto simp: cdist_def mod_if)

lemma cdist_less: "0 < N \<Longrightarrow> cdist N h i < N"
  by (simp add: cdist_def)

lemma cdist_self [simp]: "h < N \<Longrightarrow> cdist N h h = 0"
  by (simp add: cdist_alt)

lemma cdist_inj: "h < N \<Longrightarrow> i < N \<Longrightarrow> j < N \<Longrightarrow> cdist N h i = cdist N h j \<Longrightarrow> i = j"
  by (auto simp: cdist_alt split: if_splits)

lemma cdist_eq_0_iff: "h < N \<Longrightarrow> i < N \<Longrightarrow> cdist N h i = 0 \<longleftrightarrow> i = h"
  by (auto simp: cdist_alt)

lemma suc_mod_alt: "i < N \<Longrightarrow> Suc i mod N = (if Suc i = N then 0 else Suc i)"
  by (auto simp: mod_if)

lemma suc_mod_less: "i < N \<Longrightarrow> Suc i mod N < N"
  by (simp add: suc_mod_alt)

lemma cdist_suc:
  "h < N \<Longrightarrow> i < N \<Longrightarrow>
     cdist N h (Suc i mod N) = (if Suc i mod N = h then 0 else Suc (cdist N h i))"
  by (auto simp: cdist_alt suc_mod_alt)

lemma cdist_step:
  "h < N \<Longrightarrow> i < N \<Longrightarrow> Suc (cdist N h i) < N \<Longrightarrow>
     cdist N h (Suc i mod N) = Suc (cdist N h i)"
  by (auto simp: cdist_alt suc_mod_alt split: if_splits)

lemma mod_cdist: "h < N \<Longrightarrow> i < N \<Longrightarrow> (h + cdist N h i) mod N = i"
  by (auto simp: cdist_alt)

section \<open>Byte images of integers\<close>

text \<open>Memory images are little-endian, as on the x86-64 hosts the controller runs on.\<close>

definition byte_of :: "nat \<Rightarrow> 'a::len word \<Rightarrow> u8" where
  "byte_of i w = ucast (drop_bit (8 * i) w)"

definition le_bytes :: "nat \<Rightarrow> 'a::len word \<Rightarrow> u8 list" where
  "le_bytes n w = map (\<lambda>i. byte_of i w) [0..<n]"

fun of_le_bytes :: "u8 list \<Rightarrow> 'a::len word" where
  "of_le_bytes [] = 0"
| "of_le_bytes (b # bs) = ucast b OR push_bit 8 (of_le_bytes bs)"

lemma length_le_bytes [simp]: "length (le_bytes n w) = n"
  by (simp add: le_bytes_def)

lemma bit_byte_of: "bit (byte_of i (w :: 'a::len word)) n \<longleftrightarrow> n < 8 \<and> bit w (8 * i + n)"
  by (auto simp: byte_of_def bit_simps dest: bit_imp_le_length)

lemma le_bytes_inj:
  assumes "LENGTH('a::len) \<le> 8 * n" and "le_bytes n (v :: 'a word) = le_bytes n w"
  shows "v = w"
proof (rule bit_word_eqI)
  fix k assume "k < LENGTH('a)"
  with assms(1) have i: "k div 8 < n" by auto
  from assms(2) have "le_bytes n v ! (k div 8) = le_bytes n w ! (k div 8)" by simp
  with i have "byte_of (k div 8) v = byte_of (k div 8) w" by (simp add: le_bytes_def)
  then have "bit (byte_of (k div 8) v) (k mod 8) = bit (byte_of (k div 8) w) (k mod 8)" by simp
  then show "bit v k = bit w k" by (simp add: bit_byte_of)
qed

lemma xor_left_cancel_word [simp]: "a XOR b = a XOR c \<longleftrightarrow> b = (c :: 'a::len word)"
  by (metis xor.assoc xor.left_neutral xor_self_eq)

lemma xor_right_cancel_word [simp]: "b XOR a = c XOR a \<longleftrightarrow> b = (c :: 'a::len word)"
  by (simp add: xor.commute)

definition bswap_16 :: "u16 \<Rightarrow> u16" where
  "bswap_16 x = push_bit 8 x OR drop_bit 8 x"

definition bswap_32 :: "u32 \<Rightarrow> u32" where
  "bswap_32 x = push_bit 24 x OR (push_bit 8 x AND 0xFF0000) OR (drop_bit 8 x AND 0xFF00)
     OR drop_bit 24 x"

end
