(* ===== verification/Structs.thy ===== *)
theory Structs
  imports Marina_Prelude
begin

text \<open>
  The structs of \<^verbatim>\<open>datastructures/structs.h\<close> and of the ring buffer headers, with the memory
  images that the tables hash and compare. The union \<open>address_t\<close> is its 16 bytes of storage,
  as one 128 bit word: \<open>ipv4\<close> is the lowest four bytes, \<open>ipv6\<close> all sixteen. Enums are
  \<open>uint32_t\<close> values, because the code also stores values that are none of their constants.
\<close>

type_synonym l3_proto_t = u32
type_synonym l4_proto_t = u32
type_synonym port_t = u16
type_synonym address_t = "128 word"

definition L3_IPV4 :: l3_proto_t where "L3_IPV4 = 2" \<comment> \<open>\<open>AF_INET\<close>\<close>
definition L3_IPV6 :: l3_proto_t where "L3_IPV6 = 10" \<comment> \<open>\<open>AF_INET6\<close>\<close>
definition L4_TCP :: l4_proto_t where "L4_TCP = 1"
definition L4_UDP :: l4_proto_t where "L4_UDP = 0"

definition addr_ipv4 :: "address_t \<Rightarrow> u32" where
  "addr_ipv4 a = ucast a"

definition set_ipv4 :: "u32 \<Rightarrow> address_t \<Rightarrow> address_t" where
  "set_ipv4 x a = push_bit 32 (drop_bit 32 a) OR ucast x"

definition s6_addr :: "address_t \<Rightarrow> u8 list" where
  "s6_addr a = le_bytes 16 a"

record five_tuple_for_hash_t =
  src_addr :: address_t
  dst_addr :: address_t
  src_port :: port_t
  dst_port :: port_t
  l3_proto :: l3_proto_t
  l4_proto :: l4_proto_t

record five_tuple_for_session_hash_t =
  client_addr :: address_t
  to_server :: bool

record five_tuple_t =
  ft_h :: five_tuple_for_hash_t
  ft_sh :: five_tuple_for_session_hash_t
  ingress_ts :: u64
  dev_port :: u16
  session_id_egress_offset :: int

definition zero_five_tuple :: five_tuple_t where
  "zero_five_tuple = \<lparr> ft_h = \<lparr> src_addr = 0, dst_addr = 0, src_port = 0, dst_port = 0,
     l3_proto = 0, l4_proto = 0 \<rparr>, ft_sh = \<lparr> client_addr = 0, to_server = False \<rparr>,
     ingress_ts = 0, dev_port = 0, session_id_egress_offset = 0 \<rparr>"

record dns_hashtable_key_t =
  dk_type :: l3_proto_t
  dk_addr :: address_t

text \<open>
  Memory images: 44 bytes without padding for the five tuple, 17 bytes and three bytes of
  padding (zeroed by \<open>packet_handler\<close>) for the session key, 20 bytes for the dns key.
\<close>

definition hash_image :: "five_tuple_for_hash_t \<Rightarrow> u8 list" where
  "hash_image f = le_bytes 16 (src_addr f) @ le_bytes 16 (dst_addr f) @ le_bytes 2 (src_port f)
     @ le_bytes 2 (dst_port f) @ le_bytes 4 (l3_proto f) @ le_bytes 4 (l4_proto f)"

definition session_image :: "five_tuple_for_session_hash_t \<Rightarrow> u8 list" where
  "session_image s = le_bytes 16 (client_addr s) @ [of_bool (to_server s), 0, 0, 0]"

definition dns_key_image :: "dns_hashtable_key_t \<Rightarrow> u8 list" where
  "dns_key_image k = le_bytes 4 (dk_type k) @ le_bytes 16 (dk_addr k)"

definition dev_port_to_pipe :: "int \<Rightarrow> int" where
  "dev_port_to_pipe p = drop_bit 7 p"

definition flow_id_to_pipe :: "int \<Rightarrow> int" where
  "flow_id_to_pipe flow_id = flow_id smod 4"

definition flow_id_to_register_index :: "int \<Rightarrow> int" where
  "flow_id_to_register_index flow_id = flow_id sdiv 4"

section \<open>Ring buffer items\<close>

text \<open>A tagged C union becomes one constructor per tag, with the member the tag selects.\<close>

datatype packet_item_t =
    PKT_ADD_FLOW five_tuple_t
  | PKT_REMOVE_FLOW five_tuple_t
  | PKT_ADD_BLOOM_FILTER_IRRELEVANT five_tuple_t
  | PKT_FIX_BLOOM_FILTER_RELEVANT five_tuple_t
  | PKT_REMOVE_BLOOM_FILTER five_tuple_t
  | PKT_TIMEOUT_FLOW int

datatype dataplane_command_t =
    DP_ADD_FLOW five_tuple_t int int \<comment> \<open>five tuple, flow id, session id\<close>
  | DP_REMOVE_FLOW five_tuple_t int
  | DP_CLEAR_REGISTERS five_tuple_t int \<comment> \<open>five tuple, session id\<close>
  | DP_ADD_BLOOM_FILTER "int list" int \<comment> \<open>indices, pipe\<close>
  | DP_REMOVE_BLOOM_FILTER "int list" int

datatype dns_item_t =
    DNS_ADD_PKT "u8 list" int \<comment> \<open>packet bytes, length field\<close>
  | DNS_REMOVE_IP dns_hashtable_key_t

section \<open>Lemmas\<close>

lemma length_images [simp]:
  "length (hash_image f) = 44" "length (session_image s) = 20" "length (dns_key_image k) = 20"
  by (simp_all add: hash_image_def session_image_def dns_key_image_def)

lemma le_bytes_eq_iff:
  "LENGTH('a::len) \<le> 8 * n \<Longrightarrow> le_bytes n (v :: 'a word) = le_bytes n w \<longleftrightarrow> v = w"
  using le_bytes_inj by blast

lemma hash_image_eq_iff: "hash_image f = hash_image g \<longleftrightarrow> f = g"
proof
  assume "hash_image f = hash_image g"
  then have "src_addr f = src_addr g" "dst_addr f = dst_addr g" "src_port f = src_port g"
    "dst_port f = dst_port g" "l3_proto f = l3_proto g" "l4_proto f = l4_proto g"
    by (simp_all add: hash_image_def le_bytes_eq_iff)
  then show "f = g" by simp
qed simp

lemma session_image_eq_iff: "session_image f = session_image g \<longleftrightarrow> f = g"
proof
  assume "session_image f = session_image g"
  then have "client_addr f = client_addr g" "of_bool (to_server f) = (of_bool (to_server g) :: u8)"
    by (simp_all add: session_image_def le_bytes_eq_iff)
  then show "f = g" by (cases "to_server f"; cases "to_server g") simp_all
qed simp

lemma dns_key_image_eq_iff: "dns_key_image f = dns_key_image g \<longleftrightarrow> f = g"
proof
  assume "dns_key_image f = dns_key_image g"
  then have "dk_type f = dk_type g" "dk_addr f = dk_addr g"
    by (simp_all add: dns_key_image_def le_bytes_eq_iff)
  then show "f = g" by simp
qed simp

lemma addr_ipv4_set [simp]: "addr_ipv4 (set_ipv4 x a) = x"
  by (rule bit_word_eqI) (auto simp: addr_ipv4_def set_ipv4_def bit_simps)

lemma dev_port_to_pipe_bounds: "0 \<le> p \<Longrightarrow> p < 512 \<Longrightarrow> 0 \<le> dev_port_to_pipe p \<and> dev_port_to_pipe p < 4"
  unfolding dev_port_to_pipe_def drop_bit_eq_div by simp presburger

text \<open>Two keys that differ in a port, for the examples.\<close>

definition example_key :: "u16 \<Rightarrow> five_tuple_t" where
  "example_key p = zero_five_tuple\<lparr> ft_h := (ft_h zero_five_tuple)\<lparr> src_port := p \<rparr> \<rparr>"

lemma example_key_src_port [simp]: "src_port (ft_h (example_key p)) = p"
  by (simp add: example_key_def)

lemma example_key_eq_iff [simp]: "ft_h (example_key p) = ft_h (example_key q) \<longleftrightarrow> p = q"
  by (metis example_key_src_port)

section \<open>Properties\<close>

text \<open>
  The tables compare keys by \<open>memcmp\<close> over the whole struct: two keys have the same
  memory image exactly when all their fields agree.
\<close>

theorem key_images_injective:
  "(hash_image f = hash_image g \<longleftrightarrow> f = g) \<and> (session_image s = session_image t \<longleftrightarrow> s = t) \<and>
   (dns_key_image k = dns_key_image l \<longleftrightarrow> k = l)"
  by (simp add: hash_image_eq_iff session_image_eq_iff dns_key_image_eq_iff)

end
