(* ===== verification/Open_Addressing.thy ===== *)
theory Open_Addressing
  imports Structs
begin

text \<open>
  The part that \<^verbatim>\<open>flow_hashtable.c\<close>, \<^verbatim>\<open>dns_hashtable.c\<close> and \<^verbatim>\<open>session_hashtable.c\<close> have in
  common: an array of entries with linear probing from the home slot of a hash, and deletion
  that shifts later entries back instead of leaving tombstones. The index macros, the search
  loop and the back-shift loop are defined once, over the table size and the key comparison;
  the three table theories instantiate them. Shown here: the index arithmetic is the cyclic
  distance, the search finds a key exactly when it is stored, and the back-shift loop
  terminates, restores the probing invariant and keeps the multiset of entries.
\<close>

section \<open>Entries and index macros\<close>

record ('k, 'v) ht_entry =
  e_key :: 'k
  e_value :: 'v
  e_hash :: u32
  e_occupied :: bool

text \<open>\<open>modulo\<close> converts its \<open>uint32_t\<close> argument to \<open>int32_t\<close>; \<open>%\<close> truncates towards zero.\<close>

definition modulo :: "nat \<Rightarrow> u32 \<Rightarrow> int" where
  "modulo sz x = (let r = sint x smod int sz in if r < 0 then r + int sz else r)"

definition POSITIVE_MODULO :: "nat \<Rightarrow> u32 \<Rightarrow> nat" where
  "POSITIVE_MODULO sz x =
     (if sz AND (sz - 1) = 0 then unat (x AND (of_nat sz - 1)) else nat (modulo sz x))"

definition HASH2INDEX :: "nat \<Rightarrow> u32 \<Rightarrow> nat" where
  "HASH2INDEX sz hash = POSITIVE_MODULO sz hash"

definition CAN_MOVE_ITEM_TO_CURRENT_EMPTY :: "nat \<Rightarrow> nat \<Rightarrow> nat \<Rightarrow> nat \<Rightarrow> bool" where
  "CAN_MOVE_ITEM_TO_CURRENT_EMPTY sz item_desired_index current_empty item_index \<longleftrightarrow>
     POSITIVE_MODULO sz (of_nat item_index - of_nat item_desired_index)
       > POSITIVE_MODULO sz (of_nat current_empty - of_nat item_desired_index)"

section \<open>The search and back-shift loops\<close>

text \<open>
  The search loop: status 1 and the first free index, or status 0 and the index of an
  occupied entry with this hash and a matching key. On a table without a free entry and without
  the key the C loop does not end, and the value is \<open>None\<close>.
\<close>

partial_function (option) probe ::
  "nat \<Rightarrow> ('k \<Rightarrow> bool) \<Rightarrow> u32 \<Rightarrow> ('k, 'v) ht_entry list \<Rightarrow> nat \<Rightarrow> (int \<times> nat) option"
where
  [code]: "probe sz same hash es index =
     do { e \<leftarrow> aget es (int index);
          if \<not> e_occupied e then Some (1, index)
          else if e_hash e = hash \<and> same (e_key e) then Some (0, index)
          else probe sz same hash es (Suc index mod sz) }"

text \<open>
  The loop after a removal. \<open>mv\<close> is what a table does beside the copy when an entry moves to the
  current empty slot (its index maps), on the table's other state \<open>x\<close>.
\<close>

partial_function (option) backshift ::
  "nat \<Rightarrow> (('k, 'v) ht_entry \<Rightarrow> nat \<Rightarrow> 'x \<Rightarrow> 'x option) \<Rightarrow> ('k, 'v) ht_entry list \<Rightarrow> 'x \<Rightarrow>
   nat \<Rightarrow> nat \<Rightarrow> (('k, 'v) ht_entry list \<times> 'x) option"
where
  [code]: "backshift sz mv es x index empty_index =
     do { let index' = Suc index mod sz;
          e \<leftarrow> aget es (int index');
          if \<not> e_occupied e then Some (es, x)
          else if index' \<noteq> HASH2INDEX sz (e_hash e) \<and>
               CAN_MOVE_ITEM_TO_CURRENT_EMPTY sz (HASH2INDEX sz (e_hash e)) empty_index index'
          then do { x' \<leftarrow> mv e empty_index x;
                    backshift sz mv
                      (es[index' := e\<lparr>e_occupied := False\<rparr>, empty_index := e\<lparr>e_occupied := True\<rparr>])
                      x' index' index' }
          else backshift sz mv es x index' empty_index }"

section \<open>Index arithmetic\<close>

lemma and_pred_eq_0_imp_power: "0 < n \<Longrightarrow> n AND (n - 1) = 0 \<Longrightarrow> \<exists>k. n = 2 ^ k" for n :: nat
proof (induction n rule: less_induct)
  case (less n)
  show ?case
  proof (cases "even n")
    case True
    then obtain m where m: "n = 2 * m" by blast
    with less.prems have "0 < m" by simp
    have "(2 * m - Suc 0) div 2 = m - Suc 0" by presburger
    with m \<open>0 < m\<close> have "n AND (n - 1) = 2 * (m AND (m - 1))"
      by (subst and_rec) auto
    with less.prems have "m AND (m - 1) = 0" by simp
    with less.IH [of m] m \<open>0 < m\<close> obtain k where "m = 2 ^ k" by auto
    with m show ?thesis by (auto intro: exI [of _ "Suc k"])
  next
    case False
    then obtain m where m: "n = 2 * m + 1" by (blast elim: oddE)
    have "n AND (n - 1) = 2 * m"
      using m by (subst and_rec) simp
    with less.prems m show ?thesis by (auto intro: exI [of _ 0])
  qed
qed

lemma unat_and_size: "unat ((x :: u32) AND (of_nat (2 ^ k) - 1)) = unat x mod 2 ^ k"
proof -
  have "x AND (of_nat (2 ^ k) - 1) = take_bit k x"
    by (simp add: take_bit_eq_mask mask_eq_exp_minus_1)
  then have "unat (x AND (of_nat (2 ^ k) - 1)) = take_bit k (unat x)"
    by (simp only: unsigned_take_bit_eq)
  then show ?thesis by (simp only: take_bit_eq_mod)
qed

lemma cdist_int: "h < N \<Longrightarrow> i < N \<Longrightarrow> int (cdist N h i) = (int i - int h) mod int N"
proof -
  assume "h < N" "i < N"
  then have "int (cdist N h i) = (int i + int N - int h) mod int N"
    by (simp add: cdist_def zmod_int of_nat_diff)
  also have "\<dots> = (int i - int h + int N) mod int N" by (simp add: algebra_simps)
  finally show ?thesis by simp
qed

lemma smod_bound:
  assumes "0 < (b :: int)" shows "a smod b < b" "- b < a smod b"
  using assms by (auto simp: smod_int_alt_def sgn_if abs_if zmod_trivial_iff) 
     (smt (verit) pos_mod_bound pos_mod_sign)+

lemma POSITIVE_MODULO_less: "0 < sz \<Longrightarrow> POSITIVE_MODULO sz x < sz"
proof (cases "sz AND (sz - 1) = 0")
  case True
  assume "0 < sz"
  with True obtain k where "sz = 2 ^ k" using and_pred_eq_0_imp_power by blast
  with True show ?thesis using unat_and_size [of x k] by (simp add: POSITIVE_MODULO_def)
next
  case False
  assume "0 < sz"
  with False smod_bound [of "int sz" "sint x"] show ?thesis
    by (auto simp: POSITIVE_MODULO_def modulo_def Let_def)
qed

lemma HASH2INDEX_less [simp]: "0 < sz \<Longrightarrow> HASH2INDEX sz h < sz"
  by (simp add: HASH2INDEX_def POSITIVE_MODULO_less)

lemma POSITIVE_MODULO_diff:
  assumes "i < sz" "d < sz" "sz < 2 ^ 31"
  shows "POSITIVE_MODULO sz (of_nat i - of_nat d) = cdist sz d i"
proof (cases "sz AND (sz - 1) = 0")
  case True
  with assms obtain k where k: "sz = 2 ^ k" using and_pred_eq_0_imp_power [of sz] by auto
  with assms(3) have "k < 31" by (simp only: power_strict_increasing_iff one_less_numeral_iff semiring_norm)
  have "uint (of_nat i - of_nat d :: u32) = (int i - int d) mod 2 ^ 32"
    by (simp add: uint_word_ariths unsigned_of_nat take_bit_eq_mod mod_simps zmod_int)
  then have "int (unat (of_nat i - of_nat d :: u32)) mod 2 ^ k = (int i - int d) mod 2 ^ 32 mod 2 ^ k"
    by (simp add: uint_nat [symmetric])
  also have "\<dots> = (int i - int d) mod 2 ^ k"
    using \<open>k < 31\<close> by (intro mod_mod_cancel le_imp_power_dvd) simp
  also have "\<dots> = int (cdist sz d i)"
    using cdist_int assms k by simp
  finally have "int (unat (of_nat i - of_nat d :: u32) mod 2 ^ k) = int (cdist sz d i)"
    by (simp add: zmod_int)
  then have "unat (of_nat i - of_nat d :: u32) mod 2 ^ k = cdist sz d i"
    by (simp only: of_nat_eq_iff)
  with True k unat_and_size [of "of_nat i - of_nat d" k] show ?thesis
    by (simp add: POSITIVE_MODULO_def)
next
  case False
  have "of_nat i - of_nat d = (word_of_int (int i - int d) :: u32)" by simp
  then have s: "sint (of_nat i - of_nat d :: u32) = int i - int d"
    using assms by (simp only: sint_sbintrunc') (simp add: signed_take_bit_int_eq_self)
  have "(int i - int d) smod int sz = int i - int d"
    using assms by (auto simp: smod_int_alt_def sgn_if abs_if)
  with s False assms show ?thesis
    by (auto simp: POSITIVE_MODULO_def modulo_def Let_def cdist_alt)
qed

lemma CAN_MOVE_iff:
  assumes "i < sz" "d < sz" "k < sz" "sz < 2 ^ 31"
  shows "CAN_MOVE_ITEM_TO_CURRENT_EMPTY sz d k i \<longleftrightarrow> cdist sz d k < cdist sz d i"
  using assms by (simp add: CAN_MOVE_ITEM_TO_CURRENT_EMPTY_def POSITIVE_MODULO_diff)

section \<open>Occupied entries and the probing invariant\<close>

definition elems :: "('k, 'v) ht_entry list \<Rightarrow> ('k, 'v) ht_entry multiset" where
  "elems es = filter_mset e_occupied (mset es)"

abbreviation occ :: "('k, 'v) ht_entry list \<Rightarrow> nat \<Rightarrow> bool" where
  "occ es i \<equiv> e_occupied (es ! i)"

abbreviation home :: "nat \<Rightarrow> ('k, 'v) ht_entry list \<Rightarrow> nat \<Rightarrow> nat" where
  "home sz es i \<equiv> HASH2INDEX sz (e_hash (es ! i))"

text \<open>
  What the comment in \<open>remove_by_index\<close> says: for an entry with home \<open>h\<close> at index
  \<open>h+i\<close>, all entries from \<open>h\<close> to \<open>h+i\<close> are occupied.
\<close>

definition chained :: "nat \<Rightarrow> ('k, 'v) ht_entry list \<Rightarrow> bool" where
  [inv_defs]: "chained sz es \<longleftrightarrow>
     (\<forall>i < sz. occ es i \<longrightarrow>
        (\<forall>j < sz. cdist sz (home sz es i) j < cdist sz (home sz es i) i \<longrightarrow> occ es j))"

lemma chainedD:
  "chained sz es \<Longrightarrow> i < sz \<Longrightarrow> occ es i \<Longrightarrow> j < sz \<Longrightarrow>
     cdist sz (home sz es i) j < cdist sz (home sz es i) i \<Longrightarrow> occ es j"
  unfolding chained_def by blast

lemma size_elems: "size (elems es) = card {i. i < length es \<and> occ es i}"
  by (simp add: elems_def mset_filter [symmetric] length_filter_conv_card del: mset_filter)

lemma elems_update:
  assumes "i < length es"
  shows "elems (es[i := e]) =
    elems es - (if occ es i then {#es ! i#} else {#}) + (if e_occupied e then {#e#} else {#})"
proof -
  have "es ! i \<in># mset es" using assms by simp
  then show ?thesis using assms by (simp add: elems_def mset_update)
qed

lemma elems_mem: "i < length es \<Longrightarrow> occ es i \<Longrightarrow> es ! i \<in># elems es"
  by (simp add: elems_def)

lemma in_elems: "e \<in># elems es \<longleftrightarrow> (\<exists>i<length es. es ! i = e \<and> occ es i)"
  by (auto simp: elems_def in_set_conv_nth)

lemma ball_elems: "(\<forall>e \<in># elems es. P e) \<longleftrightarrow> (\<forall>i<length es. occ es i \<longrightarrow> P (es ! i))"
  unfolding elems_def set_mset_filter set_mset_mset by (fastforce simp: in_set_conv_nth)

lemma ex_free: "size (elems es) < length es \<Longrightarrow> \<exists>k<length es. \<not> occ es k"
proof (rule ccontr)
  assume "size (elems es) < length es" "\<not> (\<exists>k<length es. \<not> occ es k)"
  then have "{i. i < length es \<and> occ es i} = {..<length es}" by auto
  then have "size (elems es) = length es" by (simp add: size_elems)
  with \<open>size (elems es) < length es\<close> show False by simp
qed

lemma size_elems_le: "size (elems es) \<le> length es"
  by (metis elems_def size_filter_mset_lesseq size_mset)

lemma free_size: "k < length es \<Longrightarrow> \<not> occ es k \<Longrightarrow> size (elems es) < length es"
proof -
  assume k: "k < length es" "\<not> occ es k"
  then have "{i. i < length es \<and> occ es i} \<subset> {..<length es}" by auto
  from psubset_card_mono [OF _ this] show ?thesis by (simp add: size_elems)
qed

section \<open>The search loop\<close>

definition matches :: "('k \<Rightarrow> bool) \<Rightarrow> u32 \<Rightarrow> ('k, 'v) ht_entry \<Rightarrow> bool" where
  "matches same hash e \<longleftrightarrow> e_occupied e \<and> e_hash e = hash \<and> same (e_key e)"

text \<open>The result of a search that starts at \<open>h\<close>.\<close>

definition probe_post ::
  "nat \<Rightarrow> ('k \<Rightarrow> bool) \<Rightarrow> u32 \<Rightarrow> ('k, 'v) ht_entry list \<Rightarrow> nat \<Rightarrow> int \<Rightarrow> nat \<Rightarrow> bool" where
  "probe_post sz same hash es h r i \<longleftrightarrow> i < sz \<and>
     (\<forall>j < sz. cdist sz h j < cdist sz h i \<longrightarrow> occ es j \<and> \<not> matches same hash (es ! j)) \<and>
     (r = 1 \<and> \<not> occ es i \<or> r = 0 \<and> matches same hash (es ! i))"

lemma probe_from:
  assumes "length es = sz" "h < sz" "index < sz" "k < sz"
    and "\<not> occ es k \<or> matches same hash (es ! k)"
    and "\<forall>j < sz. cdist sz h j < cdist sz h index \<longrightarrow> occ es j \<and> \<not> matches same hash (es ! j)"
  shows "\<exists>r i. probe sz same hash es index = Some (r, i) \<and> probe_post sz same hash es h r i"
  using assms
proof (induction "cdist sz index k" arbitrary: index rule: less_induct)
  case less
  let ?next = "Suc index mod sz"
  show ?case
  proof (cases "\<not> occ es index \<or> matches same hash (es ! index)")
    case True
    with less.prems show ?thesis
      by (auto simp: probe.simps [of sz same hash es index] probe_post_def matches_def)
  next
    case False
    with less.prems have step: "probe sz same hash es index = probe sz same hash es ?next"
      by (auto simp: probe.simps [of sz same hash es index] matches_def)
    have ne: "index \<noteq> k" using False less.prems(5) by auto
    have nx: "?next < sz" using less.prems(3) by (rule suc_mod_less)
    have dec: "cdist sz ?next k < cdist sz index k"
      using ne less.prems(3,4) by (auto simp: cdist_alt suc_mod_alt)
    have seen: "\<forall>j < sz. cdist sz h j \<le> cdist sz h index \<longrightarrow> occ es j \<and> \<not> matches same hash (es ! j)"
      using False less.prems(2,3,6) by (metis cdist_inj le_neq_implies_less)
    have "?next \<noteq> h"
    proof
      assume "?next = h"
      then have "cdist sz h k \<le> cdist sz h index"
        using less.prems(2-4) by (auto simp: cdist_alt suc_mod_alt split: if_splits)
      with seen less.prems(4,5) show False by blast
    qed
    then have "cdist sz h ?next = Suc (cdist sz h index)"
      using less.prems(2,3) by (simp add: cdist_suc)
    with seen have "\<forall>j < sz. cdist sz h j < cdist sz h ?next \<longrightarrow> occ es j \<and> \<not> matches same hash (es ! j)"
      by simp
    from less.hyps [OF dec less.prems(1,2) nx less.prems(4,5) this] step show ?thesis by simp
  qed
qed

lemma probe_Some_imp:
  "probe sz same hash es index = Some y \<Longrightarrow> length es = sz \<longrightarrow>
     (\<exists>i < sz. \<not> occ es i \<or> matches same hash (es ! i))"
  by (erule probe.raw_induct [rotated])
     (auto simp: matches_def split: bind_splits if_splits)

lemma probe_diverges:
  assumes "length es = sz" "\<forall>i < sz. occ es i \<and> \<not> matches same hash (es ! i)"
  shows "probe sz same hash es index = None"
  using probe_Some_imp [of sz same hash es index] assms
  by (cases "probe sz same hash es index") auto

lemma probe_correct:
  assumes "length es = sz" "chained sz es"
    and "size (elems es) < sz \<or> (\<exists>k < sz. matches same hash (es ! k))" "0 < sz"
  shows "\<exists>r i. probe sz same hash es (HASH2INDEX sz hash) = Some (r, i) \<and>
     probe_post sz same hash es (HASH2INDEX sz hash) r i \<and>
     (r = 1 \<longrightarrow> (\<forall>j < sz. \<not> matches same hash (es ! j)))"
proof -
  let ?h = "HASH2INDEX sz hash"
  from assms(1,3) obtain k where k: "k < sz" "\<not> occ es k \<or> matches same hash (es ! k)"
    using ex_free [of es] by blast
  have h: "?h < sz" using assms(4) by simp
  from probe_from [OF assms(1) h h k] h obtain r i where
    r: "probe sz same hash es ?h = Some (r, i)" "probe_post sz same hash es ?h r i" by auto
  have "\<not> matches same hash (es ! j)" if "r = 1" "j < sz" for j
  proof
    assume m: "matches same hash (es ! j)"
    from r(2) \<open>r = 1\<close> have i: "\<not> occ es i" "i < sz" by (auto simp: probe_post_def)
    from m have "occ es j" "home sz es j = ?h" by (auto simp: matches_def)
    with assms(2) \<open>j < sz\<close> i have "\<not> cdist sz ?h i < cdist sz ?h j"
      unfolding chained_def by metis
    moreover from r(2) m \<open>j < sz\<close> have "\<not> cdist sz ?h j < cdist sz ?h i"
      unfolding probe_post_def by blast
    ultimately have "i = j" using cdist_inj [OF h i(2) \<open>j < sz\<close>] by simp
    with i m show False by (simp add: matches_def)
  qed
  with r show ?thesis by blast
qed

section \<open>The back-shift loop\<close>

definition disp :: "nat \<Rightarrow> ('k, 'v) ht_entry list \<Rightarrow> nat" where
  "disp sz es = (\<Sum>i < sz. if occ es i then cdist sz (home sz es i) i else 0)"

text \<open>
  The state of the loop: slot \<open>E\<close> is empty, every probing path is occupied except perhaps at
  \<open>E\<close>, and no entry scanned so far (from behind \<open>E\<close> up to \<open>index\<close>) has \<open>E\<close> on its path.
\<close>

definition shift_inv :: "nat \<Rightarrow> ('k, 'v) ht_entry list \<Rightarrow> nat \<Rightarrow> nat \<Rightarrow> bool" where
  "shift_inv sz es index E \<longleftrightarrow> length es = sz \<and> index < sz \<and> E < sz \<and> \<not> occ es E \<and>
     (\<forall>i < sz. occ es i \<longrightarrow> (\<forall>j < sz. cdist sz (home sz es i) j < cdist sz (home sz es i) i \<longrightarrow>
        occ es j \<or> j = E)) \<and>
     (\<forall>i < sz. occ es i \<and> 0 < cdist sz E i \<and> cdist sz E i \<le> cdist sz E index \<longrightarrow>
        \<not> cdist sz (home sz es i) E < cdist sz (home sz es i) i)"

lemma cdist_between:
  assumes "h < N" "E < N" "i < N" "j < N" "cdist N h E < cdist N h i" "cdist N E j < cdist N E i"
  shows "cdist N h j < cdist N h i"
  using assms by (auto simp: cdist_alt split: if_splits)

lemma shift_inv_exit:
  assumes "shift_inv sz es index E" "\<not> occ es (Suc index mod sz)"
  shows "chained sz es"
  unfolding chained_def
proof (intro allI impI)
  fix i j
  let ?n = "Suc index mod sz" and ?h = "home sz es i"
  assume i: "i < sz" "occ es i" and j: "j < sz" "cdist sz ?h j < cdist sz ?h i"
  from assms(1) have b: "index < sz" "E < sz" "\<not> occ es E" by (auto simp: shift_inv_def)
  have n: "?n < sz" using b(1) by (rule suc_mod_less)
  have h: "?h < sz" using i(1) by simp
  have "j \<noteq> E"
  proof
    assume "j = E"
    with j have path: "cdist sz ?h E < cdist sz ?h i" by simp
    have "i \<noteq> E" "i \<noteq> ?n" using i b assms(2) by auto
    then have "0 < cdist sz E i" using cdist_eq_0_iff [of E sz i] i b by simp
    with assms(1) i path have far: "cdist sz E index < cdist sz E i"
      unfolding shift_inv_def by (meson not_le_imp_less)
    have "?n \<noteq> E" using far b i by (auto simp: cdist_alt suc_mod_alt split: if_splits)
    then have "cdist sz E ?n \<le> cdist sz E i" using far b by (simp add: cdist_suc)
    with \<open>i \<noteq> ?n\<close> have "cdist sz E ?n < cdist sz E i"
      using cdist_inj [OF b(2) n i(1)] by (metis le_neq_implies_less)
    then have "cdist sz ?h ?n < cdist sz ?h i"
      by (rule cdist_between [OF h b(2) i(1) n path])
    with assms i n \<open>?n \<noteq> E\<close> show False unfolding shift_inv_def by blast
  qed
  with assms(1) i j show "occ es j" by (auto simp: shift_inv_def)
qed

lemma shift_inv_skip:
  assumes "shift_inv sz es index E" "occ es n" "n = Suc index mod sz"
    and "\<not> cdist sz (home sz es n) E < cdist sz (home sz es n) n"
  shows "shift_inv sz es n E"
proof -
  from assms(1) have b: "index < sz" "E < sz" "\<not> occ es E" by (auto simp: shift_inv_def)
  have n: "n < sz" using b(1) assms(3) by (simp add: suc_mod_less)
  have "n \<noteq> E" using assms(2) b(3) by auto
  then have c: "cdist sz E n = Suc (cdist sz E index)" using b assms(3) by (simp add: cdist_suc)
  have "cdist sz E i \<le> cdist sz E index \<or> i = n" if "i < sz" "cdist sz E i \<le> cdist sz E n" for i
    using that c cdist_inj [OF b(2) that(1) n] by linarith
  with assms(1,4) n show ?thesis unfolding shift_inv_def by blast
qed

lemma shift_inv_move:
  assumes inv: "shift_inv sz es index E" and "occ es n" "n < sz"
    and path: "cdist sz (home sz es n) E < cdist sz (home sz es n) n"
  shows "shift_inv sz (es[n := (es ! n)\<lparr>e_occupied := False\<rparr>, E := (es ! n)\<lparr>e_occupied := True\<rparr>]) n n"
    (is "shift_inv sz ?es' n n")
proof -
  from inv have b: "length es = sz" "E < sz" "\<not> occ es E" by (auto simp: shift_inv_def)
  have ne: "n \<noteq> E" using assms(2) b(3) by auto
  have nth: "?es' ! E = es ! n" "\<not> occ ?es' n"
    and other: "i \<noteq> E \<Longrightarrow> i \<noteq> n \<Longrightarrow> ?es' ! i = es ! i" for i
    using assms(2,3) b ne by auto
  have "occ ?es' j \<or> j = n"
    if i: "i < sz" "occ ?es' i" and j: "j < sz" "cdist sz (home sz ?es' i) j < cdist sz (home sz ?es' i) i" for i j
  proof -
    have "i \<noteq> n" using nth i by auto
    have "occ es j \<or> j = E"
    proof (cases "i = E")
      case True
      with j nth path have "cdist sz (home sz es n) j < cdist sz (home sz es n) n" by simp
      with inv assms(2,3) j show ?thesis unfolding shift_inv_def by blast
    next
      case False
      with other [OF False \<open>i \<noteq> n\<close>] i j inv show ?thesis unfolding shift_inv_def by metis
    qed
    then show ?thesis using nth(1) other [of j] assms(2) by metis
  qed
  moreover have "cdist sz n i \<le> cdist sz n n \<Longrightarrow> \<not> 0 < cdist sz n i" for i
    using assms(3) by simp
  ultimately show ?thesis using b nth(2) assms(3) unfolding shift_inv_def length_list_update by blast
qed

lemma sum_update:
  fixes f :: "nat \<Rightarrow> 'a \<Rightarrow> nat"
  assumes "k < length xs"
  shows "(\<Sum>i < length xs. f i (xs[k := v] ! i)) + f k (xs ! k) = (\<Sum>i < length xs. f i (xs ! i)) + f k v"
proof -
  have "(\<Sum>i < length xs. f i (xs[k := v] ! i)) = f k v + (\<Sum>i \<in> {..<length xs} - {k}. f i (xs ! i))"
    using assms by (subst sum.remove [of _ k]) (auto intro!: sum.cong)
  moreover have "(\<Sum>i < length xs. f i (xs ! i)) = f k (xs ! k) + (\<Sum>i \<in> {..<length xs} - {k}. f i (xs ! i))"
    using assms by (subst sum.remove [of _ k]) auto
  ultimately show ?thesis by simp
qed

lemma disp_update:
  assumes "k < length es" "length es = sz"
  shows "disp sz (es[k := e]) + (if occ es k then cdist sz (home sz es k) k else 0) =
    disp sz es + (if e_occupied e then cdist sz (HASH2INDEX sz (e_hash e)) k else 0)"
  using sum_update [OF assms(1), where v = e and
      f = "\<lambda>i e. if e_occupied e then cdist sz (HASH2INDEX sz (e_hash e)) i else 0"] assms
  by (simp add: disp_def)

lemma disp_move:
  assumes "length es = sz" "E < sz" "n < sz" "\<not> occ es E" "occ es n"
    and "cdist sz (home sz es n) E < cdist sz (home sz es n) n"
  shows "disp sz (es[n := (es ! n)\<lparr>e_occupied := False\<rparr>, E := (es ! n)\<lparr>e_occupied := True\<rparr>]) < disp sz es"
proof -
  have ne: "E \<noteq> n" using assms by auto
  let ?es1 = "es[n := (es ! n)\<lparr>e_occupied := False\<rparr>]"
  have "disp sz ?es1 + cdist sz (home sz es n) n = disp sz es"
    using disp_update [of n es sz "(es ! n)\<lparr>e_occupied := False\<rparr>"] assms by simp
  moreover have "disp sz (?es1[E := (es ! n)\<lparr>e_occupied := True\<rparr>]) = disp sz ?es1 + cdist sz (home sz es n) E"
    using disp_update [of E ?es1 sz "(es ! n)\<lparr>e_occupied := True\<rparr>"] assms ne by simp
  ultimately show ?thesis using assms(6) by linarith
qed

lemma elems_move:
  assumes "E < length es" "n < length es" "\<not> occ es E" "occ es n"
  shows "elems (es[n := (es ! n)\<lparr>e_occupied := False\<rparr>, E := (es ! n)\<lparr>e_occupied := True\<rparr>]) = elems es"
proof -
  have eq: "(es ! n)\<lparr>e_occupied := True\<rparr> = es ! n" using assms(4) by simp
  have "E \<noteq> n" using assms by auto
  then show ?thesis
    unfolding eq using assms elems_mem [of n es] by (simp add: elems_update)
qed

text \<open>
  The loop ends, restores the probing invariant, keeps the multiset of occupied entries, and keeps
  every relation \<open>J\<close> between the entries and the table's other state that one move keeps.
\<close>

lemma backshift_spec:
  assumes "shift_inv sz es index E" "sz < 2 ^ 31" "J es x"
    and mv: "\<And>es x n E. length es = sz \<Longrightarrow> n < sz \<Longrightarrow> E < sz \<Longrightarrow> occ es n \<Longrightarrow> \<not> occ es E \<Longrightarrow> J es x \<Longrightarrow>
      \<exists>x'. mv (es ! n) E x = Some x' \<and>
        J (es[n := (es ! n)\<lparr>e_occupied := False\<rparr>, E := (es ! n)\<lparr>e_occupied := True\<rparr>]) x'"
  shows "\<exists>es' x'. backshift sz mv es x index E = Some (es', x') \<and> length es' = sz \<and>
     chained sz es' \<and> elems es' = elems es \<and> J es' x'"
  using assms(1,3)
proof (induction "disp sz es * sz + (sz - 1 - cdist sz E index)" arbitrary: es x index E
    rule: less_induct)
  case less
  let ?n = "Suc index mod sz"
  let ?es' = "es[?n := (es ! ?n)\<lparr>e_occupied := False\<rparr>, E := (es ! ?n)\<lparr>e_occupied := True\<rparr>]"
  from less.prems(1) have b: "length es = sz" "index < sz" "E < sz" "\<not> occ es E" by (auto simp: shift_inv_def)
  have n: "?n < sz" using b(2) by (rule suc_mod_less)
  have h: "home sz es ?n < sz" using b by simp
  note CM = CAN_MOVE_iff [OF n h b(3) assms(2)]
  consider (exit) "\<not> occ es ?n"
    | (move) "occ es ?n" "cdist sz (home sz es ?n) E < cdist sz (home sz es ?n) ?n"
    | (skip) "occ es ?n" "\<not> cdist sz (home sz es ?n) E < cdist sz (home sz es ?n) ?n" by blast
  then show ?case
  proof cases
    case exit
    with shift_inv_exit [OF less.prems(1)] b n less.prems(2) show ?thesis
      by (simp add: backshift.simps [of sz mv es x index E] Let_def)
  next
    case move
    then have "?n \<noteq> home sz es ?n" using h by (auto simp: cdist_self)
    obtain x' where x': "mv (es ! ?n) E x = Some x'" "J ?es' x'"
      using mv [OF b(1) n b(3) move(1) b(4) less.prems(2)] by blast
    have "Suc (disp sz ?es') * sz \<le> disp sz es * sz"
      using disp_move [OF b(1,3) n b(4) move] by (intro mult_le_mono1) simp
    then have dec: "disp sz ?es' * sz + (sz - 1 - cdist sz ?n ?n) < disp sz es * sz + (sz - 1 - cdist sz E index)"
      using b(2) by simp
    have "\<exists>es'' x''. backshift sz mv ?es' x' ?n ?n = Some (es'', x'') \<and> length es'' = sz \<and>
        chained sz es'' \<and> elems es'' = elems ?es' \<and> J es'' x''"
      by (intro less.hyps shift_inv_move [OF less.prems(1) move(1) n move(2)] x'(2) dec)
    with move x' b n CM \<open>?n \<noteq> home sz es ?n\<close> elems_move [of E es ?n] show ?thesis
      by (simp add: backshift.simps [of sz mv es x index E] Let_def)
  next
    case skip
    have "?n \<noteq> E" using skip(1) b(4) by auto
    then have "sz - 1 - cdist sz E ?n < sz - 1 - cdist sz E index"
      using b n cdist_less [of sz E ?n] by (simp add: cdist_suc)
    then have "\<exists>es'' x''. backshift sz mv es x ?n E = Some (es'', x'') \<and> length es'' = sz \<and>
        chained sz es'' \<and> elems es'' = elems es \<and> J es'' x''"
      by (intro less.hyps shift_inv_skip [OF less.prems(1) skip(1) refl skip(2)] less.prems(2)) simp
    with skip b n CM show ?thesis
      by (simp add: backshift.simps [of sz mv es x index E] Let_def)
  qed
qed

lemma shift_inv_start:
  assumes "chained sz es" "length es = sz" "k < sz" "\<not> e_occupied e"
  shows "shift_inv sz (es[k := e]) k k"
proof -
  have "occ (es[k := e]) j \<or> j = k"
    if "i < sz" "occ (es[k := e]) i" "j < sz"
      "cdist sz (home sz (es[k := e]) i) j < cdist sz (home sz (es[k := e]) i) i" for i j
  proof -
    have "i \<noteq> k" using that assms by auto
    with that chainedD [OF assms(1), of i j] have "occ es j" by simp
    then show ?thesis by (cases "j = k") auto
  qed
  moreover have "cdist sz k i \<le> cdist sz k k \<Longrightarrow> \<not> 0 < cdist sz k i" for i
    using assms(3) by simp
  moreover have "\<not> occ (es[k := e]) k" using assms by simp
  ultimately show ?thesis using assms unfolding shift_inv_def length_list_update by blast
qed

section \<open>Tables as finite maps\<close>

text \<open>
  \<open>kf\<close> projects a stored key on the part that is hashed and compared, \<open>H\<close> hashes that part.
  \<open>tmap\<close> reads the table as a map from projected keys to the stored key and value.
\<close>

definition tmap :: "('k \<Rightarrow> 'c) \<Rightarrow> ('k, 'v) ht_entry list \<Rightarrow> 'c \<Rightarrow> ('k \<times> 'v) option" where
  "tmap kf es c =
     map_option (\<lambda>e. (e_key e, e_value e)) (find (\<lambda>e. e_occupied e \<and> kf (e_key e) = c) es)"

definition keys_ok :: "('k \<Rightarrow> 'c) \<Rightarrow> ('c \<Rightarrow> u32) \<Rightarrow> ('k, 'v) ht_entry multiset \<Rightarrow> bool" where
  [inv_defs]: "keys_ok kf H M \<longleftrightarrow> (\<forall>e \<in># M. e_hash e = H (kf (e_key e))) \<and>
     (\<forall>c. count (image_mset (\<lambda>e. kf (e_key e)) M) c \<le> 1)"

definition table_inv :: "nat \<Rightarrow> ('k \<Rightarrow> 'c) \<Rightarrow> ('c \<Rightarrow> u32) \<Rightarrow> ('k, 'v) ht_entry list \<Rightarrow> bool" where
  [inv_defs]: "table_inv sz kf H es \<longleftrightarrow> length es = sz \<and> 0 < sz \<and> sz < 2 ^ 31 \<and> chained sz es \<and>
     keys_ok kf H (elems es)"

lemma keys_ok_unique:
  assumes "keys_ok kf H M" "e \<in># M" "e' \<in># M" "kf (e_key e) = kf (e_key e')"
  shows "e = e'"
proof (rule ccontr)
  assume "e \<noteq> e'"
  with assms(2,3) obtain N where M: "M = add_mset e (add_mset e' N)"
    by (metis insert_DiffM insert_noteq_member)
  from assms(1) have "count (image_mset (\<lambda>e. kf (e_key e)) M) (kf (e_key e)) \<le> 1"
    unfolding keys_ok_def by blast
  with assms(4) show False unfolding M by simp
qed

lemma keys_ok_diff: "keys_ok kf H M \<Longrightarrow> e \<in># M \<Longrightarrow> keys_ok kf H (M - {#e#})"
  by (auto simp: keys_ok_def image_mset_Diff dest: in_diffD intro: diff_le_self [THEN le_trans])

lemma keys_ok_add:
  assumes "keys_ok kf H M" "e_hash e = H (kf (e_key e))" "\<forall>e' \<in># M. kf (e_key e') \<noteq> kf (e_key e)"
  shows "keys_ok kf H (add_mset e M)"
proof -
  have "count (image_mset (\<lambda>e. kf (e_key e)) M) (kf (e_key e)) = 0"
    using assms(3) by (auto simp: count_eq_zero_iff)
  with assms(1,2) show ?thesis by (auto simp: keys_ok_def)
qed

lemma tmap_None_iff: "tmap kf es c = None \<longleftrightarrow> (\<forall>e \<in># elems es. kf (e_key e) \<noteq> c)"
  by (auto simp: tmap_def find_None_iff elems_def)

lemma tmap_Some_iff:
  assumes "keys_ok kf H (elems es)"
  shows "tmap kf es c = Some (k, v) \<longleftrightarrow>
    (\<exists>e \<in># elems es. kf (e_key e) = c \<and> e_key e = k \<and> e_value e = v)" (is "?l = ?r")
proof
  assume ?l
  then show ?r by (auto simp: tmap_def find_Some_iff intro!: bexI [OF _ elems_mem])
next
  assume ?r
  then obtain e where e: "e \<in># elems es" "kf (e_key e) = c" "e_key e = k" "e_value e = v" by blast
  then obtain e' where "find (\<lambda>e. e_occupied e \<and> kf (e_key e) = c) es = Some e'"
    by (cases "find (\<lambda>e. e_occupied e \<and> kf (e_key e) = c) es") (auto simp: find_None_iff elems_def)
  moreover from this have "e' \<in># elems es" "kf (e_key e') = c"
    by (auto simp: find_Some_iff intro!: elems_mem)
  moreover from this have "e = e'" using keys_ok_unique [OF assms e(1)] e(2) by simp
  ultimately show ?l using e by (simp add: tmap_def)
qed

lemma tmap_remove:
  assumes "keys_ok kf H (elems es)" "e \<in># elems es" "elems es' = elems es - {#e#}"
  shows "tmap kf es' = (tmap kf es)(kf (e_key e) := None)"
proof
  fix c
  have k': "keys_ok kf H (elems es')" using assms by (simp add: keys_ok_diff)
  have mem: "e' \<in># elems es' \<longleftrightarrow> e' \<in># elems es \<and> kf (e_key e') \<noteq> kf (e_key e)" for e'
  proof -
    have "\<not> kf (e_key e) \<in># image_mset (\<lambda>e. kf (e_key e)) (elems es')"
      using assms by (auto simp: keys_ok_def image_mset_Diff not_in_iff)
    with assms(3) keys_ok_unique [OF assms(1) _ assms(2)] show ?thesis
      by (auto simp: in_diff_count dest: in_diffD)
  qed
  show "tmap kf es' c = ((tmap kf es)(kf (e_key e) := None)) c"
  proof (cases "tmap kf es' c")
    case None
    then have "c \<noteq> kf (e_key e) \<Longrightarrow> tmap kf es c = None" using mem by (metis tmap_None_iff)
    with None show ?thesis by simp
  next
    case (Some p)
    then obtain k v where p: "p = (k, v)" "tmap kf es' c = Some (k, v)" by (cases p) auto
    then obtain e' where e': "e' \<in># elems es'" "kf (e_key e') = c" "e_key e' = k" "e_value e' = v"
      using tmap_Some_iff [OF k'] by blast
    with mem [of e'] have "kf (e_key e) \<noteq> c" "tmap kf es c = Some (k, v)"
      using tmap_Some_iff [OF assms(1)] by blast+
    with p show ?thesis by simp
  qed
qed

lemma tmap_add:
  assumes "keys_ok kf H (elems es)" "elems es' = add_mset e (elems es)" "keys_ok kf H (elems es')"
  shows "tmap kf es' = (tmap kf es)(kf (e_key e) \<mapsto> (e_key e, e_value e))"
proof
  fix c
  show "tmap kf es' c = ((tmap kf es)(kf (e_key e) \<mapsto> (e_key e, e_value e))) c"
  proof (cases "c = kf (e_key e)")
    case True
    then show ?thesis using tmap_Some_iff [OF assms(3)] assms(2) by auto
  next
    case False
    have "tmap kf es' c = Some (k, v) \<longleftrightarrow> tmap kf es c = Some (k, v)" for k v
      using False by (simp add: tmap_Some_iff [OF assms(1)] tmap_Some_iff [OF assms(3)] assms(2))
    with False show ?thesis by (cases "tmap kf es' c"; cases "tmap kf es c") auto
  qed
qed

text \<open>Searching for a key in a table that satisfies the invariant.\<close>

lemma table_matches:
  assumes "table_inv sz kf H es" "j < sz"
  shows "matches (\<lambda>k. kf k = c) (H c) (es ! j) \<longleftrightarrow> occ es j \<and> kf (e_key (es ! j)) = c"
  using assms elems_mem [of j es] by (auto simp: matches_def table_inv_def keys_ok_def)

lemma tmap_neq_None_iff:
  "length es = sz \<Longrightarrow> tmap kf es c \<noteq> None \<longleftrightarrow> (\<exists>j < sz. occ es j \<and> kf (e_key (es ! j)) = c)"
  by (auto simp: tmap_None_iff ball_elems)

lemma table_probe_hit:
  assumes "table_inv sz kf H es" "tmap kf es c = Some (k, v)"
  shows "\<exists>i < sz. probe sz (\<lambda>k. kf k = c) (H c) es (HASH2INDEX sz (H c)) = Some (0, i) \<and>
    occ es i \<and> e_key (es ! i) = k \<and> e_value (es ! i) = v \<and> kf k = c"
proof -
  from assms(1) have l: "length es = sz" "chained sz es" "0 < sz" "keys_ok kf H (elems es)"
    by (auto simp: table_inv_def)
  from assms(2) obtain j where j: "j < sz" "matches (\<lambda>k. kf k = c) (H c) (es ! j)"
    using tmap_neq_None_iff [OF l(1), of kf c] table_matches [OF assms(1)] by auto
  then have "\<exists>j < sz. matches (\<lambda>k. kf k = c) (H c) (es ! j)" by blast
  from probe_correct [OF l(1,2) disjI2 [OF this] l(3)] j obtain i where
    i: "probe sz (\<lambda>k. kf k = c) (H c) es (HASH2INDEX sz (H c)) = Some (0, i)"
      "i < sz" "matches (\<lambda>k. kf k = c) (H c) (es ! i)"
    by (auto simp: probe_post_def)
  with table_matches [OF assms(1)] have m: "occ es i" "kf (e_key (es ! i)) = c" by auto
  then have "tmap kf es c = Some (e_key (es ! i), e_value (es ! i))"
    using tmap_Some_iff [OF l(4)] elems_mem [of i es] l(1) i(2) by blast
  with assms(2) i m show ?thesis by auto
qed

lemma table_probe_miss:
  assumes "table_inv sz kf H es" "tmap kf es c = None" "size (elems es) < sz"
  shows "\<exists>i < sz. probe sz (\<lambda>k. kf k = c) (H c) es (HASH2INDEX sz (H c)) = Some (1, i) \<and>
    \<not> occ es i \<and> (\<forall>j < sz. cdist sz (HASH2INDEX sz (H c)) j < cdist sz (HASH2INDEX sz (H c)) i \<longrightarrow> occ es j)"
proof -
  from assms(1) have l: "length es = sz" "chained sz es" "0 < sz" by (auto simp: table_inv_def)
  from assms(2) have no: "\<not> matches (\<lambda>k. kf k = c) (H c) (es ! j)" if "j < sz" for j
    using tmap_neq_None_iff [OF l(1), of kf c] table_matches [OF assms(1) that] that by auto
  from probe_correct [OF l(1,2) disjI1 [OF assms(3)] l(3)] obtain r i where
    r: "probe sz (\<lambda>k. kf k = c) (H c) es (HASH2INDEX sz (H c)) = Some (r, i)"
    "probe_post sz (\<lambda>k. kf k = c) (H c) es (HASH2INDEX sz (H c)) r i" by blast
  with no have "r = 1" by (auto simp: probe_post_def)
  with r show ?thesis unfolding probe_post_def by auto
qed

lemma table_probe_full:
  assumes "table_inv sz kf H es" "tmap kf es c = None" "size (elems es) = sz"
  shows "probe sz (\<lambda>k. kf k = c) (H c) es index = None"
proof (rule probe_diverges)
  show l: "length es = sz" using assms(1) by (auto simp: table_inv_def)
  have "occ es i" if "i < sz" for i using free_size [of i es] l assms(3) that by auto
  moreover have "\<not> matches (\<lambda>k. kf k = c) (H c) (es ! i)" if "i < sz" for i
    using that assms(2) tmap_neq_None_iff [OF l, of kf c] table_matches [OF assms(1) that] by blast
  ultimately show "\<forall>i < sz. occ es i \<and> \<not> matches (\<lambda>k. kf k = c) (H c) (es ! i)" by blast
qed

text \<open>Storing a new entry at the free slot the search returned, and removing an entry.\<close>

lemma table_insert:
  assumes inv: "table_inv sz kf H es" and new: "tmap kf es (kf (e_key e)) = None"
    and i: "i < sz" "\<not> occ es i" and e: "e_occupied e" "e_hash e = H (kf (e_key e))"
    and path: "\<forall>j < sz. cdist sz (HASH2INDEX sz (e_hash e)) j < cdist sz (HASH2INDEX sz (e_hash e)) i \<longrightarrow> occ es j"
  shows "table_inv sz kf H (es[i := e])"
    and "tmap kf (es[i := e]) = (tmap kf es)(kf (e_key e) \<mapsto> (e_key e, e_value e))"
    and "size (elems (es[i := e])) = Suc (size (elems es))"
proof -
  from inv have l: "length es = sz" "chained sz es" "keys_ok kf H (elems es)" by (auto simp: table_inv_def)
  have el: "elems (es[i := e]) = add_mset e (elems es)" using i e l by (simp add: elems_update)
  have ok: "keys_ok kf H (elems (es[i := e]))"
    using keys_ok_add [OF l(3) e(2)] new by (simp add: el tmap_None_iff)
  have "chained sz (es[i := e])"
    unfolding chained_def
  proof (intro allI impI)
    fix n j
    assume a: "n < sz" "occ (es[i := e]) n" "j < sz"
      "cdist sz (home sz (es[i := e]) n) j < cdist sz (home sz (es[i := e]) n) n"
    have "occ es j"
    proof (cases "n = i")
      case True then show ?thesis using a path l i by simp
    next
      case False
      then have "es[i := e] ! n = es ! n" by simp
      with a chainedD [OF l(2), of n j] show ?thesis by simp
    qed
    then show "occ (es[i := e]) j" using e l i by (cases "j = i") auto
  qed
  with inv ok show "table_inv sz kf H (es[i := e])" by (simp add: table_inv_def)
  show "tmap kf (es[i := e]) = (tmap kf es)(kf (e_key e) \<mapsto> (e_key e, e_value e))"
    using tmap_add [OF l(3) el ok] .
  show "size (elems (es[i := e])) = Suc (size (elems es))" by (simp add: el)
qed

lemma table_remove:
  assumes inv: "table_inv sz kf H es" and k: "k < sz" "occ es k" "\<not> e_occupied e0"
    and J: "J (es[k := e0]) x"
    and mv: "\<And>es x n E. length es = sz \<Longrightarrow> n < sz \<Longrightarrow> E < sz \<Longrightarrow> occ es n \<Longrightarrow> \<not> occ es E \<Longrightarrow> J es x \<Longrightarrow>
      \<exists>x'. mv (es ! n) E x = Some x' \<and>
        J (es[n := (es ! n)\<lparr>e_occupied := False\<rparr>, E := (es ! n)\<lparr>e_occupied := True\<rparr>]) x'"
  shows "\<exists>es' x'. backshift sz mv (es[k := e0]) x k k = Some (es', x') \<and> table_inv sz kf H es' \<and>
     tmap kf es' = (tmap kf es)(kf (e_key (es ! k)) := None) \<and>
     Suc (size (elems es')) = size (elems es) \<and> J es' x'"
proof -
  from inv have l: "length es = sz" "sz < 2 ^ 31" "chained sz es" "keys_ok kf H (elems es)"
    by (auto simp: table_inv_def)
  have mem: "es ! k \<in># elems es" using elems_mem k l by blast
  have "\<exists>es' x'. backshift sz mv (es[k := e0]) x k k = Some (es', x') \<and> length es' = sz \<and>
      chained sz es' \<and> elems es' = elems (es[k := e0]) \<and> J es' x'"
    by (rule backshift_spec [where J = J and mv = mv, OF shift_inv_start [OF l(3,1) k(1,3)] l(2) J])
      (rule mv)
  then obtain es' x' where r: "backshift sz mv (es[k := e0]) x k k = Some (es', x')" "length es' = sz"
    "chained sz es'" "elems es' = elems (es[k := e0])" "J es' x'"
    by (elim exE conjE) (rule that)
  have el: "elems es' = elems es - {#es ! k#}" using r(4) k l by (simp add: elems_update)
  have "table_inv sz kf H es'"
    using keys_ok_diff [OF l(4) mem] inv r(2,3) by (simp add: el table_inv_def)
  moreover have "tmap kf es' = (tmap kf es)(kf (e_key (es ! k)) := None)"
    using tmap_remove [OF l(4) mem el] .
  moreover have "Suc (size (elems es')) = size (elems es)"
    using mem el by (metis size_Suc_Diff1)
  ultimately show ?thesis using r(1,5) by (intro exI conjI)
qed

text \<open>The number of occupied entries is the size of the map.\<close>

lemma dom_tmap: "dom (tmap kf es) = set_mset (image_mset (\<lambda>e. kf (e_key e)) (elems es))"
proof -
  have "c \<in> dom (tmap kf es) \<longleftrightarrow> c \<in># image_mset (\<lambda>e. kf (e_key e)) (elems es)" for c
    using tmap_None_iff [of kf es c] by (auto simp: domIff)
  then show ?thesis by blast
qed

lemma card_dom_tmap:
  assumes "keys_ok kf H (elems es)"
  shows "finite (dom (tmap kf es))" "card (dom (tmap kf es)) = size (elems es)"
proof -
  let ?M = "image_mset (\<lambda>e. kf (e_key e)) (elems es)"
  show "finite (dom (tmap kf es))" by (simp add: dom_tmap)
  have "count ?M c = 1" if "c \<in># ?M" for c
    using assms that unfolding keys_ok_def
    by (metis One_nat_def Suc_leI count_greater_zero_iff le_antisym)
  then have "size ?M = card (set_mset ?M)"
    by (simp add: size_multiset_overloaded_eq)
  then show "card (dom (tmap kf es)) = size (elems es)" by (simp only: dom_tmap size_image_mset)
qed

lemma num_entries_eq_iff:
  "a \<le> n \<Longrightarrow> n < 2 ^ 31 \<Longrightarrow> (of_nat a :: u64) = of_nat n \<longleftrightarrow> a = n"
  by (simp add: word_of_nat_eq_iff take_bit_nat_eq_self)

lemma table_inv_init:
  assumes "0 < sz" "sz < 2 ^ 31" "\<not> e_occupied e"
  shows "table_inv sz kf H (replicate sz e)" "elems (replicate sz e) = {#}" "tmap kf (replicate sz e) = Map.empty"
proof -
  show el: "elems (replicate sz e) = {#}" using assms by (simp add: elems_def filter_mset_eq_conv)
  with assms show "table_inv sz kf H (replicate sz e)" by (simp add: table_inv_def chained_def keys_ok_def)
  show "tmap kf (replicate sz e) = Map.empty" using el tmap_None_iff [of kf "replicate sz e"] by auto
qed

end
