(* ===== verification/Index_Map.thy ===== *)
theory Index_Map
  imports Open_Addressing
begin

text \<open>
  The reverse map \<open>feature_index_to_entry_map\<close> that the flow table and the session table keep beside
  their entries: from an id to the slot whose entry carries it, or \<open>-1\<close>. The three updates the
  code makes (store, clear, move during back-shift) keep it exact.
\<close>

section \<open>Exactness\<close>

text \<open>The reverse map: exactly the ids of occupied entries point to a slot, and to their own.\<close>

definition entries_mapped :: "nat \<Rightarrow> ('k, int) ht_entry list \<Rightarrow> int list \<Rightarrow> bool" where
  [inv_defs]: "entries_mapped F es m \<longleftrightarrow> (\<forall>i < length es. occ es i \<longrightarrow>
     0 \<le> e_value (es ! i) \<and> nat (e_value (es ! i)) < F \<and> m ! nat (e_value (es ! i)) = int i)"

definition slots_mapped :: "nat \<Rightarrow> ('k, int) ht_entry list \<Rightarrow> int list \<Rightarrow> bool" where
  [inv_defs]: "slots_mapped F es m \<longleftrightarrow> (\<forall>v < F. m ! v \<noteq> - 1 \<longrightarrow>
     (\<exists>i < length es. occ es i \<and> e_value (es ! i) = int v \<and> m ! v = int i))"

definition index_map_ok :: "nat \<Rightarrow> ('k, int) ht_entry list \<Rightarrow> int list \<Rightarrow> bool" where
  [inv_defs]: "index_map_ok F es m \<longleftrightarrow> length m = F \<and> entries_mapped F es m \<and> slots_mapped F es m"

section \<open>Updates\<close>

lemma index_map_ok_length: "index_map_ok F es m \<Longrightarrow> length m = F"
  by (simp add: index_map_ok_def)

lemma index_map_ok_entry:
  "index_map_ok F es m \<Longrightarrow> i < length es \<Longrightarrow> occ es i \<Longrightarrow>
     0 \<le> e_value (es ! i) \<and> nat (e_value (es ! i)) < F \<and> m ! nat (e_value (es ! i)) = int i"
  unfolding index_map_ok_def entries_mapped_def by blast

lemma index_map_ok_slot:
  "index_map_ok F es m \<Longrightarrow> v < F \<Longrightarrow> m ! v \<noteq> - 1 \<Longrightarrow>
     \<exists>i < length es. occ es i \<and> e_value (es ! i) = int v \<and> m ! v = int i"
  unfolding index_map_ok_def slots_mapped_def by blast

lemmas index_map_okD = index_map_ok_length index_map_ok_entry index_map_ok_slot

lemma index_map_ok_values:
  assumes "index_map_ok F es m" "i < length es" "j < length es" "occ es i" "occ es j"
    and "e_value (es ! i) = e_value (es ! j)"
  shows "i = j"
proof -
  have "int i = m ! nat (e_value (es ! i))" "int j = m ! nat (e_value (es ! j))"
    using index_map_okD(2) assms(1-5) by metis+
  with assms(6) show ?thesis by simp
qed

text \<open>One rule for the three updates: storing, clearing and moving an entry.\<close>

lemma index_map_ok_upd:
  assumes ok: "index_map_ok F es m" and len: "length es' = length es"
    and v: "v < F"
    and same: "\<And>i. i < length es \<Longrightarrow> occ es' i \<Longrightarrow> e_value (es' ! i) \<noteq> int v \<Longrightarrow> occ es i \<and> es' ! i = es ! i"
    and kept: "\<And>i. i < length es \<Longrightarrow> occ es i \<Longrightarrow> e_value (es ! i) \<noteq> int v \<Longrightarrow> occ es' i \<and> es' ! i = es ! i"
    and new: "(\<forall>i < length es. \<not> (occ es' i \<and> e_value (es' ! i) = int v)) \<and> w = - 1 \<or>
      (\<exists>j < length es. w = int j \<and> (\<forall>i < length es. occ es' i \<and> e_value (es' ! i) = int v \<longleftrightarrow> i = j))"
  shows "index_map_ok F es' (m[v := w])"
  unfolding index_map_ok_def entries_mapped_def slots_mapped_def
proof (intro conjI allI impI)
  show "length (m[v := w]) = F" using ok by (simp add: index_map_ok_def)
next
  fix i assume i: "i < length es'" "occ es' i"
  show "0 \<le> e_value (es' ! i)"
    using i new same [of i] index_map_okD(2) [OF ok, of i] len by (cases "e_value (es' ! i) = int v") auto
  show "nat (e_value (es' ! i)) < F"
    using i new same [of i] index_map_okD(2) [OF ok, of i] len v by (cases "e_value (es' ! i) = int v") auto
  show "m[v := w] ! nat (e_value (es' ! i)) = int i"
  proof (cases "e_value (es' ! i) = int v")
    case True
    with i new len have "w = int i" by metis
    with True v index_map_okD(1) [OF ok] show ?thesis by simp
  next
    case False
    with same [of i] i len have e: "occ es i" "es' ! i = es ! i" by auto
    from index_map_okD(2) [OF ok _ e(1)] i(1) len e(2) False have
      "m ! nat (e_value (es' ! i)) = int i" "nat (e_value (es' ! i)) \<noteq> v" by auto
    then show ?thesis by simp
  qed
next
  fix u assume u: "u < F" "m[v := w] ! u \<noteq> - 1"
  show "(\<exists>i < length es'. occ es' i \<and> e_value (es' ! i) = int u \<and> m[v := w] ! u = int i)"
  proof (cases "u = v")
    case True
    have "m[v := w] ! v = w" using v index_map_okD(1) [OF ok] by simp
    with True new len u(2) show ?thesis by metis
  next
    case False
    then have m: "m[v := w] ! u = m ! u" by simp
    with u(2) index_map_okD(3) [OF ok u(1)] obtain i where
      i: "i < length es" "occ es i" "e_value (es ! i) = int u" "m ! u = int i" by auto
    with kept [of i] False m len show ?thesis by auto
  qed
qed

lemma index_map_insert:
  assumes ok: "index_map_ok F es m" and i: "i < length es" "\<not> occ es i"
    and v: "v < F" "m ! v = - 1" and e: "e_occupied e" "e_value e = int v"
  shows "index_map_ok F (es[i := e]) (m[v := int i])"
proof (rule index_map_ok_upd [OF ok _ v(1)])
  have unused: "e_value (es ! j) \<noteq> int v" if "j < length es" "occ es j" for j
    using index_map_okD(2) [OF ok that] v(2) by auto
  have "\<forall>j < length es. occ (es[i := e]) j \<and> e_value (es[i := e] ! j) = int v \<longleftrightarrow> j = i"
    using e i unused by (auto simp: nth_list_update)
  with i show "(\<forall>j < length es. \<not> (occ (es[i := e]) j \<and> e_value (es[i := e] ! j) = int v)) \<and> int i = - 1 \<or>
      (\<exists>k < length es. int i = int k \<and>
        (\<forall>j < length es. occ (es[i := e]) j \<and> e_value (es[i := e] ! j) = int v \<longleftrightarrow> j = k))"
    by blast
  fix j assume j: "j < length es"
  show "occ (es[i := e]) j \<Longrightarrow> e_value (es[i := e] ! j) \<noteq> int v \<Longrightarrow> occ es j \<and> es[i := e] ! j = es ! j"
    using e i j by (cases "j = i") auto
  show "occ es j \<Longrightarrow> e_value (es ! j) \<noteq> int v \<Longrightarrow> occ (es[i := e]) j \<and> es[i := e] ! j = es ! j"
    using e i j by (cases "j = i") auto
qed simp

lemma index_map_clear:
  assumes ok: "index_map_ok F es m" and k: "k < length es" "occ es k" and e0: "\<not> e_occupied e0"
  shows "index_map_ok F (es[k := e0]) (m[nat (e_value (es ! k)) := - 1])"
proof (rule index_map_ok_upd [OF ok])
  let ?v = "nat (e_value (es ! k))"
  have v: "int ?v = e_value (es ! k)" "?v < F" using index_map_okD(2) [OF ok k] by auto
  show "?v < F" by fact
  have only: "j = k" if "j < length es" "occ es j" "e_value (es ! j) = int ?v" for j
    using index_map_ok_values [OF ok that(1) k(1) that(2) k(2)] that(3) v by simp
  have "\<forall>j < length es. \<not> (occ (es[k := e0]) j \<and> e_value (es[k := e0] ! j) = int ?v)"
    using only e0 k by (metis nth_list_update_eq nth_list_update_neq)
  then show "(\<forall>j < length es. \<not> (occ (es[k := e0]) j \<and> e_value (es[k := e0] ! j) = int ?v)) \<and> - 1 = (- 1 :: int) \<or>
      (\<exists>i < length es. - 1 = int i \<and>
        (\<forall>j < length es. occ (es[k := e0]) j \<and> e_value (es[k := e0] ! j) = int ?v \<longleftrightarrow> j = i))"
    by blast
  fix j assume j: "j < length es"
  show "occ (es[k := e0]) j \<Longrightarrow> e_value (es[k := e0] ! j) \<noteq> int ?v \<Longrightarrow> occ es j \<and> es[k := e0] ! j = es ! j"
    using e0 k j by (cases "j = k") auto
  show "occ es j \<Longrightarrow> e_value (es ! j) \<noteq> int ?v \<Longrightarrow> occ (es[k := e0]) j \<and> es[k := e0] ! j = es ! j"
    using e0 k j v by (cases "j = k") auto
qed simp

text \<open>A move is a clear at the old slot followed by a store at the free one.\<close>

lemma index_map_move:
  assumes ok: "index_map_ok F es m" and n: "n < length es" "occ es n" and E: "E < length es" "\<not> occ es E"
  shows "index_map_ok F (es[n := (es ! n)\<lparr>e_occupied := False\<rparr>, E := (es ! n)\<lparr>e_occupied := True\<rparr>])
    (m[nat (e_value (es ! n)) := int E])"
proof -
  let ?v = "nat (e_value (es ! n))"
  have v: "int ?v = e_value (es ! n)" "?v < F" "length m = F"
    using index_map_okD(2) [OF ok n] index_map_okD(1) [OF ok] by auto
  have "E \<noteq> n" using n E by auto
  then have "index_map_ok F (es[n := (es ! n)\<lparr>e_occupied := False\<rparr>, E := (es ! n)\<lparr>e_occupied := True\<rparr>])
      (m[?v := - 1, ?v := int E])"
    using v n E by (intro index_map_insert index_map_clear [OF ok n]) auto
  then show ?thesis by simp
qed

end
