(* ===== verification/Keyed_Table.thy ===== *)
theory Keyed_Table
  imports Marina_Prelude
begin

text \<open>
  The contract of the controller's hash tables as their clients see it: a bounded finite map from
  the hashed part of a key to a value, with the C status codes. \<open>keyed_table\<close> is what lookups and
  removals promise, \<open>insert_once_table\<close> adds an insertion that refuses a present key (flows and
  sessions), \<open>overwrite_table\<close> one that replaces the value (DNS addresses). The client lemmas,
  in particular that whole operation sequences behave like the map, are proved here once; the
  table theories interpret the locales on their models.
\<close>

section \<open>Operation sequences on a map of bounded size\<close>

datatype ('k, 'v) t_op = T_Add 'k 'v | T_Get 'k | T_Remove 'k

datatype 'v t_out = Out_Status int | Out_Value int 'v

text \<open>The reference behaviour of one operation: status codes and the new map.\<close>

fun t_spec :: "nat \<Rightarrow> ('k \<Rightarrow> 'c) \<Rightarrow> 'v \<Rightarrow> ('k, 'v) t_op \<Rightarrow> ('c \<rightharpoonup> 'v) \<Rightarrow> 'v t_out \<times> ('c \<rightharpoonup> 'v)" where
  "t_spec cap kf v0 (T_Add k v) m =
     (if card (dom m) = cap \<or> kf k \<in> dom m then (Out_Status 1, m)
      else (Out_Status 0, m(kf k \<mapsto> v)))"
| "t_spec cap kf v0 (T_Get k) m =
     (case m (kf k) of None \<Rightarrow> (Out_Value 1 v0, m) | Some v \<Rightarrow> (Out_Value 0 v, m))"
| "t_spec cap kf v0 (T_Remove k) m =
     (if kf k \<in> dom m then (Out_Status 0, m(kf k := None)) else (Out_Status 1, m))"

fun t_spec_run :: "nat \<Rightarrow> ('k \<Rightarrow> 'c) \<Rightarrow> 'v \<Rightarrow> ('k, 'v) t_op list \<Rightarrow> ('c \<rightharpoonup> 'v) \<Rightarrow>
    'v t_out list \<times> ('c \<rightharpoonup> 'v)" where
  "t_spec_run cap kf v0 [] m = ([], m)"
| "t_spec_run cap kf v0 (a # as) m =
     (let (out, m') = t_spec cap kf v0 a m; (outs, m'') = t_spec_run cap kf v0 as m'
      in (out # outs, m''))"

text \<open>
  What a client has to respect: it searches only for present keys or in a table that is not full,
  and it adds only values that are acceptable for the table.
\<close>

fun t_admissible :: "nat \<Rightarrow> ('k \<Rightarrow> 'c) \<Rightarrow> (('c \<rightharpoonup> 'v) \<Rightarrow> 'k \<Rightarrow> 'v \<Rightarrow> bool) \<Rightarrow> ('k, 'v) t_op \<Rightarrow>
    ('c \<rightharpoonup> 'v) \<Rightarrow> bool" where
  "t_admissible cap kf vok (T_Add k v) m \<longleftrightarrow> vok m k v"
| "t_admissible cap kf vok (T_Get k) m \<longleftrightarrow> kf k \<in> dom m \<or> card (dom m) < cap"
| "t_admissible cap kf vok (T_Remove k) m \<longleftrightarrow> kf k \<in> dom m \<or> card (dom m) < cap"

fun t_admissible_run :: "nat \<Rightarrow> ('k \<Rightarrow> 'c) \<Rightarrow> (('c \<rightharpoonup> 'v) \<Rightarrow> 'k \<Rightarrow> 'v \<Rightarrow> bool) \<Rightarrow> 'v \<Rightarrow>
    ('k, 'v) t_op list \<Rightarrow> ('c \<rightharpoonup> 'v) \<Rightarrow> bool" where
  "t_admissible_run cap kf vok v0 [] m \<longleftrightarrow> True"
| "t_admissible_run cap kf vok v0 (a # as) m \<longleftrightarrow>
     t_admissible cap kf vok a m \<and> t_admissible_run cap kf vok v0 as (snd (t_spec cap kf v0 a m))"

text \<open>The condition on the added values alone.\<close>

fun t_adds_ok :: "nat \<Rightarrow> ('k \<Rightarrow> 'c) \<Rightarrow> (('c \<rightharpoonup> 'v) \<Rightarrow> 'k \<Rightarrow> 'v \<Rightarrow> bool) \<Rightarrow> 'v \<Rightarrow>
    ('k, 'v) t_op list \<Rightarrow> ('c \<rightharpoonup> 'v) \<Rightarrow> bool" where
  "t_adds_ok cap kf vok v0 [] m \<longleftrightarrow> True"
| "t_adds_ok cap kf vok v0 (a # as) m \<longleftrightarrow>
     (case a of T_Add k v \<Rightarrow> vok m k v | _ \<Rightarrow> True) \<and> t_adds_ok cap kf vok v0 as (snd (t_spec cap kf v0 a m))"

text \<open>The same operations on a concrete table.\<close>

fun t_step :: "('s \<Rightarrow> 'k \<Rightarrow> 'v \<Rightarrow> (int \<times> 's) option) \<Rightarrow> ('s \<Rightarrow> 'k \<Rightarrow> 'v \<Rightarrow> (int \<times> 'v) option) \<Rightarrow>
    ('s \<Rightarrow> 'k \<Rightarrow> ('r \<times> 's) option) \<Rightarrow> ('r \<Rightarrow> int) \<Rightarrow> 'v \<Rightarrow> ('k, 'v) t_op \<Rightarrow> 's \<Rightarrow>
    ('v t_out \<times> 's) option" where
  "t_step add get remove code v0 (T_Add k v) s = map_option (\<lambda>(r, s'). (Out_Status r, s')) (add s k v)"
| "t_step add get remove code v0 (T_Get k) s = map_option (\<lambda>(r, v). (Out_Value r v, s)) (get s k v0)"
| "t_step add get remove code v0 (T_Remove k) s =
     map_option (\<lambda>(r, s'). (Out_Status (code r), s')) (remove s k)"

fun t_run :: "('s \<Rightarrow> 'k \<Rightarrow> 'v \<Rightarrow> (int \<times> 's) option) \<Rightarrow> ('s \<Rightarrow> 'k \<Rightarrow> 'v \<Rightarrow> (int \<times> 'v) option) \<Rightarrow>
    ('s \<Rightarrow> 'k \<Rightarrow> ('r \<times> 's) option) \<Rightarrow> ('r \<Rightarrow> int) \<Rightarrow> 'v \<Rightarrow> ('k, 'v) t_op list \<Rightarrow> 's \<Rightarrow>
    ('v t_out list \<times> 's) option" where
  "t_run add get remove code v0 [] s = Some ([], s)"
| "t_run add get remove code v0 (a # as) s =
     do { (out, s') \<leftarrow> t_step add get remove code v0 a s;
          (outs, s'') \<leftarrow> t_run add get remove code v0 as s';
          Some (out # outs, s'') }"

section \<open>Lookup and removal\<close>

locale keyed_table =
  fixes cap :: nat
    and inv :: "'s \<Rightarrow> bool"
    and contents :: "'s \<Rightarrow> 'c \<Rightarrow> 'v option"
    and kf :: "'k \<Rightarrow> 'c"
    and get :: "'s \<Rightarrow> 'k \<Rightarrow> 'v \<Rightarrow> (int \<times> 'v) option"
    and remove :: "'s \<Rightarrow> 'k \<Rightarrow> ('r \<times> 's) option"
    and code :: "'r \<Rightarrow> int"
  assumes bounded: "inv s \<Longrightarrow> finite (dom (contents s)) \<and> card (dom (contents s)) \<le> cap"
    and get_hit: "inv s \<Longrightarrow> contents s (kf k) = Some v \<Longrightarrow> get s k v0 = Some (0, v)"
    and get_miss: "inv s \<Longrightarrow> contents s (kf k) = None \<Longrightarrow> card (dom (contents s)) < cap \<Longrightarrow>
      get s k v0 = Some (1, v0)"
    and remove_hit: "inv s \<Longrightarrow> contents s (kf k) = Some v \<Longrightarrow>
      \<exists>r s'. remove s k = Some (r, s') \<and> code r = 0 \<and> inv s' \<and>
        contents s' = (contents s)(kf k := None)"
    and remove_miss: "inv s \<Longrightarrow> contents s (kf k) = None \<Longrightarrow> card (dom (contents s)) < cap \<Longrightarrow>
      \<exists>r. remove s k = Some (r, s) \<and> code r = 1"
begin

lemma get_eq:
  "inv s \<Longrightarrow> kf k \<in> dom (contents s) \<or> card (dom (contents s)) < cap \<Longrightarrow>
     get s k v0 = Some (case contents s (kf k) of None \<Rightarrow> (1, v0) | Some v \<Rightarrow> (0, v))"
  by (auto simp: get_hit get_miss split: option.split)

lemma card_remove:
  assumes "inv s" "contents s (kf k) = Some v"
  shows "card (dom ((contents s)(kf k := None))) < cap"
proof -
  have "kf k \<in> dom (contents s)" using assms(2) by blast
  with bounded [OF assms(1)] have "card (dom (contents s) - {kf k}) < card (dom (contents s))"
    by (meson card_Diff1_less)
  with bounded [OF assms(1)] show ?thesis by simp
qed

lemma remove_then_get:
  assumes "inv s" "contents s (kf k) = Some v"
  shows "\<exists>r s'. remove s k = Some (r, s') \<and> code r = 0 \<and> get s' k v0 = Some (1, v0) \<and>
    (\<forall>k'. kf k' \<noteq> kf k \<longrightarrow> get s' k' v0 =
      Some (case contents s (kf k') of None \<Rightarrow> (1, v0) | Some v \<Rightarrow> (0, v)))"
proof -
  from remove_hit [OF assms] obtain r s' where r: "remove s k = Some (r, s')" "code r = 0" "inv s'"
    "contents s' = (contents s)(kf k := None)" by blast
  then have room: "card (dom (contents s')) < cap" using card_remove [OF assms] by simp
  with r show ?thesis by (simp add: get_eq)
qed

end

section \<open>Insertion\<close>

locale insert_once_table = keyed_table cap inv contents kf get remove code
  for cap :: nat and inv :: "'s \<Rightarrow> bool" and contents :: "'s \<Rightarrow> 'c \<Rightarrow> 'v option"
    and kf :: "'k \<Rightarrow> 'c" and get :: "'s \<Rightarrow> 'k \<Rightarrow> 'v \<Rightarrow> (int \<times> 'v) option"
    and remove :: "'s \<Rightarrow> 'k \<Rightarrow> ('r \<times> 's) option" and code :: "'r \<Rightarrow> int" +
  fixes add :: "'s \<Rightarrow> 'k \<Rightarrow> 'v \<Rightarrow> (int \<times> 's) option"
    and vok :: "('c \<Rightarrow> 'v option) \<Rightarrow> 'k \<Rightarrow> 'v \<Rightarrow> bool"
  assumes add_full: "inv s \<Longrightarrow> card (dom (contents s)) = cap \<Longrightarrow> add s k v = Some (1, s)"
    and add_present: "inv s \<Longrightarrow> contents s (kf k) = Some w \<Longrightarrow> add s k v = Some (1, s)"
    and add_new: "inv s \<Longrightarrow> card (dom (contents s)) < cap \<Longrightarrow> contents s (kf k) = None \<Longrightarrow>
      vok (contents s) k v \<Longrightarrow>
      \<exists>s'. add s k v = Some (0, s') \<and> inv s' \<and> contents s' = (contents s)(kf k \<mapsto> v)"
begin

lemma add_then_get:
  assumes "inv s" "card (dom (contents s)) < cap" "contents s (kf k) = None" "vok (contents s) k v"
  shows "\<exists>s'. add s k v = Some (0, s') \<and> get s' k v0 = Some (0, v)"
  using add_new [OF assms] get_hit by auto

lemma step_refines:
  assumes "inv s" "t_admissible cap kf vok a (contents s)"
  shows "\<exists>out s'. t_step add get remove code v0 a s = Some (out, s') \<and> inv s' \<and>
    t_spec cap kf v0 a (contents s) = (out, contents s')"
proof (cases a)
  case (T_Add k v)
  consider "card (dom (contents s)) = cap" | w where "contents s (kf k) = Some w"
    | "card (dom (contents s)) < cap" "contents s (kf k) = None"
    using bounded [OF assms(1)] by (cases "contents s (kf k)") fastforce+
  then show ?thesis
  proof cases
    case 3
    with add_new [OF assms(1), of k v] assms(2) T_Add show ?thesis by (auto simp: domIff)
  qed (use assms T_Add in \<open>auto simp: add_full add_present\<close>)
next
  case (T_Get k)
  with assms get_eq [OF assms(1), of k v0] show ?thesis by (auto split: option.split)
next
  case (T_Remove k)
  show ?thesis
  proof (cases "contents s (kf k)")
    case None
    with assms T_Remove remove_miss [OF assms(1), of k] show ?thesis by (auto simp: domIff)
  next
    case (Some v)
    with assms T_Remove remove_hit [OF assms(1), of k] show ?thesis by (auto simp: domIff)
  qed
qed

lemma run_refines:
  assumes "inv s" "t_admissible_run cap kf vok v0 as (contents s)"
  shows "\<exists>outs s'. t_run add get remove code v0 as s = Some (outs, s') \<and> inv s' \<and>
    t_spec_run cap kf v0 as (contents s) = (outs, contents s')"
  using assms
proof (induction as arbitrary: s)
  case (Cons a as)
  from Cons.prems step_refines [of s a v0] obtain out s1 where
    1: "t_step add get remove code v0 a s = Some (out, s1)" "inv s1"
      "t_spec cap kf v0 a (contents s) = (out, contents s1)" by auto
  with Cons.prems have "t_admissible_run cap kf vok v0 as (contents s1)" by simp
  from Cons.IH [OF 1(2) this] 1 show ?case by auto
qed simp

end

text \<open>
  A table that is never full, because its values are unique and there are fewer values than slots:
  its searches always end.
\<close>

locale roomy_table = insert_once_table cap inv contents kf get remove code add vok
  for cap :: nat and inv :: "'s \<Rightarrow> bool" and contents :: "'s \<Rightarrow> 'c \<Rightarrow> 'v option"
    and kf :: "'k \<Rightarrow> 'c" and get :: "'s \<Rightarrow> 'k \<Rightarrow> 'v \<Rightarrow> (int \<times> 'v) option"
    and remove :: "'s \<Rightarrow> 'k \<Rightarrow> ('r \<times> 's) option" and code :: "'r \<Rightarrow> int"
    and add :: "'s \<Rightarrow> 'k \<Rightarrow> 'v \<Rightarrow> (int \<times> 's) option"
    and vok :: "('c \<Rightarrow> 'v option) \<Rightarrow> 'k \<Rightarrow> 'v \<Rightarrow> bool" +
  assumes never_full: "inv s \<Longrightarrow> card (dom (contents s)) < cap"
begin

lemma get_total: "inv s \<Longrightarrow> get s k v0 = Some (case contents s (kf k) of None \<Rightarrow> (1, v0) | Some v \<Rightarrow> (0, v))"
  by (simp add: get_eq never_full)

lemma adds_ok_admissible:
  "inv s \<Longrightarrow> t_adds_ok cap kf vok v0 as (contents s) \<Longrightarrow> t_admissible_run cap kf vok v0 as (contents s)"
proof (induction as arbitrary: s)
  case (Cons a as)
  then have a: "t_admissible cap kf vok a (contents s)"
    using never_full by (cases a) auto
  from step_refines [OF Cons.prems(1) this, of v0] obtain out s' where
    "inv s'" "t_spec cap kf v0 a (contents s) = (out, contents s')" by blast
  with Cons a show ?case by auto
qed simp

lemmas adds_ok_run_refines = run_refines [OF _ adds_ok_admissible]

end

locale overwrite_table = keyed_table cap inv contents kf get remove code
  for cap :: nat and inv :: "'s \<Rightarrow> bool" and contents :: "'s \<Rightarrow> 'c \<Rightarrow> 'v option"
    and kf :: "'k \<Rightarrow> 'c" and get :: "'s \<Rightarrow> 'k \<Rightarrow> 'v \<Rightarrow> (int \<times> 'v) option"
    and remove :: "'s \<Rightarrow> 'k \<Rightarrow> ('r \<times> 's) option" and code :: "'r \<Rightarrow> int" +
  fixes put :: "'s \<Rightarrow> 'k \<Rightarrow> 'v \<Rightarrow> (int \<times> 's) option"
  assumes put_full: "inv s \<Longrightarrow> card (dom (contents s)) = cap \<Longrightarrow> put s k v = Some (1, s)"
    and put_ok: "inv s \<Longrightarrow> card (dom (contents s)) < cap \<Longrightarrow>
      \<exists>s'. put s k v = Some (0, s') \<and> inv s' \<and> contents s' = (contents s)(kf k \<mapsto> v)"
begin

lemma put_then_get:
  assumes "inv s" "card (dom (contents s)) < cap"
  shows "\<exists>s'. put s k v = Some (0, s') \<and> inv s' \<and> get s' k v0 = Some (0, v) \<and>
    (\<forall>k' w. kf k' \<noteq> kf k \<longrightarrow> contents s (kf k') = Some w \<longrightarrow> get s' k' v0 = Some (0, w))"
  using put_ok [OF assms] get_hit by fastforce

lemma put_twice:
  assumes "inv s" "Suc (card (dom (contents s))) < cap"
  shows "\<exists>s' s''. put s k v = Some (0, s') \<and> put s' k w = Some (0, s'') \<and>
    contents s'' = (contents s)(kf k \<mapsto> w)"
proof -
  from assms put_ok [of s k v] obtain s' where s': "put s k v = Some (0, s')" "inv s'"
    "contents s' = (contents s)(kf k \<mapsto> v)" by auto
  have "card (dom (contents s')) \<le> Suc (card (dom (contents s)))"
    using bounded [OF assms(1)] by (simp add: s'(3) card_insert_if)
  with assms(2) s' put_ok [of s' k w] show ?thesis by auto
qed

end

end
