(* ===== verification/Murmur.thy ===== *)
theory Murmur
  imports Marina_Prelude
begin

text \<open>
  The hash functions of \<^verbatim>\<open>datastructures/hashes/MurmurHash3.c\<close>. Keys are the byte images of the
  structs that the tables hash; the length argument of the C functions is the length of the
  byte list. The hash tables use \<open>MurmurHash3_x86_32\<close> only; the two 128 bit variants are part
  of the file and are modelled with it.
\<close>

section \<open>Mixing functions\<close>

definition rotl32 :: "u32 \<Rightarrow> nat \<Rightarrow> u32" where
  "rotl32 x r = push_bit r x OR drop_bit (32 - r) x"

definition rotl64 :: "u64 \<Rightarrow> nat \<Rightarrow> u64" where
  "rotl64 x r = push_bit r x OR drop_bit (64 - r) x"

definition getblock32 :: "u8 list \<Rightarrow> nat \<Rightarrow> u32" where
  "getblock32 p i = of_le_bytes (take 4 (drop (4 * i) p))"

definition getblock64 :: "u8 list \<Rightarrow> nat \<Rightarrow> u64" where
  "getblock64 p i = of_le_bytes (take 8 (drop (8 * i) p))"

definition fmix32 :: "u32 \<Rightarrow> u32" where
  "fmix32 h = (let
     h = h XOR drop_bit 16 h;
     h = h * 0x85ebca6b;
     h = h XOR drop_bit 13 h;
     h = h * 0xc2b2ae35;
     h = h XOR drop_bit 16 h in h)"

definition fmix64 :: "u64 \<Rightarrow> u64" where
  "fmix64 k = (let
     k = k XOR drop_bit 33 k;
     k = k * 0xff51afd7ed558ccd;
     k = k XOR drop_bit 33 k;
     k = k * 0xc4ceb9fe1a85ec53;
     k = k XOR drop_bit 33 k in k)"

section \<open>The 32 bit hash\<close>

definition mm32_k :: "u32 \<Rightarrow> u32" where
  "mm32_k k1 = (let k1 = k1 * 0xcc9e2d51; k1 = rotl32 k1 15; k1 = k1 * 0x1b873593 in k1)"

definition mm32_block :: "u32 \<Rightarrow> u32 \<Rightarrow> u32" where
  "mm32_block h1 k1 = (let h1 = h1 XOR mm32_k k1; h1 = rotl32 h1 13; h1 = h1 * 5 + 0xe6546b64 in h1)"

text \<open>The fall-through \<open>switch (len & 3)\<close> over the bytes after the last full block.\<close>

definition mm32_tail :: "u32 \<Rightarrow> u8 list \<Rightarrow> u32" where
  "mm32_tail h1 tail = (let
     r = length tail;
     k1 = (if 3 \<le> r then push_bit 16 (ucast (tail ! 2)) else 0);
     k1 = (if 2 \<le> r then k1 XOR push_bit 8 (ucast (tail ! 1)) else k1);
     k1 = (if 1 \<le> r then k1 XOR ucast (tail ! 0) else k1)
     in if 1 \<le> r then h1 XOR mm32_k k1 else h1)"

definition MurmurHash3_x86_32 :: "u8 list \<Rightarrow> u32 \<Rightarrow> u32" where
  "MurmurHash3_x86_32 key seed = (let
     nblocks = length key div 4;
     h1 = fold (\<lambda>i h1. mm32_block h1 (getblock32 key i)) [0..<nblocks] seed;
     h1 = mm32_tail h1 (drop (nblocks * 4) key);
     h1 = h1 XOR of_nat (length key)
     in fmix32 h1)"

section \<open>The 128 bit hashes\<close>

definition tail_byte :: "u8 list \<Rightarrow> nat \<Rightarrow> nat \<Rightarrow> 'a::len word" where
  "tail_byte tail i s = (if i < length tail then push_bit s (ucast (tail ! i)) else 0)"

definition mm128_tail32 :: "u8 list \<Rightarrow> nat \<Rightarrow> u32" where
  "mm128_tail32 tail o0 =
     tail_byte tail (o0 + 3) 24 XOR tail_byte tail (o0 + 2) 16 XOR tail_byte tail (o0 + 1) 8
       XOR tail_byte tail o0 0"

definition mm128_block :: "(u32 \<times> u32 \<times> u32 \<times> u32) \<Rightarrow> u8 list \<Rightarrow> nat \<Rightarrow> (u32 \<times> u32 \<times> u32 \<times> u32)" where
  "mm128_block = (\<lambda>(h1, h2, h3, h4) key i. let
     c1 = 0x239b961b; c2 = 0xab0e9789; c3 = 0x38b34ae5; c4 = 0xa1e38b93;
     k1 = getblock32 key (i * 4 + 0);
     k2 = getblock32 key (i * 4 + 1);
     k3 = getblock32 key (i * 4 + 2);
     k4 = getblock32 key (i * 4 + 3);
     h1 = h1 XOR (rotl32 (k1 * c1) 15 * c2);
     h1 = (rotl32 h1 19 + h2) * 5 + 0x561ccd1b;
     h2 = h2 XOR (rotl32 (k2 * c2) 16 * c3);
     h2 = (rotl32 h2 17 + h3) * 5 + 0x0bcaa747;
     h3 = h3 XOR (rotl32 (k3 * c3) 17 * c4);
     h3 = (rotl32 h3 15 + h4) * 5 + 0x96cd1c35;
     h4 = h4 XOR (rotl32 (k4 * c4) 18 * c1);
     h4 = (rotl32 h4 13 + h1) * 5 + 0x32ac3b17
     in (h1, h2, h3, h4))"

definition MurmurHash3_x86_128 :: "u8 list \<Rightarrow> u32 \<Rightarrow> u32 list" where
  "MurmurHash3_x86_128 key seed = (let
     c1 = 0x239b961b; c2 = 0xab0e9789; c3 = 0x38b34ae5; c4 = 0xa1e38b93;
     nblocks = length key div 16;
     (h1, h2, h3, h4) = fold (\<lambda>i h. mm128_block h key i) [0..<nblocks] (seed, seed, seed, seed);
     tail = drop (nblocks * 16) key;
     h4 = (if 12 < length tail then h4 XOR (rotl32 (mm128_tail32 tail 12 * c4) 18 * c1) else h4);
     h3 = (if 8 < length tail then h3 XOR (rotl32 (mm128_tail32 tail 8 * c3) 17 * c4) else h3);
     h2 = (if 4 < length tail then h2 XOR (rotl32 (mm128_tail32 tail 4 * c2) 16 * c3) else h2);
     h1 = (if 0 < length tail then h1 XOR (rotl32 (mm128_tail32 tail 0 * c1) 15 * c2) else h1);
     len = of_nat (length key);
     h1 = h1 XOR len; h2 = h2 XOR len; h3 = h3 XOR len; h4 = h4 XOR len;
     h1 = h1 + h2; h1 = h1 + h3; h1 = h1 + h4;
     h2 = h2 + h1; h3 = h3 + h1; h4 = h4 + h1;
     h1 = fmix32 h1; h2 = fmix32 h2; h3 = fmix32 h3; h4 = fmix32 h4;
     h1 = h1 + h2; h1 = h1 + h3; h1 = h1 + h4;
     h2 = h2 + h1; h3 = h3 + h1; h4 = h4 + h1
     in [h1, h2, h3, h4])"

definition mm64_tail :: "u8 list \<Rightarrow> nat \<Rightarrow> u64" where
  "mm64_tail tail o0 = fold (\<lambda>j k. k XOR tail_byte tail (o0 + j) (8 * j)) [7, 6, 5, 4, 3, 2, 1, 0] 0"

definition mm64_block :: "(u64 \<times> u64) \<Rightarrow> u8 list \<Rightarrow> nat \<Rightarrow> (u64 \<times> u64)" where
  "mm64_block = (\<lambda>(h1, h2) key i. let
     c1 = 0x87c37b91114253d5; c2 = 0x4cf5ad432745937f;
     k1 = getblock64 key (i * 2 + 0);
     k2 = getblock64 key (i * 2 + 1);
     h1 = h1 XOR (rotl64 (k1 * c1) 31 * c2);
     h1 = (rotl64 h1 27 + h2) * 5 + 0x52dce729;
     h2 = h2 XOR (rotl64 (k2 * c2) 33 * c1);
     h2 = (rotl64 h2 31 + h1) * 5 + 0x38495ab5
     in (h1, h2))"

definition MurmurHash3_x64_128 :: "u8 list \<Rightarrow> u32 \<Rightarrow> u64 list" where
  "MurmurHash3_x64_128 key seed = (let
     c1 = 0x87c37b91114253d5; c2 = 0x4cf5ad432745937f;
     nblocks = length key div 16;
     (h1, h2) = fold (\<lambda>i h. mm64_block h key i) [0..<nblocks] (ucast seed, ucast seed);
     tail = drop (nblocks * 16) key;
     h2 = (if 8 < length tail then h2 XOR (rotl64 (mm64_tail tail 8 * c2) 33 * c1) else h2);
     h1 = (if 0 < length tail then h1 XOR (rotl64 (mm64_tail tail 0 * c1) 31 * c2) else h1);
     len = of_nat (length key);
     h1 = h1 XOR len; h2 = h2 XOR len;
     h1 = h1 + h2; h2 = h2 + h1;
     h1 = fmix64 h1; h2 = fmix64 h2;
     h1 = h1 + h2; h2 = h2 + h1
     in [h1, h2])"

section \<open>Injectivity of the mixing steps\<close>

lemma xorshift_inj:
  fixes x y :: "'a::len word"
  assumes "x XOR drop_bit s x = y XOR drop_bit s y" and "0 < s"
  shows "x = y"
proof (rule bit_word_eqI)
  have step: "bit x n \<noteq> bit x (s + n) \<longleftrightarrow> bit y n \<noteq> bit y (s + n)" for n
    using assms(1) [THEN arg_cong, of "\<lambda>w. bit w n"]
    by (auto simp: bit_xor_iff bit_drop_bit_eq)
  have "bit x n = bit y n" for n
  proof (induction "LENGTH('a) - n" arbitrary: n rule: less_induct)
    case less
    show ?case
    proof (cases "n < LENGTH('a)")
      case True
      with less [of "s + n"] assms(2) step [of n] show ?thesis by auto
    next
      case False
      then show ?thesis using bit_imp_le_length [of x n] bit_imp_le_length [of y n] by auto
    qed
  qed
  then show "bit x n = bit y n" for n .
qed

lemma mult_inj_word:
  fixes x y c d :: "'a::len word"
  assumes "x * c = y * c" and "c * d = 1"
  shows "x = y"
proof -
  have "x * (c * d) = y * (c * d)" using assms(1) by (simp flip: mult.assoc)
  then show ?thesis by (simp add: assms(2))
qed

lemma bit_rotl32:
  "n < 32 \<Longrightarrow> r \<le> 32 \<Longrightarrow>
     bit (rotl32 x r) n = (if r \<le> n then bit x (n - r) else bit x (32 - r + n))"
  using bit_imp_le_length [of x "32 - r + n"] by (auto simp: rotl32_def bit_simps)

lemma rotl32_inj:
  assumes "rotl32 x r = rotl32 y r" and "r \<le> 32"
  shows "x = y"
proof (rule bit_word_eqI)
  fix k assume "k < LENGTH(32)"
  then have k: "k < 32" by simp
  define n where "n = (if k + r < 32 then k + r else k + r - 32)"
  have "bit (rotl32 x r) n = bit (rotl32 y r) n" using assms(1) by simp
  moreover have "n < 32" using k assms(2) by (auto simp: n_def)
  ultimately show "bit x k = bit y k"
    using k assms(2) by (auto simp: bit_rotl32 n_def split: if_splits)
qed

lemma fmix32_inj: "fmix32 x = fmix32 y \<Longrightarrow> x = y"
  unfolding fmix32_def Let_def
  by (drule xorshift_inj, simp, drule mult_inj_word [where d = "0x7ed1b41d"], simp,
      drule xorshift_inj, simp, drule mult_inj_word [where d = "0xa5cb9243"], simp,
      drule xorshift_inj) simp_all

lemma fmix64_inj: "fmix64 x = fmix64 y \<Longrightarrow> x = y"
  unfolding fmix64_def Let_def
  by (drule xorshift_inj, simp, drule mult_inj_word [where d = "0x9cb4b2f8129337db"], simp,
      drule xorshift_inj, simp, drule mult_inj_word [where d = "0x4f74430c22a54005"], simp,
      drule xorshift_inj) simp_all

lemma mm32_k_inj: "mm32_k x = mm32_k y \<Longrightarrow> x = y"
  unfolding mm32_k_def Let_def
  by (drule mult_inj_word [where d = "0x56ed309b"], simp, drule rotl32_inj, simp,
      drule mult_inj_word [where d = "0xdee13bb1"]) simp_all

lemma mm32_block_inj_h: "mm32_block h k = mm32_block h' k \<Longrightarrow> h = h'"
  unfolding mm32_block_def Let_def add_right_cancel
  by (drule mult_inj_word [where d = "0xcccccccd"], simp, drule rotl32_inj) simp_all

lemma mm32_block_inj_k: "mm32_block h k = mm32_block h k' \<Longrightarrow> k = k'"
  unfolding mm32_block_def Let_def add_right_cancel
  by (drule mult_inj_word [where d = "0xcccccccd"], simp, drule rotl32_inj, simp,
      simp add: mm32_k_inj)

lemma mm32_fold_inj_h:
  "fold (\<lambda>i h. mm32_block h (f i)) is h = fold (\<lambda>i h. mm32_block h (f i)) is h' \<Longrightarrow> h = h'"
  by (induction "is" arbitrary: h h') (auto dest: mm32_block_inj_h)

lemma mm32_tail_inj_h: "mm32_tail h t = mm32_tail h' t \<Longrightarrow> h = h'"
  by (simp add: mm32_tail_def Let_def split: if_splits)

lemma mm32_fold_differs:
  assumes "j < n" and "f j \<noteq> g j" and "\<And>i. i < n \<Longrightarrow> i \<noteq> j \<Longrightarrow> f i = g i"
  shows "fold (\<lambda>i h. mm32_block h (f i)) [0..<n] h \<noteq> fold (\<lambda>i h. mm32_block h (g i)) [0..<n] h"
proof
  let ?F = "\<lambda>i h. mm32_block h (f i)" and ?G = "\<lambda>i h. mm32_block h (g i)"
  assume eq: "fold ?F [0..<n] h = fold ?G [0..<n] h"
  have split: "[0..<n] = [0..<j] @ j # [Suc j..<n]"
    using assms(1) upt_add_eq_append [of 0 j "n - j"] upt_conv_Cons [of j n] by simp
  have pre: "fold ?F [0..<j] h = fold ?G [0..<j] h"
    using assms(1,3) by (intro fold_cong) auto
  have post: "fold ?G [Suc j..<n] x = fold ?F [Suc j..<n] x" for x
    using assms(3) by (intro fold_cong) auto
  from eq have "?F j (fold ?F [0..<j] h) = ?G j (fold ?F [0..<j] h)"
    unfolding split by (auto simp: pre post dest: mm32_fold_inj_h)
  then show False using assms(2) by (auto dest: mm32_block_inj_k)
qed

section \<open>Properties\<close>

text \<open>
  The finalisation of \<open>MurmurHash3_x86_32\<close> is a permutation of the 32 bit words: it never
  merges two hash states.
\<close>

theorem fmix32_bij: "bij fmix32"
proof -
  have "inj fmix32" by (rule injI) (rule fmix32_inj)
  then show ?thesis by (simp add: bij_def finite_UNIV_inj_surj)
qed

text \<open>
  Two keys of the same length that differ in exactly one aligned 32 bit word never have
  the same hash, whatever the seed. For the five-tuple keys this means that flows that differ
  in one IPv4 address only, or in their ports only, never collide in the full 32 bit hash.
\<close>

theorem murmur_one_word_no_collision:
  assumes "length key = length key'" and "j < length key div 4"
    and "getblock32 key j \<noteq> getblock32 key' j"
    and "\<And>i. i < length key div 4 \<Longrightarrow> i \<noteq> j \<Longrightarrow> getblock32 key i = getblock32 key' i"
    and "drop (length key div 4 * 4) key = drop (length key div 4 * 4) key'"
  shows "MurmurHash3_x86_32 key seed \<noteq> MurmurHash3_x86_32 key' seed"
proof
  assume "MurmurHash3_x86_32 key seed = MurmurHash3_x86_32 key' seed"
  then have "fold (\<lambda>i h. mm32_block h (getblock32 key i)) [0..<length key div 4] seed
           = fold (\<lambda>i h. mm32_block h (getblock32 key' i)) [0..<length key div 4] seed"
    unfolding MurmurHash3_x86_32_def Let_def using assms(1,5)
    by (auto dest!: fmix32_inj dest: mm32_tail_inj_h)
  then show False
    using mm32_fold_differs [of j _ "getblock32 key" "getblock32 key'"] assms(2-4) by blast
qed

theorem murmur_one_word_no_collision_witness:
  "MurmurHash3_x86_32 [1, 0, 0, 0, 9, 9, 9, 9] 7 \<noteq> MurmurHash3_x86_32 [2, 0, 0, 0, 9, 9, 9, 9] 7"
proof (rule murmur_one_word_no_collision [where j = 0])
  fix i :: nat
  assume "i < length [1 :: u8, 0, 0, 0, 9, 9, 9, 9] div 4" and "i \<noteq> 0"
  then have "i = 1" by simp
  then show "getblock32 [1, 0, 0, 0, 9, 9, 9, 9] i = getblock32 [2, 0, 0, 0, 9, 9, 9, 9] i"
    by (simp add: getblock32_def)
qed (simp_all add: getblock32_def)

end
