(* ===== verification/Flow_Hashtable.thy ===== *)
theory Flow_Hashtable
  imports Index_Map Keyed_Table Murmur
begin

text \<open>
  \<^verbatim>\<open>datastructures/flow_hashtable.c\<close>: the table from five tuples to flow ids, with the reverse map
  from a flow id to the slot of its entry. \<open>SIZE\<close> is \<open>FLOW_HASHTABLE_SIZE\<close> of the configuration;
  \<open>num_entries\<close> is the \<open>size_t\<close> of the code. The spin lock is initialised but never
  taken in the code (the calls are commented out), so it has no counterpart.
\<close>

section \<open>Model\<close>

type_synonym flow_hashtable_entry_t = "(five_tuple_t, int) ht_entry"

record flow_hashtable_t =
  fh_num_entries :: u64
  fh_entries :: "flow_hashtable_entry_t list"
  feature_index_to_entry_map :: "int list"

definition zero_flow_entry :: flow_hashtable_entry_t where
  "zero_flow_entry = \<lparr> e_key = zero_five_tuple, e_value = 0, e_hash = 0, e_occupied = False \<rparr>"

definition flow_hashtable_init :: "config \<Rightarrow> flow_hashtable_t" where
  "flow_hashtable_init cfg =
     \<lparr> fh_num_entries = 0,
       fh_entries = replicate (FLOW_HASHTABLE_SIZE cfg) zero_flow_entry,
       feature_index_to_entry_map = replicate (FEATURE_SIZE cfg) (- 1) \<rparr>"

definition flow_hashtable_hash_key :: "five_tuple_t \<Rightarrow> u32" where
  "flow_hashtable_hash_key key = MurmurHash3_x86_32 (hash_image (ft_h key)) MURMUR_SEED"

definition flow_same_key :: "five_tuple_t \<Rightarrow> five_tuple_t \<Rightarrow> bool" where
  "flow_same_key key k' \<longleftrightarrow> hash_image (ft_h k') = hash_image (ft_h key)"

definition get_hashtable_index ::
  "config \<Rightarrow> flow_hashtable_t \<Rightarrow> five_tuple_t \<Rightarrow> u32 \<Rightarrow> (int \<times> nat) option" where
  "get_hashtable_index cfg t key hash =
     probe (FLOW_HASHTABLE_SIZE cfg) (flow_same_key key) hash (fh_entries t)
       (HASH2INDEX (FLOW_HASHTABLE_SIZE cfg) hash)"

definition flow_hashtable_add ::
  "config \<Rightarrow> flow_hashtable_t \<Rightarrow> five_tuple_t \<Rightarrow> int \<Rightarrow> (int \<times> flow_hashtable_t) option" where
  "flow_hashtable_add cfg t key value =
     (if fh_num_entries t = of_nat (FLOW_HASHTABLE_SIZE cfg) then Some (1, t)
      else do {
        let hash = flow_hashtable_hash_key key;
        (status, index) \<leftarrow> probe (FLOW_HASHTABLE_SIZE cfg) (flow_same_key key) hash (fh_entries t)
                             (HASH2INDEX (FLOW_HASHTABLE_SIZE cfg) hash);
        if status = 0 then Some (1, t)
        else do {
          entries \<leftarrow> aset (fh_entries t) (int index)
            \<lparr> e_key = key, e_value = value, e_hash = hash, e_occupied = True \<rparr>;
          m \<leftarrow> aset (feature_index_to_entry_map t) value (int index);
          Some (0, t\<lparr> fh_entries := entries, feature_index_to_entry_map := m,
                      fh_num_entries := fh_num_entries t + 1 \<rparr>) } })"

definition flow_hashtable_get ::
  "config \<Rightarrow> flow_hashtable_t \<Rightarrow> five_tuple_t \<Rightarrow> int \<Rightarrow> (int \<times> int) option" where
  "flow_hashtable_get cfg t key value =
     do { (ret, index) \<leftarrow> get_hashtable_index cfg t key (flow_hashtable_hash_key key);
          if ret = 0 then do { e \<leftarrow> aget (fh_entries t) (int index); Some (ret, e_value e) }
          else Some (ret, value) }"

definition flow_on_move :: "flow_hashtable_entry_t \<Rightarrow> nat \<Rightarrow> int list \<Rightarrow> int list option" where
  "flow_on_move e empty_index m = aset m (e_value e) (int empty_index)"

definition remove_by_index :: "config \<Rightarrow> flow_hashtable_t \<Rightarrow> int \<Rightarrow> flow_hashtable_t option" where
  "remove_by_index cfg t index =
     do { e \<leftarrow> aget (fh_entries t) index;
          entries \<leftarrow> aset (fh_entries t) index (e\<lparr> e_occupied := False, e_hash := 0 \<rparr>);
          m \<leftarrow> aset (feature_index_to_entry_map t) (e_value e) (- 1);
          (entries, m) \<leftarrow> backshift (FLOW_HASHTABLE_SIZE cfg) flow_on_move entries m
                            (nat index) (nat index);
          Some (t\<lparr> fh_entries := entries, feature_index_to_entry_map := m,
                   fh_num_entries := fh_num_entries t - 1 \<rparr>) }"

definition flow_hashtable_remove ::
  "config \<Rightarrow> flow_hashtable_t \<Rightarrow> five_tuple_t \<Rightarrow> int \<Rightarrow> ((int \<times> int) \<times> flow_hashtable_t) option" where
  "flow_hashtable_remove cfg t key value =
     do { (status, index) \<leftarrow> get_hashtable_index cfg t key (flow_hashtable_hash_key key);
          if status \<noteq> 0 then Some ((status, value), t)
          else do { e \<leftarrow> aget (fh_entries t) (int index);
                    t' \<leftarrow> remove_by_index cfg t (int index);
                    Some ((0, e_value e), t') } }"

definition flow_hashtable_remove_by_value ::
  "config \<Rightarrow> flow_hashtable_t \<Rightarrow> int \<Rightarrow> five_tuple_t \<Rightarrow> ((int \<times> five_tuple_t) \<times> flow_hashtable_t) option" where
  "flow_hashtable_remove_by_value cfg t value key =
     do { index \<leftarrow> aget (feature_index_to_entry_map t) value;
          if index = - 1 then Some ((1, key), t)
          else do { e \<leftarrow> aget (fh_entries t) index;
                    t' \<leftarrow> remove_by_index cfg t index;
                    Some ((0, e_key e), t') } }"

section \<open>Invariant\<close>

definition flow_hash :: "five_tuple_for_hash_t \<Rightarrow> u32" where
  "flow_hash h = MurmurHash3_x86_32 (hash_image h) MURMUR_SEED"

definition flow_table_inv :: "config \<Rightarrow> flow_hashtable_t \<Rightarrow> bool" where
  [inv_defs]: "flow_table_inv cfg t \<longleftrightarrow> cfg_ok cfg \<and>
     table_inv (FLOW_HASHTABLE_SIZE cfg) ft_h flow_hash (fh_entries t) \<and>
     fh_num_entries t = of_nat (size (elems (fh_entries t))) \<and>
     index_map_ok (FEATURE_SIZE cfg) (fh_entries t) (feature_index_to_entry_map t)"

text \<open>The table as a map from five tuples to the stored key and id, and to the id alone.\<close>

definition flow_map :: "flow_hashtable_t \<Rightarrow> five_tuple_for_hash_t \<Rightarrow> int option" where
  "flow_map t h = map_option snd (tmap ft_h (fh_entries t) h)"

definition flow_key_of :: "flow_hashtable_t \<Rightarrow> five_tuple_for_hash_t \<Rightarrow> five_tuple_t option" where
  "flow_key_of t h = map_option fst (tmap ft_h (fh_entries t) h)"

lemma flow_same_key_eq: "flow_same_key key = (\<lambda>k. ft_h k = ft_h key)"
  by (auto simp: flow_same_key_def hash_image_eq_iff)

lemma flow_hash_key_eq: "flow_hashtable_hash_key key = flow_hash (ft_h key)"
  by (simp add: flow_hashtable_hash_key_def flow_hash_def)

lemmas flow_key_simps = flow_same_key_eq flow_hash_key_eq


section \<open>Operations\<close>

lemma flow_table_invD:
  assumes "flow_table_inv cfg t"
  shows "table_inv (FLOW_HASHTABLE_SIZE cfg) ft_h flow_hash (fh_entries t)"
    and "fh_num_entries t = of_nat (size (elems (fh_entries t)))"
    and "index_map_ok (FEATURE_SIZE cfg) (fh_entries t) (feature_index_to_entry_map t)"
    and "length (fh_entries t) = FLOW_HASHTABLE_SIZE cfg" "FLOW_HASHTABLE_SIZE cfg < 2 ^ 31"
    and "keys_ok ft_h flow_hash (elems (fh_entries t))" "cfg_ok cfg"
  using assms by (auto simp: flow_table_inv_def table_inv_def)

lemma flow_map_None: "flow_map t h = None \<longleftrightarrow> tmap ft_h (fh_entries t) h = None"
  by (simp add: flow_map_def)

lemma dom_flow_map: "dom (flow_map t) = dom (tmap ft_h (fh_entries t))"
  by (auto simp: flow_map_def)

lemma card_flow_map:
  "flow_table_inv cfg t \<Longrightarrow>
     finite (dom (flow_map t)) \<and> card (dom (flow_map t)) = size (elems (fh_entries t))"
  using card_dom_tmap [OF flow_table_invD(6)] by (simp add: dom_flow_map)

lemma flow_full_iff:
  "flow_table_inv cfg t \<Longrightarrow>
     fh_num_entries t = of_nat (FLOW_HASHTABLE_SIZE cfg) \<longleftrightarrow>
     card (dom (flow_map t)) = FLOW_HASHTABLE_SIZE cfg"
  using flow_table_invD [of cfg t] card_flow_map [of cfg t] size_elems_le [of "fh_entries t"]
  by (simp add: num_entries_eq_iff)

lemma flow_init_inv:
  assumes "cfg_ok cfg"
  shows "flow_table_inv cfg (flow_hashtable_init cfg)" "flow_map (flow_hashtable_init cfg) = Map.empty"
proof -
  have sz: "0 < FLOW_HASHTABLE_SIZE cfg" "FLOW_HASHTABLE_SIZE cfg < 2 ^ 31" "\<not> e_occupied zero_flow_entry"
    using assms by (auto simp: cfg_ok_def FLOW_HASHTABLE_SIZE_def NUM_PIPES_def zero_flow_entry_def)
  note init = table_inv_init [OF sz]
  have "index_map_ok (FEATURE_SIZE cfg) (replicate (FLOW_HASHTABLE_SIZE cfg) zero_flow_entry)
      (replicate (FEATURE_SIZE cfg) (- 1))"
    using sz(3) by (auto simp: index_map_ok_def entries_mapped_def slots_mapped_def)
  with init assms show "flow_table_inv cfg (flow_hashtable_init cfg)"
    by (simp add: flow_table_inv_def flow_hashtable_init_def)
  from init(3) show "flow_map (flow_hashtable_init cfg) = Map.empty"
    by (simp add: fun_eq_iff flow_map_def flow_hashtable_init_def)
qed

lemma flow_index_hit:
  assumes "flow_table_inv cfg t" "flow_map t (ft_h key) = Some v"
  shows "\<exists>i < FLOW_HASHTABLE_SIZE cfg. get_hashtable_index cfg t key (flow_hashtable_hash_key key) = Some (0, i) \<and>
    occ (fh_entries t) i \<and> e_value (fh_entries t ! i) = v \<and> ft_h (e_key (fh_entries t ! i)) = ft_h key"
proof -
  from assms(2) obtain k where "tmap ft_h (fh_entries t) (ft_h key) = Some (k, v)" by (auto simp: flow_map_def)
  from table_probe_hit [OF flow_table_invD(1) [OF assms(1)] this] show ?thesis
    by (auto simp: get_hashtable_index_def flow_key_simps)
qed

lemma flow_index_miss:
  assumes "flow_table_inv cfg t" "flow_map t (ft_h key) = None" "card (dom (flow_map t)) < FLOW_HASHTABLE_SIZE cfg"
  shows "\<exists>i < FLOW_HASHTABLE_SIZE cfg. get_hashtable_index cfg t key (flow_hashtable_hash_key key) = Some (1, i) \<and>
    \<not> occ (fh_entries t) i \<and>
    (\<forall>j < FLOW_HASHTABLE_SIZE cfg. cdist (FLOW_HASHTABLE_SIZE cfg) (HASH2INDEX (FLOW_HASHTABLE_SIZE cfg) (flow_hash (ft_h key))) j
       < cdist (FLOW_HASHTABLE_SIZE cfg) (HASH2INDEX (FLOW_HASHTABLE_SIZE cfg) (flow_hash (ft_h key))) i \<longrightarrow>
       occ (fh_entries t) j)"
  using table_probe_miss [OF flow_table_invD(1) [OF assms(1)], of "ft_h key"] assms card_flow_map [OF assms(1)]
  by (simp add: get_hashtable_index_def flow_key_simps flow_map_None)

lemma flow_get_hit:
  "flow_table_inv cfg t \<Longrightarrow> flow_map t (ft_h key) = Some v \<Longrightarrow> flow_hashtable_get cfg t key v0 = Some (0, v)"
  using flow_index_hit [of cfg t key v] flow_table_invD(4) [of cfg t]
  by (auto simp: flow_hashtable_get_def)

lemma flow_get_miss:
  "flow_table_inv cfg t \<Longrightarrow> flow_map t (ft_h key) = None \<Longrightarrow>
     card (dom (flow_map t)) < FLOW_HASHTABLE_SIZE cfg \<Longrightarrow> flow_hashtable_get cfg t key v0 = Some (1, v0)"
  using flow_index_miss [of cfg t key] by (auto simp: flow_hashtable_get_def)

text \<open>An id is free in the table when it is in range and no entry carries it.\<close>

definition flow_id_free :: "config \<Rightarrow> (five_tuple_for_hash_t \<Rightarrow> int option) \<Rightarrow> int \<Rightarrow> bool" where
  "flow_id_free cfg m v \<longleftrightarrow> 0 \<le> v \<and> v < int (FEATURE_SIZE cfg) \<and> v \<notin> ran m"

lemma flow_map_entry:
  assumes "flow_table_inv cfg t" "i < FLOW_HASHTABLE_SIZE cfg" "occ (fh_entries t) i"
  shows "flow_map t (ft_h (e_key (fh_entries t ! i))) = Some (e_value (fh_entries t ! i))"
    and "flow_key_of t (ft_h (e_key (fh_entries t ! i))) = Some (e_key (fh_entries t ! i))"
proof -
  have "fh_entries t ! i \<in># elems (fh_entries t)"
    using elems_mem [of i "fh_entries t"] flow_table_invD(4) [OF assms(1)] assms by simp
  then have "tmap ft_h (fh_entries t) (ft_h (e_key (fh_entries t ! i))) =
      Some (e_key (fh_entries t ! i), e_value (fh_entries t ! i))"
    using tmap_Some_iff [OF flow_table_invD(6) [OF assms(1)]] by blast
  then show "flow_map t (ft_h (e_key (fh_entries t ! i))) = Some (e_value (fh_entries t ! i))"
    "flow_key_of t (ft_h (e_key (fh_entries t ! i))) = Some (e_key (fh_entries t ! i))"
    by (simp_all add: flow_map_def flow_key_of_def)
qed

lemma flow_map_Some_entry:
  assumes "flow_table_inv cfg t" "flow_map t h = Some v"
  shows "\<exists>i < FLOW_HASHTABLE_SIZE cfg. occ (fh_entries t) i \<and> e_value (fh_entries t ! i) = v \<and>
    ft_h (e_key (fh_entries t ! i)) = h"
proof -
  from assms(2) obtain k where "tmap ft_h (fh_entries t) h = Some (k, v)" by (auto simp: flow_map_def)
  then have "\<exists>e \<in># elems (fh_entries t). ft_h (e_key e) = h \<and> e_key e = k \<and> e_value e = v"
    using tmap_Some_iff [OF flow_table_invD(6) [OF assms(1)]] by blast
  then show ?thesis using flow_table_invD(4) [OF assms(1)] by (metis in_elems)
qed

text \<open>The reverse map holds an id exactly when some five tuple is mapped to it.\<close>

lemma flow_index_map_free:
  assumes "flow_table_inv cfg t" "flow_id_free cfg (flow_map t) v"
  shows "feature_index_to_entry_map t ! nat v = - 1"
proof (rule ccontr)
  assume "feature_index_to_entry_map t ! nat v \<noteq> - 1"
  with assms(2) index_map_okD(3) [OF flow_table_invD(3) [OF assms(1)], of "nat v"] obtain i where
    "i < length (fh_entries t)" "occ (fh_entries t) i" "e_value (fh_entries t ! i) = v"
    by (auto simp: flow_id_free_def nat_less_iff)
  with flow_map_entry(1) [OF assms(1), of i] flow_table_invD(4) [OF assms(1)] have "v \<in> ran (flow_map t)"
    by (auto simp: ran_def)
  with assms(2) show False by (simp add: flow_id_free_def)
qed

lemma flow_add_new:
  assumes "flow_table_inv cfg t" "card (dom (flow_map t)) < FLOW_HASHTABLE_SIZE cfg"
    and "flow_map t (ft_h key) = None" "flow_id_free cfg (flow_map t) v"
  shows "\<exists>t'. flow_hashtable_add cfg t key v = Some (0, t') \<and> flow_table_inv cfg t' \<and>
    flow_map t' = (flow_map t)(ft_h key \<mapsto> v) \<and> flow_key_of t' = (flow_key_of t)(ft_h key \<mapsto> key)"
proof -
  note D = flow_table_invD [OF assms(1)]
  from flow_index_miss [OF assms(1,3,2)] obtain i where
    i: "i < FLOW_HASHTABLE_SIZE cfg" "get_hashtable_index cfg t key (flow_hashtable_hash_key key) = Some (1, i)"
      "\<not> occ (fh_entries t) i" and path: "\<forall>j < FLOW_HASHTABLE_SIZE cfg.
        cdist (FLOW_HASHTABLE_SIZE cfg) (HASH2INDEX (FLOW_HASHTABLE_SIZE cfg) (flow_hash (ft_h key))) j
         < cdist (FLOW_HASHTABLE_SIZE cfg) (HASH2INDEX (FLOW_HASHTABLE_SIZE cfg) (flow_hash (ft_h key))) i \<longrightarrow>
        occ (fh_entries t) j" by blast
  define e where "e = \<lparr> e_key = key, e_value = v, e_hash = flow_hash (ft_h key), e_occupied = True \<rparr>"
  define t' where "t' = t\<lparr> fh_entries := (fh_entries t)[i := e],
    feature_index_to_entry_map := (feature_index_to_entry_map t)[nat v := int i],
    fh_num_entries := fh_num_entries t + 1 \<rparr>"
  have e: "e_occupied e" "e_hash e = flow_hash (ft_h (e_key e))" "e_key e = key" "e_value e = v"
    by (simp_all add: e_def)
  have v: "0 \<le> v" "nat v < FEATURE_SIZE cfg" using assms(4) by (auto simp: flow_id_free_def)
  have new: "tmap ft_h (fh_entries t) (ft_h (e_key e)) = None" using assms(3) e by (simp add: flow_map_None)
  have path': "\<forall>j < FLOW_HASHTABLE_SIZE cfg. cdist (FLOW_HASHTABLE_SIZE cfg) (HASH2INDEX (FLOW_HASHTABLE_SIZE cfg) (e_hash e)) j
      < cdist (FLOW_HASHTABLE_SIZE cfg) (HASH2INDEX (FLOW_HASHTABLE_SIZE cfg) (e_hash e)) i \<longrightarrow> occ (fh_entries t) j"
    using path e by simp
  note ins = table_insert [OF D(1) new i(1,3) e(1,2) path']
  have "index_map_ok (FEATURE_SIZE cfg) ((fh_entries t)[i := e]) ((feature_index_to_entry_map t)[nat v := int i])"
    using i D(4) v e flow_index_map_free [OF assms(1,4)] by (intro index_map_insert [OF D(3)]) auto
  with ins D(2,7) have "flow_table_inv cfg t'" by (simp add: flow_table_inv_def t'_def)
  moreover have "flow_map t' = (flow_map t)(ft_h key \<mapsto> v)" "flow_key_of t' = (flow_key_of t)(ft_h key \<mapsto> key)"
    using ins(2) e by (auto simp: t'_def flow_map_def flow_key_of_def fun_eq_iff)
  moreover have "flow_hashtable_add cfg t key v = Some (0, t')"
    using i(1,2) D(4) v index_map_okD(1) [OF D(3)] assms(2) flow_full_iff [OF assms(1)]
    by (simp add: flow_hashtable_add_def get_hashtable_index_def Let_def flow_key_simps aset_def t'_def e_def)
  ultimately show ?thesis by blast
qed

lemma flow_add_full:
  "flow_table_inv cfg t \<Longrightarrow> card (dom (flow_map t)) = FLOW_HASHTABLE_SIZE cfg \<Longrightarrow>
     flow_hashtable_add cfg t key v = Some (1, t)"
  by (simp add: flow_hashtable_add_def flow_full_iff)

lemma flow_add_present:
  "flow_table_inv cfg t \<Longrightarrow> flow_map t (ft_h key) = Some w \<Longrightarrow> flow_hashtable_add cfg t key v = Some (1, t)"
  using flow_index_hit [of cfg t key w]
  by (auto simp: flow_hashtable_add_def get_hashtable_index_def)

lemma flow_on_move_ok:
  assumes "length es = sz" "n < sz" "E < sz" "occ es n" "\<not> occ es E" "index_map_ok F es m"
  shows "\<exists>m'. flow_on_move (es ! n) E m = Some m' \<and>
    index_map_ok F (es[n := (es ! n)\<lparr>e_occupied := False\<rparr>, E := (es ! n)\<lparr>e_occupied := True\<rparr>]) m'"
proof -
  have n: "n < length es" "E < length es" using assms by auto
  have "flow_on_move (es ! n) E m = Some (m[nat (e_value (es ! n)) := int E])"
    using index_map_okD(2) [OF assms(6) n(1) assms(4)] index_map_okD(1) [OF assms(6)]
    by (auto simp: flow_on_move_def aset_def)
  with index_map_move [OF assms(6) n(1) assms(4) n(2) assms(5)] show ?thesis by blast
qed

lemma flow_remove_by_index_ok:
  assumes "flow_table_inv cfg t" "i < FLOW_HASHTABLE_SIZE cfg" "occ (fh_entries t) i"
  shows "\<exists>t'. remove_by_index cfg t (int i) = Some t' \<and> flow_table_inv cfg t' \<and>
    flow_map t' = (flow_map t)(ft_h (e_key (fh_entries t ! i)) := None) \<and>
    flow_key_of t' = (flow_key_of t)(ft_h (e_key (fh_entries t ! i)) := None)"
proof -
  note D = flow_table_invD [OF assms(1)]
  let ?e0 = "(fh_entries t ! i)\<lparr> e_occupied := False, e_hash := 0 \<rparr>"
  let ?v = "e_value (fh_entries t ! i)"
  let ?m0 = "(feature_index_to_entry_map t)[nat ?v := - 1]"
  have e0: "\<not> e_occupied ?e0" by simp
  have i: "i < length (fh_entries t)" using assms(2) D(4) by simp
  note v = index_map_okD(2) [OF D(3) i assms(3)]
  have "\<exists>es' m'. backshift (FLOW_HASHTABLE_SIZE cfg) flow_on_move ((fh_entries t)[i := ?e0]) ?m0 i i = Some (es', m') \<and>
      table_inv (FLOW_HASHTABLE_SIZE cfg) ft_h flow_hash es' \<and>
      tmap ft_h es' = (tmap ft_h (fh_entries t))(ft_h (e_key (fh_entries t ! i)) := None) \<and>
      Suc (size (elems es')) = size (elems (fh_entries t)) \<and> index_map_ok (FEATURE_SIZE cfg) es' m'"
    by (rule table_remove [where J = "index_map_ok (FEATURE_SIZE cfg)",
          OF D(1) assms(2,3) e0 index_map_clear [OF D(3) i assms(3) e0]])
      (rule flow_on_move_ok)
  then obtain es' m' where r:
    "backshift (FLOW_HASHTABLE_SIZE cfg) flow_on_move ((fh_entries t)[i := ?e0]) ?m0 i i = Some (es', m')"
    "table_inv (FLOW_HASHTABLE_SIZE cfg) ft_h flow_hash es'"
    "tmap ft_h es' = (tmap ft_h (fh_entries t))(ft_h (e_key (fh_entries t ! i)) := None)"
    "Suc (size (elems es')) = size (elems (fh_entries t))" "index_map_ok (FEATURE_SIZE cfg) es' m'" by blast
  define t' where "t' = t\<lparr> fh_entries := es', feature_index_to_entry_map := m',
    fh_num_entries := fh_num_entries t - 1 \<rparr>"
  have "fh_num_entries t' = of_nat (size (elems es'))"
    using D(2) r(4) [symmetric] by (simp add: t'_def)
  with r D(7) have "flow_table_inv cfg t'" by (simp add: flow_table_inv_def t'_def)
  moreover have "remove_by_index cfg t (int i) = Some t'"
    using r(1) i v index_map_okD(1) [OF D(3)] by (auto simp: remove_by_index_def aset_def t'_def)
  moreover have "flow_map t' = (flow_map t)(ft_h (e_key (fh_entries t ! i)) := None)"
    "flow_key_of t' = (flow_key_of t)(ft_h (e_key (fh_entries t ! i)) := None)"
    using r(3) by (auto simp: t'_def flow_map_def flow_key_of_def)
  ultimately show ?thesis by blast
qed

lemma flow_remove_hit:
  assumes "flow_table_inv cfg t" "flow_map t (ft_h key) = Some v"
  shows "\<exists>t'. flow_hashtable_remove cfg t key v0 = Some ((0, v), t') \<and> flow_table_inv cfg t' \<and>
    flow_map t' = (flow_map t)(ft_h key := None) \<and> flow_key_of t' = (flow_key_of t)(ft_h key := None)"
proof -
  from flow_index_hit [OF assms] obtain i where i: "i < FLOW_HASHTABLE_SIZE cfg"
    "get_hashtable_index cfg t key (flow_hashtable_hash_key key) = Some (0, i)"
    "occ (fh_entries t) i" "e_value (fh_entries t ! i) = v" "ft_h (e_key (fh_entries t ! i)) = ft_h key" by blast
  with flow_remove_by_index_ok [OF assms(1) i(1,3)] flow_table_invD(4) [OF assms(1)] show ?thesis
    by (auto simp: flow_hashtable_remove_def)
qed

lemma flow_remove_miss:
  "flow_table_inv cfg t \<Longrightarrow> flow_map t (ft_h key) = None \<Longrightarrow> card (dom (flow_map t)) < FLOW_HASHTABLE_SIZE cfg \<Longrightarrow>
     flow_hashtable_remove cfg t key v0 = Some ((1, v0), t)"
  using flow_index_miss [of cfg t key] by (auto simp: flow_hashtable_remove_def)

lemma flow_remove_by_value_hit:
  assumes "flow_table_inv cfg t" "flow_map t h = Some v"
  shows "\<exists>t' k. flow_hashtable_remove_by_value cfg t v key0 = Some ((0, k), t') \<and>
    flow_key_of t h = Some k \<and> ft_h k = h \<and> flow_table_inv cfg t' \<and>
    flow_map t' = (flow_map t)(h := None) \<and> flow_key_of t' = (flow_key_of t)(h := None)"
proof -
  note D = flow_table_invD [OF assms(1)]
  from flow_map_Some_entry [OF assms] obtain i where i: "i < FLOW_HASHTABLE_SIZE cfg"
    "occ (fh_entries t) i" "e_value (fh_entries t ! i) = v" "ft_h (e_key (fh_entries t ! i)) = h" by blast
  have m: "aget (feature_index_to_entry_map t) v = Some (int i)"
    using index_map_okD(2) [OF D(3), of i] index_map_okD(1) [OF D(3)] i D(4)
    by (auto simp: aget_def)
  from flow_remove_by_index_ok [OF assms(1) i(1,2)] flow_map_entry(2) [OF assms(1) i(1,2)] i D(4) m
  show ?thesis by (auto simp: flow_hashtable_remove_by_value_def)
qed

lemma flow_remove_by_value_miss:
  assumes "flow_table_inv cfg t" "flow_id_free cfg (flow_map t) v"
  shows "flow_hashtable_remove_by_value cfg t v key0 = Some ((1, key0), t)"
proof -
  have "aget (feature_index_to_entry_map t) v = Some (- 1)"
    using flow_index_map_free [OF assms] assms(2) index_map_okD(1) [OF flow_table_invD(3) [OF assms(1)]]
    by (simp add: aget_def flow_id_free_def)
  then show ?thesis by (simp add: flow_hashtable_remove_by_value_def)
qed

section \<open>The table contract\<close>

text \<open>Ids are unique and there are fewer ids than slots, so the table is never full.\<close>

lemma flow_map_inj:
  assumes "flow_table_inv cfg t" "flow_map t h = Some v" "flow_map t h' = Some v"
  shows "h = h'"
  using flow_map_Some_entry [OF assms(1,2)] flow_map_Some_entry [OF assms(1,3)]
    index_map_ok_values [OF flow_table_invD(3) [OF assms(1)]] flow_table_invD(4) [OF assms(1)]
  by metis

lemma flow_map_range:
  assumes "flow_table_inv cfg t" "flow_map t h = Some v"
  shows "0 \<le> v" "v < int (FEATURE_SIZE cfg)"
  using flow_map_Some_entry [OF assms] index_map_okD(2) [OF flow_table_invD(3) [OF assms(1)]]
    flow_table_invD(4) [OF assms(1)] by fastforce+

lemma flow_table_never_full:
  assumes "flow_table_inv cfg t"
  shows "card (dom (flow_map t)) < FLOW_HASHTABLE_SIZE cfg"
proof -
  note assms = flow_table_invD(7) [OF assms] assms
  have "card (dom (flow_map t)) \<le> card {..<FEATURE_SIZE cfg}"
  proof (rule card_inj_on_le [of "\<lambda>h. nat (the (flow_map t h))"])
    show "inj_on (\<lambda>h. nat (the (flow_map t h))) (dom (flow_map t))"
      using flow_map_inj [OF assms(2)] flow_map_range(1) [OF assms(2)]
      by (intro inj_onI) (auto simp: nat_eq_iff2)
    show "(\<lambda>h. nat (the (flow_map t h))) ` dom (flow_map t) \<subseteq> {..<FEATURE_SIZE cfg}"
      using flow_map_range [OF assms(2)] by (auto simp: nat_less_iff)
  qed simp
  moreover have "FEATURE_SIZE cfg < FLOW_HASHTABLE_SIZE cfg"
    using assms(1) by (simp add: cfg_ok_def FEATURE_SIZE_def FLOW_HASHTABLE_SIZE_def NUM_PIPES_def)
  ultimately show ?thesis by simp
qed

interpretation flow: roomy_table "FLOW_HASHTABLE_SIZE cfg" "flow_table_inv cfg" flow_map ft_h
  "flow_hashtable_get cfg" "\<lambda>t key. flow_hashtable_remove cfg t key 0" fst
  "flow_hashtable_add cfg" "\<lambda>m k. flow_id_free cfg m" for cfg
proof unfold_locales
  fix t assume "flow_table_inv cfg t"
  then show "finite (dom (flow_map t)) \<and> card (dom (flow_map t)) \<le> FLOW_HASHTABLE_SIZE cfg"
    using card_flow_map [of cfg t] size_elems_le [of "fh_entries t"] flow_table_invD(4) [of cfg t] by simp
next
  fix t and key :: five_tuple_t and v assume "flow_table_inv cfg t" "flow_map t (ft_h key) = Some v"
  from flow_remove_hit [OF this] show "\<exists>r s'. flow_hashtable_remove cfg t key 0 = Some (r, s') \<and>
    fst r = 0 \<and> flow_table_inv cfg s' \<and> flow_map s' = (flow_map t)(ft_h key := None)" by fastforce
next
  fix t and key :: five_tuple_t and v
  assume "flow_table_inv cfg t" "card (dom (flow_map t)) < FLOW_HASHTABLE_SIZE cfg"
    "flow_map t (ft_h key) = None" "flow_id_free cfg (flow_map t) v"
  from flow_add_new [OF this] show "\<exists>s'. flow_hashtable_add cfg t key v = Some (0, s') \<and>
    flow_table_inv cfg s' \<and> flow_map s' = (flow_map t)(ft_h key \<mapsto> v)" by blast
qed (simp_all add: flow_get_hit flow_get_miss flow_remove_miss flow_add_full flow_add_present
  flow_table_never_full)

section \<open>Properties\<close>

text \<open>
  C10. The flow table implements a finite map from five tuples to flow ids: every sequence of
  add, get and remove calls on a freshly initialised table returns (no search loop runs forever,
  no array is left), gives the status codes and values the map gives, and ends in a table whose
  contents are that map. The caller has to add only ids that are in range and not in use.
\<close>

theorem flow_table_refines_map:
  assumes "cfg_ok cfg"
    and "t_adds_ok (FLOW_HASHTABLE_SIZE cfg) ft_h (\<lambda>m k. flow_id_free cfg m) v0 ops Map.empty"
  shows "\<exists>outs t'. t_run (flow_hashtable_add cfg) (flow_hashtable_get cfg)
        (\<lambda>t key. flow_hashtable_remove cfg t key 0) fst v0 ops (flow_hashtable_init cfg) = Some (outs, t') \<and>
      flow_table_inv cfg t' \<and>
      t_spec_run (FLOW_HASHTABLE_SIZE cfg) ft_h v0 ops Map.empty = (outs, flow_map t')"
  using flow.adds_ok_run_refines [of cfg "flow_hashtable_init cfg" v0 ops] assms
  by (auto simp: flow_init_inv)

definition example_ops :: "(five_tuple_t, int) t_op list" where
  "example_ops = [T_Add (example_key 1) 5, T_Add (example_key 2) 6, T_Add (example_key 1) 7,
     T_Remove (example_key 1), T_Get (example_key 1), T_Get (example_key 2)]"

theorem flow_table_refines_map_witness:
  "\<exists>outs t'. t_run (flow_hashtable_add small_config) (flow_hashtable_get small_config)
        (\<lambda>t key. flow_hashtable_remove small_config t key 0) fst 0
        example_ops (flow_hashtable_init small_config) = Some (outs, t') \<and>
      outs = [Out_Status 0, Out_Status 0, Out_Status 1, Out_Status 0, Out_Value 1 0, Out_Value 0 6]"
proof -
  have adds: "t_adds_ok (FLOW_HASHTABLE_SIZE small_config) ft_h (\<lambda>m k. flow_id_free small_config m) 0 example_ops Map.empty"
    by (auto simp: example_ops_def flow_id_free_def ran_def split: if_splits)
  have "fst (t_spec_run (FLOW_HASHTABLE_SIZE small_config) ft_h 0 example_ops Map.empty) =
      [Out_Status 0, Out_Status 0, Out_Status 1, Out_Status 0, Out_Value 1 0, Out_Value 0 6]"
    by (simp add: example_ops_def)
  with flow_table_refines_map [OF cfg_ok_small adds] show ?thesis by fastforce
qed

text \<open>
  Removal by flow id, which the time-out path uses, is removal of the five tuple that holds the
  id: it returns the stored key, and afterwards this five tuple and no other is gone, while the
  reverse map and the table invariant stay exact. An id that no flow holds gives status 1 and
  leaves the table as it is.
\<close>

theorem flow_remove_by_value_correct:
  assumes "flow_table_inv cfg t" "0 \<le> v" "v < int (FEATURE_SIZE cfg)"
  shows "(\<forall>h. flow_map t h = Some v \<longrightarrow>
      (\<exists>t' k. flow_hashtable_remove_by_value cfg t v key0 = Some ((0, k), t') \<and> ft_h k = h \<and>
        flow_key_of t h = Some k \<and> flow_table_inv cfg t' \<and> flow_map t' = (flow_map t)(h := None))) \<and>
    (v \<notin> ran (flow_map t) \<longrightarrow> flow_hashtable_remove_by_value cfg t v key0 = Some ((1, key0), t))"
  using flow_remove_by_value_hit [OF assms(1)] flow_remove_by_value_miss [OF assms(1), of v] assms(2,3)
  by (fastforce simp: flow_id_free_def)

theorem flow_remove_by_value_correct_witness:
  "\<exists>t. flow_table_inv small_config t \<and> flow_map t (ft_h (example_key 1)) = Some 5 \<and>
    (\<exists>t' k. flow_hashtable_remove_by_value small_config t 5 zero_five_tuple = Some ((0, k), t') \<and>
      ft_h k = ft_h (example_key 1) \<and> flow_map t' (ft_h (example_key 1)) = None)"
proof -
  note init = flow_init_inv [OF cfg_ok_small]
  from flow_add_new [OF init(1), of "example_key 1" 5] obtain t where
    t: "flow_table_inv small_config t" "flow_map t (ft_h (example_key 1)) = Some 5"
    by (auto simp: init(2) flow_id_free_def)
  with flow_remove_by_value_correct [OF t(1), of 5 zero_five_tuple] show ?thesis by fastforce
qed

end
