(* ===== verification/Session_Hashtable.thy ===== *)
theory Session_Hashtable
  imports Index_Map Keyed_Table Murmur
begin

text \<open>
  \<^verbatim>\<open>datastructures/session_hashtable.c\<close>: the table from sessions to session ids. A session is a client
  and a direction when \<open>use_sessions()\<close> holds, and a five tuple otherwise; the flag is the
  argument \<open>us\<close> of the definitions. Beside the reverse map the table keeps, for the registers
  that live on the egress pipe, the map from the egress index to the session id, and the number of
  flows per session. \<open>session_hashtable_init\<close> does not touch \<open>flow_count\<close>. The counts are \<open>int32_t\<close> in the code and integers here: their wrap-around,
  after \<open>2^31\<close> removals in a row of one session id, is not modelled.
\<close>

section \<open>Model\<close>

type_synonym session_hashtable_entry_t = "(five_tuple_t, int) ht_entry"

type_synonym session_key_t = "five_tuple_for_session_hash_t + five_tuple_for_hash_t"

record session_hashtable_t =
  sh_num_entries :: u64
  sh_entries :: "session_hashtable_entry_t list"
  session_feature_index_to_entry_map :: "int list"
  egress_feature_to_session_id :: "int list"
  flow_count :: "int list"

definition zero_session_entry :: session_hashtable_entry_t where
  "zero_session_entry = \<lparr> e_key = zero_five_tuple, e_value = 0, e_hash = 0, e_occupied = False \<rparr>"

definition session_hashtable_init :: "config \<Rightarrow> session_hashtable_t \<Rightarrow> session_hashtable_t" where
  "session_hashtable_init cfg t = t
     \<lparr> sh_num_entries := 0,
       sh_entries := replicate (FLOW_HASHTABLE_SIZE cfg) zero_session_entry,
       session_feature_index_to_entry_map := replicate (FEATURE_SIZE cfg) (- 1),
       egress_feature_to_session_id := replicate (FEATURE_SIZE cfg) (- 1) \<rparr>"

definition session_hashtable_hash_key :: "bool \<Rightarrow> five_tuple_t \<Rightarrow> u32" where
  "session_hashtable_hash_key us key =
     (if us then MurmurHash3_x86_32 (session_image (ft_sh key)) MURMUR_SEED
      else MurmurHash3_x86_32 (hash_image (ft_h key)) MURMUR_SEED)"

text \<open>True when \<open>compare_five_tuples\<close> returns 0.\<close>

definition compare_five_tuples :: "bool \<Rightarrow> five_tuple_t \<Rightarrow> five_tuple_t \<Rightarrow> bool" where
  "compare_five_tuples us key2 key1 \<longleftrightarrow>
     (if us then session_image (ft_sh key1) = session_image (ft_sh key2)
      else hash_image (ft_h key1) = hash_image (ft_h key2))"

definition session_get_hashtable_index ::
  "config \<Rightarrow> bool \<Rightarrow> session_hashtable_t \<Rightarrow> five_tuple_t \<Rightarrow> u32 \<Rightarrow> (int \<times> nat) option" where
  "session_get_hashtable_index cfg us t key hash =
     probe (FLOW_HASHTABLE_SIZE cfg) (compare_five_tuples us key) hash (sh_entries t)
       (HASH2INDEX (FLOW_HASHTABLE_SIZE cfg) hash)"

definition session_hashtable_add_or_increase_flow_count ::
  "config \<Rightarrow> bool \<Rightarrow> session_hashtable_t \<Rightarrow> five_tuple_t \<Rightarrow> int \<Rightarrow> (int \<times> session_hashtable_t) option" where
  "session_hashtable_add_or_increase_flow_count cfg us t key value =
     (if sh_num_entries t = of_nat (FLOW_HASHTABLE_SIZE cfg) then Some (1, t)
      else do {
        let hash = session_hashtable_hash_key us key;
        (status, index) \<leftarrow> probe (FLOW_HASHTABLE_SIZE cfg) (compare_five_tuples us key) hash
                             (sh_entries t) (HASH2INDEX (FLOW_HASHTABLE_SIZE cfg) hash);
        if status = 0 then
          if us then do {
            n \<leftarrow> aget (flow_count t) value;
            fc \<leftarrow> aset (flow_count t) value (n + 1);
            Some (1, t\<lparr> flow_count := fc \<rparr>) }
          else Some (1, t)
        else do {
          entries \<leftarrow> aset (sh_entries t) (int index)
            \<lparr> e_key = key, e_value = value, e_hash = hash, e_occupied = True \<rparr>;
          m \<leftarrow> aset (session_feature_index_to_entry_map t) value (int index);
          g \<leftarrow> aset (egress_feature_to_session_id t) (value + session_id_egress_offset key) value;
          Some (0, t\<lparr> sh_entries := entries, session_feature_index_to_entry_map := m,
                      egress_feature_to_session_id := g, sh_num_entries := sh_num_entries t + 1 \<rparr>) } })"

definition session_hashtable_get ::
  "config \<Rightarrow> bool \<Rightarrow> session_hashtable_t \<Rightarrow> five_tuple_t \<Rightarrow> int \<Rightarrow> (int \<times> int) option" where
  "session_hashtable_get cfg us t key value =
     do { (ret, index) \<leftarrow> session_get_hashtable_index cfg us t key (session_hashtable_hash_key us key);
          if ret = 0 then do { e \<leftarrow> aget (sh_entries t) (int index); Some (ret, e_value e) }
          else Some (ret, value) }"

definition session_on_move ::
  "session_hashtable_entry_t \<Rightarrow> nat \<Rightarrow> int list \<times> int list \<Rightarrow> (int list \<times> int list) option" where
  "session_on_move e empty_index x =
     do { g \<leftarrow> aset (snd x) (e_value e + session_id_egress_offset (e_key e)) (e_value e);
          m \<leftarrow> aset (fst x) (e_value e) (int empty_index);
          Some (m, g) }"

definition session_hashtable_remove_by_index ::
  "config \<Rightarrow> session_hashtable_t \<Rightarrow> int \<Rightarrow> session_hashtable_t option" where
  "session_hashtable_remove_by_index cfg t index =
     do { e \<leftarrow> aget (sh_entries t) index;
          entries \<leftarrow> aset (sh_entries t) index (e\<lparr> e_occupied := False, e_hash := 0 \<rparr>);
          g \<leftarrow> aset (egress_feature_to_session_id t) (e_value e + session_id_egress_offset (e_key e)) (- 1);
          m \<leftarrow> aset (session_feature_index_to_entry_map t) (e_value e) (- 1);
          (entries, m, g) \<leftarrow> backshift (FLOW_HASHTABLE_SIZE cfg) session_on_move entries (m, g)
                               (nat index) (nat index);
          Some (t\<lparr> sh_entries := entries, session_feature_index_to_entry_map := m,
                   egress_feature_to_session_id := g, sh_num_entries := sh_num_entries t - 1 \<rparr>) }"

text \<open>The part of \<open>session_hashtable_remove_or_decrease_flow_count\<close> after the flow count.\<close>

definition session_remove_entry ::
  "config \<Rightarrow> bool \<Rightarrow> session_hashtable_t \<Rightarrow> five_tuple_t \<Rightarrow> int \<Rightarrow> ((int \<times> int) \<times> session_hashtable_t) option" where
  "session_remove_entry cfg us t key value =
     do { (status, index) \<leftarrow> session_get_hashtable_index cfg us t key (session_hashtable_hash_key us key);
          if status \<noteq> 0 then Some ((status, value), t)
          else do { e \<leftarrow> aget (sh_entries t) (int index);
                    t' \<leftarrow> session_hashtable_remove_by_index cfg t (int index);
                    Some ((0, e_value e), t') } }"

definition session_hashtable_remove_or_decrease_flow_count ::
  "config \<Rightarrow> bool \<Rightarrow> session_hashtable_t \<Rightarrow> five_tuple_t \<Rightarrow> int \<Rightarrow> ((int \<times> int) \<times> session_hashtable_t) option" where
  "session_hashtable_remove_or_decrease_flow_count cfg us t key value =
     do { (t, n) \<leftarrow> (if us then do {
            n \<leftarrow> aget (flow_count t) value;
            fc \<leftarrow> aset (flow_count t) value (n - 1);
            Some (t\<lparr> flow_count := fc \<rparr>, n - 1) } else Some (t, 0));
          if us \<and> n \<noteq> 0 then Some ((1, value), t)
          else session_remove_entry cfg us t key value }"

definition session_hashtable_remove_or_decrease_flow_count_by_value ::
  "config \<Rightarrow> bool \<Rightarrow> session_hashtable_t \<Rightarrow> int \<Rightarrow> five_tuple_t \<Rightarrow>
   ((int \<times> five_tuple_t) \<times> session_hashtable_t) option" where
  "session_hashtable_remove_or_decrease_flow_count_by_value cfg us t value key =
     do { (t, n) \<leftarrow> (if us then do {
            n \<leftarrow> aget (flow_count t) value;
            fc \<leftarrow> aset (flow_count t) value (n - 1);
            Some (t\<lparr> flow_count := fc \<rparr>, n - 1) } else Some (t, 0));
          if us \<and> n \<noteq> 0 then Some ((1, key), t)
          else do {
            index \<leftarrow> aget (session_feature_index_to_entry_map t) value;
            if index = - 1 then Some ((1, key), t)
            else do { e \<leftarrow> aget (sh_entries t) index;
                      t' \<leftarrow> session_hashtable_remove_by_index cfg t index;
                      Some ((0, e_key e), t') } } }"

definition session_hashtable_copy :: "session_hashtable_t \<Rightarrow> session_hashtable_t \<Rightarrow> session_hashtable_t" where
  "session_hashtable_copy dest t = t"

section \<open>Invariant\<close>

definition session_key :: "bool \<Rightarrow> five_tuple_t \<Rightarrow> session_key_t" where
  "session_key us k = (if us then Inl (ft_sh k) else Inr (ft_h k))"

definition session_hash :: "session_key_t \<Rightarrow> u32" where
  "session_hash c = (case c of Inl s \<Rightarrow> MurmurHash3_x86_32 (session_image s) MURMUR_SEED
     | Inr h \<Rightarrow> MurmurHash3_x86_32 (hash_image h) MURMUR_SEED)"

text \<open>The egress index of every stored session is a valid register index.\<close>

definition egress_ok :: "nat \<Rightarrow> session_hashtable_entry_t list \<Rightarrow> int list \<Rightarrow> bool" where
  [inv_defs]: "egress_ok F es g \<longleftrightarrow> length g = F \<and>
     (\<forall>e \<in># elems es. 0 \<le> e_value e + session_id_egress_offset (e_key e) \<and>
        e_value e + session_id_egress_offset (e_key e) < int F)"

definition session_maps_ok :: "nat \<Rightarrow> session_hashtable_entry_t list \<Rightarrow> int list \<times> int list \<Rightarrow> bool" where
  [inv_defs]: "session_maps_ok F es x \<longleftrightarrow> index_map_ok F es (fst x) \<and> egress_ok F es (snd x)"

definition session_table_inv :: "config \<Rightarrow> bool \<Rightarrow> session_hashtable_t \<Rightarrow> bool" where
  [inv_defs]: "session_table_inv cfg us t \<longleftrightarrow> cfg_ok cfg \<and>
     table_inv (FLOW_HASHTABLE_SIZE cfg) (session_key us) session_hash (sh_entries t) \<and>
     sh_num_entries t = of_nat (size (elems (sh_entries t))) \<and>
     session_maps_ok (FEATURE_SIZE cfg) (sh_entries t)
       (session_feature_index_to_entry_map t, egress_feature_to_session_id t) \<and>
     length (flow_count t) = FEATURE_SIZE cfg"

definition session_map :: "bool \<Rightarrow> session_hashtable_t \<Rightarrow> session_key_t \<Rightarrow> int option" where
  "session_map us t c = map_option snd (tmap (session_key us) (sh_entries t) c)"

definition session_key_of :: "bool \<Rightarrow> session_hashtable_t \<Rightarrow> session_key_t \<Rightarrow> five_tuple_t option" where
  "session_key_of us t c = map_option fst (tmap (session_key us) (sh_entries t) c)"

definition session_id_free ::
  "config \<Rightarrow> (session_key_t \<Rightarrow> int option) \<Rightarrow> five_tuple_t \<Rightarrow> int \<Rightarrow> bool" where
  "session_id_free cfg m key v \<longleftrightarrow> 0 \<le> v \<and> v < int (FEATURE_SIZE cfg) \<and> v \<notin> ran m \<and>
     0 \<le> v + session_id_egress_offset key \<and> v + session_id_egress_offset key < int (FEATURE_SIZE cfg)"

lemma session_key_simps:
  "compare_five_tuples us key = (\<lambda>k. session_key us k = session_key us key)"
  "session_hashtable_hash_key us key = session_hash (session_key us key)"
  by (auto simp: compare_five_tuples_def session_key_def session_image_eq_iff hash_image_eq_iff
      session_hashtable_hash_key_def session_hash_def)

lemma session_table_invD:
  assumes "session_table_inv cfg us t"
  shows "table_inv (FLOW_HASHTABLE_SIZE cfg) (session_key us) session_hash (sh_entries t)"
    and "sh_num_entries t = of_nat (size (elems (sh_entries t)))"
    and "index_map_ok (FEATURE_SIZE cfg) (sh_entries t) (session_feature_index_to_entry_map t)"
    and "egress_ok (FEATURE_SIZE cfg) (sh_entries t) (egress_feature_to_session_id t)"
    and "length (sh_entries t) = FLOW_HASHTABLE_SIZE cfg" "FLOW_HASHTABLE_SIZE cfg < 2 ^ 31"
    and "keys_ok (session_key us) session_hash (elems (sh_entries t))" "cfg_ok cfg"
    and "length (flow_count t) = FEATURE_SIZE cfg"
  using assms by (auto simp: session_table_inv_def session_maps_ok_def table_inv_def)

lemma session_map_None: "session_map us t c = None \<longleftrightarrow> tmap (session_key us) (sh_entries t) c = None"
  by (simp add: session_map_def)

lemma card_session_map:
  assumes "session_table_inv cfg us t"
  shows "finite (dom (session_map us t)) \<and> card (dom (session_map us t)) = size (elems (sh_entries t))"
proof -
  have "dom (session_map us t) = dom (tmap (session_key us) (sh_entries t))" by (auto simp: session_map_def)
  then show ?thesis using card_dom_tmap [OF session_table_invD(7) [OF assms]] by simp
qed

lemma session_full_iff:
  "session_table_inv cfg us t \<Longrightarrow>
     sh_num_entries t = of_nat (FLOW_HASHTABLE_SIZE cfg) \<longleftrightarrow>
     card (dom (session_map us t)) = FLOW_HASHTABLE_SIZE cfg"
  using session_table_invD [of cfg us t] card_session_map [of cfg us t] size_elems_le [of "sh_entries t"]
  by (simp add: num_entries_eq_iff)

lemma session_init_inv:
  assumes "cfg_ok cfg" "length (flow_count t) = FEATURE_SIZE cfg"
  shows "session_table_inv cfg us (session_hashtable_init cfg t)"
    "session_map us (session_hashtable_init cfg t) = Map.empty"
proof -
  have sz: "0 < FLOW_HASHTABLE_SIZE cfg" "FLOW_HASHTABLE_SIZE cfg < 2 ^ 31" "\<not> e_occupied zero_session_entry"
    using assms by (auto simp: cfg_ok_def FLOW_HASHTABLE_SIZE_def NUM_PIPES_def zero_session_entry_def)
  note init = table_inv_init [OF sz]
  have "session_maps_ok (FEATURE_SIZE cfg) (replicate (FLOW_HASHTABLE_SIZE cfg) zero_session_entry)
      (replicate (FEATURE_SIZE cfg) (- 1), replicate (FEATURE_SIZE cfg) (- 1))"
    using sz(3) init(2)
    by (auto simp: session_maps_ok_def index_map_ok_def entries_mapped_def slots_mapped_def egress_ok_def)
  with init assms show "session_table_inv cfg us (session_hashtable_init cfg t)"
    by (simp add: session_table_inv_def session_hashtable_init_def)
  from init(3) show "session_map us (session_hashtable_init cfg t) = Map.empty"
    by (simp add: fun_eq_iff session_map_def session_hashtable_init_def)
qed

section \<open>Operations\<close>

lemma session_index_hit:
  assumes "session_table_inv cfg us t" "session_map us t (session_key us key) = Some v"
  shows "\<exists>i < FLOW_HASHTABLE_SIZE cfg.
    session_get_hashtable_index cfg us t key (session_hashtable_hash_key us key) = Some (0, i) \<and>
    occ (sh_entries t) i \<and> e_value (sh_entries t ! i) = v \<and>
    session_key us (e_key (sh_entries t ! i)) = session_key us key"
proof -
  from assms(2) obtain k where "tmap (session_key us) (sh_entries t) (session_key us key) = Some (k, v)"
    by (auto simp: session_map_def)
  from table_probe_hit [OF session_table_invD(1) [OF assms(1)] this] show ?thesis
    by (auto simp: session_get_hashtable_index_def session_key_simps)
qed

lemma session_index_miss:
  assumes "session_table_inv cfg us t" "session_map us t (session_key us key) = None"
    "card (dom (session_map us t)) < FLOW_HASHTABLE_SIZE cfg"
  shows "\<exists>i < FLOW_HASHTABLE_SIZE cfg.
    session_get_hashtable_index cfg us t key (session_hashtable_hash_key us key) = Some (1, i) \<and>
    \<not> occ (sh_entries t) i \<and>
    (\<forall>j < FLOW_HASHTABLE_SIZE cfg.
       cdist (FLOW_HASHTABLE_SIZE cfg) (HASH2INDEX (FLOW_HASHTABLE_SIZE cfg) (session_hash (session_key us key))) j
       < cdist (FLOW_HASHTABLE_SIZE cfg) (HASH2INDEX (FLOW_HASHTABLE_SIZE cfg) (session_hash (session_key us key))) i \<longrightarrow>
       occ (sh_entries t) j)"
  using table_probe_miss [OF session_table_invD(1) [OF assms(1)], of "session_key us key"] assms
    card_session_map [OF assms(1)]
  by (simp add: session_get_hashtable_index_def session_key_simps session_map_None)

lemma session_get_hit:
  "session_table_inv cfg us t \<Longrightarrow> session_map us t (session_key us key) = Some v \<Longrightarrow>
     session_hashtable_get cfg us t key v0 = Some (0, v)"
  using session_index_hit [of cfg us t key v] session_table_invD(5) [of cfg us t]
  by (auto simp: session_hashtable_get_def)

lemma session_get_miss:
  "session_table_inv cfg us t \<Longrightarrow> session_map us t (session_key us key) = None \<Longrightarrow>
     card (dom (session_map us t)) < FLOW_HASHTABLE_SIZE cfg \<Longrightarrow> session_hashtable_get cfg us t key v0 = Some (1, v0)"
  using session_index_miss [of cfg us t key] by (auto simp: session_hashtable_get_def)

lemma session_map_entry:
  assumes "session_table_inv cfg us t" "i < FLOW_HASHTABLE_SIZE cfg" "occ (sh_entries t) i"
  shows "session_map us t (session_key us (e_key (sh_entries t ! i))) = Some (e_value (sh_entries t ! i))"
    and "session_key_of us t (session_key us (e_key (sh_entries t ! i))) = Some (e_key (sh_entries t ! i))"
proof -
  have "sh_entries t ! i \<in># elems (sh_entries t)"
    using elems_mem [of i "sh_entries t"] session_table_invD(5) [OF assms(1)] assms by simp
  then have "tmap (session_key us) (sh_entries t) (session_key us (e_key (sh_entries t ! i))) =
      Some (e_key (sh_entries t ! i), e_value (sh_entries t ! i))"
    using tmap_Some_iff [OF session_table_invD(7) [OF assms(1)]] by blast
  then show "session_map us t (session_key us (e_key (sh_entries t ! i))) = Some (e_value (sh_entries t ! i))"
    "session_key_of us t (session_key us (e_key (sh_entries t ! i))) = Some (e_key (sh_entries t ! i))"
    by (simp_all add: session_map_def session_key_of_def)
qed

lemma session_map_Some_entry:
  assumes "session_table_inv cfg us t" "session_map us t c = Some v"
  shows "\<exists>i < FLOW_HASHTABLE_SIZE cfg. occ (sh_entries t) i \<and> e_value (sh_entries t ! i) = v \<and>
    session_key us (e_key (sh_entries t ! i)) = c"
proof -
  from assms(2) obtain k where "tmap (session_key us) (sh_entries t) c = Some (k, v)" by (auto simp: session_map_def)
  then have "\<exists>e \<in># elems (sh_entries t). session_key us (e_key e) = c \<and> e_key e = k \<and> e_value e = v"
    using tmap_Some_iff [OF session_table_invD(7) [OF assms(1)]] by blast
  then show ?thesis using session_table_invD(5) [OF assms(1)] by (metis in_elems)
qed

lemma session_index_map_free:
  assumes "session_table_inv cfg us t" "session_id_free cfg (session_map us t) key v"
  shows "session_feature_index_to_entry_map t ! nat v = - 1"
proof (rule ccontr)
  assume "session_feature_index_to_entry_map t ! nat v \<noteq> - 1"
  with assms(2) index_map_okD(3) [OF session_table_invD(3) [OF assms(1)], of "nat v"] obtain i where
    "i < length (sh_entries t)" "occ (sh_entries t) i" "e_value (sh_entries t ! i) = v"
    by (auto simp: session_id_free_def nat_less_iff)
  with session_map_entry(1) [OF assms(1), of i] session_table_invD(5) [OF assms(1)]
  have "v \<in> ran (session_map us t)" by (auto simp: ran_def)
  with assms(2) show False by (simp add: session_id_free_def)
qed

text \<open>What a new session does to the table, beside the map.\<close>

lemma session_add_new:
  assumes "session_table_inv cfg us t" "card (dom (session_map us t)) < FLOW_HASHTABLE_SIZE cfg"
    and "session_map us t (session_key us key) = None" "session_id_free cfg (session_map us t) key v"
  shows "\<exists>t'. session_hashtable_add_or_increase_flow_count cfg us t key v = Some (0, t') \<and>
    session_table_inv cfg us t' \<and> session_map us t' = (session_map us t)(session_key us key \<mapsto> v) \<and>
    session_key_of us t' = (session_key_of us t)(session_key us key \<mapsto> key) \<and>
    egress_feature_to_session_id t' =
      (egress_feature_to_session_id t)[nat (v + session_id_egress_offset key) := v] \<and>
    flow_count t' = flow_count t \<and>
    (\<exists>e. elems (sh_entries t') = add_mset e (elems (sh_entries t)) \<and> e_key e = key \<and> e_value e = v)"
proof -
  note D = session_table_invD [OF assms(1)]
  let ?sz = "FLOW_HASHTABLE_SIZE cfg"
  define e where "e = \<lparr> e_key = key, e_value = v, e_hash = session_hash (session_key us key), e_occupied = True \<rparr>"
  have e: "e_occupied e" "e_hash e = session_hash (session_key us (e_key e))" "e_key e = key" "e_value e = v"
    by (simp_all add: e_def)
  from session_index_miss [OF assms(1,3,2)] e obtain i where
    i: "i < ?sz" "session_get_hashtable_index cfg us t key (session_hashtable_hash_key us key) = Some (1, i)"
      "\<not> occ (sh_entries t) i" and path: "\<forall>j < ?sz. cdist ?sz (HASH2INDEX ?sz (e_hash e)) j
         < cdist ?sz (HASH2INDEX ?sz (e_hash e)) i \<longrightarrow> occ (sh_entries t) j" by auto
  define t' where "t' = t\<lparr> sh_entries := (sh_entries t)[i := e],
    session_feature_index_to_entry_map := (session_feature_index_to_entry_map t)[nat v := int i],
    egress_feature_to_session_id := (egress_feature_to_session_id t)[nat (v + session_id_egress_offset key) := v],
    sh_num_entries := sh_num_entries t + 1 \<rparr>"
  have v: "0 \<le> v" "nat v < FEATURE_SIZE cfg" "0 \<le> v + session_id_egress_offset key"
    "v + session_id_egress_offset key < int (FEATURE_SIZE cfg)" using assms(4) by (auto simp: session_id_free_def)
  have new: "tmap (session_key us) (sh_entries t) (session_key us (e_key e)) = None"
    using assms(3) e by (simp add: session_map_None)
  note ins = table_insert [OF D(1) new i(1,3) e(1,2) path]
  have "index_map_ok (FEATURE_SIZE cfg) ((sh_entries t)[i := e]) ((session_feature_index_to_entry_map t)[nat v := int i])"
    using i D(5) v e session_index_map_free [OF assms(1,4)] by (intro index_map_insert [OF D(3)]) auto
  moreover have "egress_ok (FEATURE_SIZE cfg) ((sh_entries t)[i := e])
      ((egress_feature_to_session_id t)[nat (v + session_id_egress_offset key) := v])"
    using D(4,5) i e v by (simp add: egress_ok_def elems_update)
  ultimately have "session_table_inv cfg us t'"
    using ins D(2,8,9) by (simp add: session_table_inv_def session_maps_ok_def t'_def)
  moreover have "session_map us t' = (session_map us t)(session_key us key \<mapsto> v)"
    "session_key_of us t' = (session_key_of us t)(session_key us key \<mapsto> key)"
    using ins(2) e by (auto simp: t'_def session_map_def session_key_of_def fun_eq_iff)
  moreover have "session_hashtable_add_or_increase_flow_count cfg us t key v = Some (0, t')"
    using i(1,2) D(4,5) v index_map_okD(1) [OF D(3)] assms(2) session_full_iff [OF assms(1)]
    by (simp add: session_hashtable_add_or_increase_flow_count_def session_get_hashtable_index_def Let_def
        session_key_simps aset_def t'_def e_def egress_ok_def)
  moreover have "elems (sh_entries t') = add_mset e (elems (sh_entries t))"
    using i D(5) e by (simp add: t'_def elems_update)
  ultimately show ?thesis using e by (intro exI [of _ t']) (auto simp: t'_def)
qed

lemma session_add_full:
  "session_table_inv cfg us t \<Longrightarrow> card (dom (session_map us t)) = FLOW_HASHTABLE_SIZE cfg \<Longrightarrow>
     session_hashtable_add_or_increase_flow_count cfg us t key v = Some (1, t)"
  by (simp add: session_hashtable_add_or_increase_flow_count_def session_full_iff)

lemma session_inv_flow_count [simp]:
  "length fc = FEATURE_SIZE cfg \<Longrightarrow> session_table_inv cfg us t \<Longrightarrow>
     session_table_inv cfg us (t\<lparr> flow_count := fc \<rparr>)"
  by (simp add: session_table_inv_def)

lemma session_map_flow_count [simp]: "session_map us (t\<lparr> flow_count := fc \<rparr>) = session_map us t"
  by (simp add: session_map_def fun_eq_iff)

lemma session_get_flow_count [simp]:
  "session_hashtable_get cfg us (t\<lparr> flow_count := fc \<rparr>) key v = session_hashtable_get cfg us t key v"
  by (simp add: session_hashtable_get_def session_get_hashtable_index_def cong del: if_weak_cong)

lemma session_add_present:
  assumes "session_table_inv cfg us t" "card (dom (session_map us t)) < FLOW_HASHTABLE_SIZE cfg"
    and "session_map us t (session_key us key) = Some w" "0 \<le> v" "v < int (FEATURE_SIZE cfg)"
  shows "session_hashtable_add_or_increase_flow_count cfg us t key v =
    Some (1, if us then t\<lparr> flow_count := (flow_count t)[nat v := flow_count t ! nat v + 1] \<rparr> else t)"
  using session_index_hit [OF assms(1,3)] session_full_iff [OF assms(1)] assms(2,4,5)
    session_table_invD(9) [OF assms(1)]
  by (auto simp: session_hashtable_add_or_increase_flow_count_def session_get_hashtable_index_def aget_def aset_def)

text \<open>
  The egress map is exact when the egress index of every stored session leads back to its id.
  Moves write the value that is there already; a removal cannot hit the index of another session.
\<close>

definition egress_exact :: "session_hashtable_entry_t list \<Rightarrow> int list \<Rightarrow> bool" where
  [inv_defs]: "egress_exact es g \<longleftrightarrow>
     (\<forall>e \<in># elems es. g ! nat (e_value e + session_id_egress_offset (e_key e)) = e_value e)"

abbreviation session_J :: "bool \<Rightarrow> nat \<Rightarrow> session_hashtable_entry_t list \<Rightarrow> int list \<times> int list \<Rightarrow> bool" where
  "session_J ex F es x \<equiv> session_maps_ok F es x \<and> (ex \<longrightarrow> egress_exact es (snd x))"

lemma session_on_move_ok:
  assumes "length es = sz" "n < sz" "E < sz" "occ es n" "\<not> occ es E" "session_J ex F es x"
  shows "\<exists>x'. session_on_move (es ! n) E x = Some x' \<and>
    session_J ex F (es[n := (es ! n)\<lparr>e_occupied := False\<rparr>, E := (es ! n)\<lparr>e_occupied := True\<rparr>]) x'"
proof -
  obtain m g where x: "x = (m, g)" by (cases x)
  let ?e = "es ! n" and ?es' = "es[n := (es ! n)\<lparr>e_occupied := False\<rparr>, E := (es ! n)\<lparr>e_occupied := True\<rparr>]"
  let ?j = "e_value ?e + session_id_egress_offset (e_key ?e)"
  have n: "n < length es" "E < length es" using assms by auto
  from assms(6) x have ok: "index_map_ok F es m" "egress_ok F es g" "ex \<Longrightarrow> egress_exact es g"
    by (auto simp: session_maps_ok_def)
  have mem: "?e \<in># elems es" using elems_mem n assms(4) by blast
  have el: "elems ?es' = elems es" using elems_move n assms(4,5) by blast
  have j: "0 \<le> ?j" "?j < int F" "length g = F" using ok(2) mem by (auto simp: egress_ok_def)
  have "session_on_move ?e E x = Some (m[nat (e_value ?e) := int E], g[nat ?j := e_value ?e])"
    using index_map_okD(2) [OF ok(1) n(1) assms(4)] index_map_okD(1) [OF ok(1)] j x
    by (auto simp: session_on_move_def aset_def)
  moreover have "index_map_ok F ?es' (m[nat (e_value ?e) := int E])"
    using index_map_move [OF ok(1) n(1) assms(4) n(2) assms(5)] .
  moreover have "egress_ok F ?es' (g[nat ?j := e_value ?e])" using ok(2) by (simp add: egress_ok_def el)
  moreover have "egress_exact ?es' (g[nat ?j := e_value ?e])" if "ex"
  proof -
    have "g ! nat ?j = e_value ?e" using ok(3) [OF that] mem by (simp add: egress_exact_def)
    then have "g[nat ?j := e_value ?e] = g" by (metis list_update_id)
    with ok(3) [OF that] show ?thesis by (simp add: egress_exact_def el)
  qed
  ultimately show ?thesis by (simp add: session_maps_ok_def)
qed

lemma egress_exact_clear:
  assumes ok: "index_map_ok F es m" "egress_ok F es g" "egress_exact es g"
    and k: "k < length es" "occ es k" and e0: "\<not> e_occupied e0"
  shows "egress_exact (es[k := e0]) (g[nat (e_value (es ! k) + session_id_egress_offset (e_key (es ! k))) := - 1])"
  unfolding egress_exact_def ball_elems
proof (intro allI impI)
  fix i
  let ?j = "\<lambda>i. e_value (es ! i) + session_id_egress_offset (e_key (es ! i))"
  assume i: "i < length (es[k := e0])" "occ (es[k := e0]) i"
  then have "i \<noteq> k" using e0 k by auto
  with i have i': "i < length es" "occ es i" "es[k := e0] ! i = es ! i" by auto
  have mem: "es ! i \<in># elems es" "es ! k \<in># elems es" using elems_mem i' k by blast+
  with ok(3) have g: "g ! nat (?j i) = e_value (es ! i)" "g ! nat (?j k) = e_value (es ! k)"
    by (simp_all add: egress_exact_def)
  have "nat (?j i) \<noteq> nat (?j k)"
    using g index_map_ok_values [OF ok(1) i'(1) k(1) i'(2) k(2)] \<open>i \<noteq> k\<close> by metis
  then show "g[nat (?j k) := - 1] ! nat (e_value (es[k := e0] ! i) +
      session_id_egress_offset (e_key (es[k := e0] ! i))) = e_value (es[k := e0] ! i)"
    using g(1) i'(3) by simp
qed

lemma session_remove_by_index_ok:
  assumes "session_table_inv cfg us t" "i < FLOW_HASHTABLE_SIZE cfg" "occ (sh_entries t) i"
    and ex: "ex \<Longrightarrow> egress_exact (sh_entries t) (egress_feature_to_session_id t)"
  shows "\<exists>t'. session_hashtable_remove_by_index cfg t (int i) = Some t' \<and> session_table_inv cfg us t' \<and>
    session_map us t' = (session_map us t)(session_key us (e_key (sh_entries t ! i)) := None) \<and>
    session_key_of us t' = (session_key_of us t)(session_key us (e_key (sh_entries t ! i)) := None) \<and>
    (ex \<longrightarrow> egress_exact (sh_entries t') (egress_feature_to_session_id t')) \<and> flow_count t' = flow_count t"
proof -
  note D = session_table_invD [OF assms(1)]
  let ?e = "sh_entries t ! i" and ?sz = "FLOW_HASHTABLE_SIZE cfg"
  let ?z = "?e\<lparr> e_occupied := False, e_hash := 0 \<rparr>"
  let ?j = "e_value ?e + session_id_egress_offset (e_key ?e)"
  let ?m0 = "(session_feature_index_to_entry_map t)[nat (e_value ?e) := - 1]"
  let ?g0 = "(egress_feature_to_session_id t)[nat ?j := - 1]"
  have e0: "\<not> e_occupied ?z" by simp
  have i: "i < length (sh_entries t)" using assms(2) D(5) by simp
  note v = index_map_okD(2) [OF D(3) i assms(3)]
  have j: "0 \<le> ?j" "?j < int (FEATURE_SIZE cfg)" "length (egress_feature_to_session_id t) = FEATURE_SIZE cfg"
    using D(4) elems_mem [OF i assms(3)] by (auto simp: egress_ok_def)
  have "egress_ok (FEATURE_SIZE cfg) ((sh_entries t)[i := ?z]) ?g0"
    using D(4) i assms(3) by (auto simp: egress_ok_def elems_update dest: in_diffD)
  then have J: "session_J ex (FEATURE_SIZE cfg) ((sh_entries t)[i := ?z]) (?m0, ?g0)"
    using index_map_clear [OF D(3) i assms(3) e0] egress_exact_clear [OF D(3,4) ex i assms(3) e0]
    by (simp add: session_maps_ok_def)
  have "\<exists>es' x'. backshift ?sz session_on_move ((sh_entries t)[i := ?z]) (?m0, ?g0) i i = Some (es', x') \<and>
      table_inv ?sz (session_key us) session_hash es' \<and>
      tmap (session_key us) es' = (tmap (session_key us) (sh_entries t))(session_key us (e_key ?e) := None) \<and>
      Suc (size (elems es')) = size (elems (sh_entries t)) \<and> session_J ex (FEATURE_SIZE cfg) es' x'"
    by (rule table_remove [where J = "session_J ex (FEATURE_SIZE cfg)", OF D(1) assms(2,3) e0 J])
      (rule session_on_move_ok)
  then obtain es' m' g' where r:
    "backshift ?sz session_on_move ((sh_entries t)[i := ?z]) (?m0, ?g0) i i = Some (es', m', g')"
    "table_inv ?sz (session_key us) session_hash es'"
    "tmap (session_key us) es' = (tmap (session_key us) (sh_entries t))(session_key us (e_key ?e) := None)"
    "Suc (size (elems es')) = size (elems (sh_entries t))" "session_J ex (FEATURE_SIZE cfg) es' (m', g')" by auto
  define t' where "t' = t\<lparr> sh_entries := es', session_feature_index_to_entry_map := m',
    egress_feature_to_session_id := g', sh_num_entries := sh_num_entries t - 1 \<rparr>"
  have "session_table_inv cfg us t'"
    using D(2,8,9) r(2,5) r(4) [symmetric] by (simp add: session_table_inv_def t'_def)
  moreover have "session_hashtable_remove_by_index cfg t (int i) = Some t'"
    using r(1) i v j index_map_okD(1) [OF D(3)]
    by (auto simp: session_hashtable_remove_by_index_def aset_def t'_def)
  moreover have "session_map us t' = (session_map us t)(session_key us (e_key ?e) := None)"
    "session_key_of us t' = (session_key_of us t)(session_key us (e_key ?e) := None)"
    using r(3) by (auto simp: t'_def session_map_def session_key_of_def)
  moreover have "flow_count t' = flow_count t" "ex \<longrightarrow> egress_exact (sh_entries t') (egress_feature_to_session_id t')"
    using r(5) by (simp_all add: t'_def)
  ultimately show ?thesis by blast
qed

text \<open>Without sessions, removal is the removal of a five tuple.\<close>

lemma session_remove_hit:
  assumes "session_table_inv cfg False t" "session_map False t (session_key False key) = Some v"
  shows "\<exists>t'. session_hashtable_remove_or_decrease_flow_count cfg False t key v0 = Some ((0, v), t') \<and>
    session_table_inv cfg False t' \<and> session_map False t' = (session_map False t)(session_key False key := None) \<and>
    session_key_of False t' = (session_key_of False t)(session_key False key := None)"
proof -
  from session_index_hit [OF assms] obtain i where i: "i < FLOW_HASHTABLE_SIZE cfg"
    "session_get_hashtable_index cfg False t key (session_hashtable_hash_key False key) = Some (0, i)"
    "occ (sh_entries t) i" "e_value (sh_entries t ! i) = v"
    "session_key False (e_key (sh_entries t ! i)) = session_key False key" by blast
  with session_remove_by_index_ok [OF assms(1) i(1,3), of False] session_table_invD(5) [OF assms(1)] show ?thesis
    by (auto simp: session_hashtable_remove_or_decrease_flow_count_def session_remove_entry_def)
qed

lemma session_remove_miss:
  "session_table_inv cfg False t \<Longrightarrow> session_map False t (session_key False key) = None \<Longrightarrow>
     card (dom (session_map False t)) < FLOW_HASHTABLE_SIZE cfg \<Longrightarrow>
     session_hashtable_remove_or_decrease_flow_count cfg False t key v0 = Some ((1, v0), t)"
  using session_index_miss [of cfg False t key] by (auto simp: session_hashtable_remove_or_decrease_flow_count_def session_remove_entry_def)

lemma session_map_inj:
  assumes "session_table_inv cfg us t" "session_map us t c = Some v" "session_map us t c' = Some v"
  shows "c = c'"
  using session_map_Some_entry [OF assms(1,2)] session_map_Some_entry [OF assms(1,3)]
    index_map_ok_values [OF session_table_invD(3) [OF assms(1)]] session_table_invD(5) [OF assms(1)]
  by metis

lemma session_map_range:
  assumes "session_table_inv cfg us t" "session_map us t c = Some v"
  shows "0 \<le> v" "v < int (FEATURE_SIZE cfg)"
  using session_map_Some_entry [OF assms] index_map_okD(2) [OF session_table_invD(3) [OF assms(1)]]
    session_table_invD(5) [OF assms(1)] by fastforce+

lemma session_table_never_full:
  assumes "session_table_inv cfg us t"
  shows "card (dom (session_map us t)) < FLOW_HASHTABLE_SIZE cfg"
proof -
  have "card (dom (session_map us t)) \<le> card {..<FEATURE_SIZE cfg}"
  proof (rule card_inj_on_le [of "\<lambda>h. nat (the (session_map us t h))"])
    show "inj_on (\<lambda>h. nat (the (session_map us t h))) (dom (session_map us t))"
      using session_map_inj [OF assms] session_map_range(1) [OF assms]
      by (intro inj_onI) (auto simp: nat_eq_iff2)
    show "(\<lambda>h. nat (the (session_map us t h))) ` dom (session_map us t) \<subseteq> {..<FEATURE_SIZE cfg}"
      using session_map_range [OF assms] by (auto simp: nat_less_iff)
  qed simp
  moreover have "FEATURE_SIZE cfg < FLOW_HASHTABLE_SIZE cfg"
    using session_table_invD(8) [OF assms] by (simp add: cfg_ok_def FEATURE_SIZE_def FLOW_HASHTABLE_SIZE_def NUM_PIPES_def)
  ultimately show ?thesis by simp
qed

section \<open>The table contract\<close>

interpretation session: roomy_table "FLOW_HASHTABLE_SIZE cfg" "session_table_inv cfg False" "session_map False"
  "session_key False" "session_hashtable_get cfg False"
  "\<lambda>t key. session_hashtable_remove_or_decrease_flow_count cfg False t key 0" fst
  "session_hashtable_add_or_increase_flow_count cfg False" "session_id_free cfg" for cfg
proof unfold_locales
  fix t assume "session_table_inv cfg False t"
  then show "finite (dom (session_map False t)) \<and> card (dom (session_map False t)) \<le> FLOW_HASHTABLE_SIZE cfg"
    using card_session_map [of cfg False t] size_elems_le [of "sh_entries t"] session_table_invD(5) [of cfg False t] by simp
next
  fix t and key :: five_tuple_t and v
  assume "session_table_inv cfg False t" "session_map False t (session_key False key) = Some v"
  from session_remove_hit [OF this] show "\<exists>r s'.
    session_hashtable_remove_or_decrease_flow_count cfg False t key 0 = Some (r, s') \<and> fst r = 0 \<and>
    session_table_inv cfg False s' \<and> session_map False s' = (session_map False t)(session_key False key := None)"
    by fastforce
next
  fix t and key :: five_tuple_t and v
  assume "session_table_inv cfg False t" "card (dom (session_map False t)) < FLOW_HASHTABLE_SIZE cfg"
    "session_map False t (session_key False key) = None" "session_id_free cfg (session_map False t) key v"
  from session_add_new [OF this] show "\<exists>s'. session_hashtable_add_or_increase_flow_count cfg False t key v = Some (0, s') \<and>
    session_table_inv cfg False s' \<and> session_map False s' = (session_map False t)(session_key False key \<mapsto> v)"
    by blast
next
  fix t and key :: five_tuple_t and v w
  assume "session_table_inv cfg False t" "session_map False t (session_key False key) = Some w"
  then show "session_hashtable_add_or_increase_flow_count cfg False t key v = Some (1, t)"
    using session_index_hit [of cfg False t key w]
    by (auto simp: session_hashtable_add_or_increase_flow_count_def session_get_hashtable_index_def)
qed (simp_all add: session_get_hit session_get_miss session_remove_miss session_add_full session_table_never_full)

lemma session_remove_by_value_exact:
  assumes "session_table_inv cfg False t" "egress_exact (sh_entries t) (egress_feature_to_session_id t)"
    and "session_map False t c = Some v"
  shows "\<exists>k t'. session_hashtable_remove_or_decrease_flow_count_by_value cfg False t v key0 = Some ((0, k), t') \<and>
    session_key_of False t c = Some k \<and> session_map False t' = (session_map False t)(c := None) \<and>
    egress_exact (sh_entries t') (egress_feature_to_session_id t')"
proof -
  note D = session_table_invD [OF assms(1)]
  from session_map_Some_entry [OF assms(1,3)] obtain i where i: "i < FLOW_HASHTABLE_SIZE cfg"
    "occ (sh_entries t) i" "e_value (sh_entries t ! i) = v" "session_key False (e_key (sh_entries t ! i)) = c" by blast
  have "aget (session_feature_index_to_entry_map t) v = Some (int i)"
    using index_map_okD(2) [OF D(3), of i] index_map_okD(1) [OF D(3)] i D(5) by (auto simp: aget_def)
  with i D(5) session_map_entry(2) [OF assms(1) i(1,2)]
    session_remove_by_index_ok [OF assms(1) i(1,2), of True, OF assms(2)]
  show ?thesis by (auto simp: session_hashtable_remove_or_decrease_flow_count_by_value_def)
qed

lemma session_add_egress:
  assumes "session_table_inv cfg us t" "egress_exact (sh_entries t) (egress_feature_to_session_id t)"
    and new: "session_map us t (session_key us key) = None" and free: "session_id_free cfg (session_map us t) key v"
  shows "\<exists>t'. session_hashtable_add_or_increase_flow_count cfg us t key v = Some (0, t') \<and>
    (egress_exact (sh_entries t') (egress_feature_to_session_id t') \<longleftrightarrow>
     (\<forall>e \<in># elems (sh_entries t). e_value e + session_id_egress_offset (e_key e) \<noteq> v + session_id_egress_offset key))"
proof -
  note D = session_table_invD [OF assms(1)]
  let ?j = "v + session_id_egress_offset key" and ?g = "egress_feature_to_session_id t"
  from session_add_new [OF assms(1) session_table_never_full [OF assms(1)] new free] obtain t' e where
    t': "session_hashtable_add_or_increase_flow_count cfg us t key v = Some (0, t')"
      "egress_feature_to_session_id t' = ?g[nat ?j := v]"
      "elems (sh_entries t') = add_mset e (elems (sh_entries t))" "e_key e = key" "e_value e = v" by blast
  have j: "0 \<le> ?j" "nat ?j < length ?g" using free D(4) by (auto simp: session_id_free_def egress_ok_def)
  have "?g[nat ?j := v] ! nat (e_value e + session_id_egress_offset (e_key e)) = e_value e \<longleftrightarrow>
      e_value e + session_id_egress_offset (e_key e) \<noteq> ?j" if e: "e \<in># elems (sh_entries t)" for e
  proof -
    from e obtain i where i: "i < FLOW_HASHTABLE_SIZE cfg" "occ (sh_entries t) i" "e = sh_entries t ! i"
      using D(5) by (auto simp: in_elems)
    have "e_value e \<noteq> v"
      using free session_map_entry(1) [OF assms(1) i(1,2)] i(3) by (auto simp: session_id_free_def ran_def)
    moreover have "0 \<le> e_value e + session_id_egress_offset (e_key e)" using D(4) e by (simp add: egress_ok_def)
    moreover have "?g ! nat (e_value e + session_id_egress_offset (e_key e)) = e_value e"
      using assms(2) e by (simp add: egress_exact_def)
    ultimately show ?thesis using j by (cases "e_value e + session_id_egress_offset (e_key e) = ?j") auto
  qed
  then have "egress_exact (sh_entries t') (egress_feature_to_session_id t') \<longleftrightarrow>
      (\<forall>e \<in># elems (sh_entries t). e_value e + session_id_egress_offset (e_key e) \<noteq> ?j)"
    using t' j by (simp add: egress_exact_def)
  with t'(1) show ?thesis by blast
qed

section \<open>Properties\<close>

text \<open>
  C14. With sessions disabled the session table implements a finite map from five tuples to session
  ids: every admissible sequence of add, get and remove calls on an initialised table returns, with the status
  codes and values of the map, and ends in a table whose contents are that map. A sequence is admissible when
  each id that an add is called with is in range, as is its egress index, and is the id of no session at that moment; the ids of the heaps of
  the flow database are such.
\<close>

theorem session_table_refines_map:
  assumes "cfg_ok cfg" "length (flow_count t) = FEATURE_SIZE cfg"
    and "t_adds_ok (FLOW_HASHTABLE_SIZE cfg) (session_key False) (session_id_free cfg) v0 ops Map.empty"
  shows "\<exists>outs t'. t_run (session_hashtable_add_or_increase_flow_count cfg False)
        (session_hashtable_get cfg False)
        (\<lambda>t key. session_hashtable_remove_or_decrease_flow_count cfg False t key 0) fst v0 ops
        (session_hashtable_init cfg t) = Some (outs, t') \<and>
      session_table_inv cfg False t' \<and>
      t_spec_run (FLOW_HASHTABLE_SIZE cfg) (session_key False) v0 ops Map.empty = (outs, session_map False t')"
  using session.adds_ok_run_refines [of cfg "session_hashtable_init cfg t" v0 ops] assms
  by (auto simp: session_init_inv)

definition boot_session_table :: "config \<Rightarrow> session_hashtable_t" where
  "boot_session_table cfg = session_hashtable_init cfg
     \<lparr> sh_num_entries = 0, sh_entries = [], session_feature_index_to_entry_map = [],
       egress_feature_to_session_id = [], flow_count = replicate (FEATURE_SIZE cfg) 0 \<rparr>"

lemma boot_session_table_inv:
  "cfg_ok cfg \<Longrightarrow> session_table_inv cfg us (boot_session_table cfg)"
  "cfg_ok cfg \<Longrightarrow> session_map us (boot_session_table cfg) = Map.empty"
  unfolding boot_session_table_def by (rule session_init_inv; simp)+

definition session_example_ops :: "(five_tuple_t, int) t_op list" where
  "session_example_ops = [T_Add (example_key 1) 5, T_Add (example_key 2) 6, T_Add (example_key 1) 7,
     T_Remove (example_key 1), T_Get (example_key 1), T_Get (example_key 2)]"

lemma session_key_example [simp]:
  "session_key False (example_key p) = session_key False (example_key q) \<longleftrightarrow> p = q"
  "session_id_egress_offset (example_key p) = 0"
  by (simp_all add: session_key_def) (simp add: example_key_def zero_five_tuple_def)

theorem session_table_refines_map_witness:
  "\<exists>outs t'. t_run (session_hashtable_add_or_increase_flow_count small_config False)
        (session_hashtable_get small_config False)
        (\<lambda>t key. session_hashtable_remove_or_decrease_flow_count small_config False t key 0) fst 0
        session_example_ops (session_hashtable_init small_config (boot_session_table small_config)) = Some (outs, t') \<and>
      outs = [Out_Status 0, Out_Status 0, Out_Status 1, Out_Status 0, Out_Value 1 0, Out_Value 0 6]"
proof -
  have adds: "t_adds_ok (FLOW_HASHTABLE_SIZE small_config) (session_key False) (session_id_free small_config) 0
      session_example_ops Map.empty"
    by (auto simp: session_example_ops_def session_id_free_def ran_def split: if_splits)
  have "fst (t_spec_run (FLOW_HASHTABLE_SIZE small_config) (session_key False) 0 session_example_ops Map.empty) =
      [Out_Status 0, Out_Status 0, Out_Status 1, Out_Status 0, Out_Value 1 0, Out_Value 0 6]"
    by (simp add: session_example_ops_def)
  moreover have "length (flow_count (boot_session_table small_config)) = FEATURE_SIZE small_config"
    by (simp add: boot_session_table_def session_hashtable_init_def)
  ultimately show ?thesis
    using session_table_refines_map [OF cfg_ok_small _ adds, of "boot_session_table small_config"] by fastforce
qed

text \<open>
  C30. With sessions enabled \<open>flow_count\<close> is one too low, because adding a new session does not count
  its first flow. A session with a single flow is not removed with that flow: the count
  goes to \<open>-1\<close> and the entry stays. A session with two flows is removed with the first of them,
  while the second is still alive.
\<close>

theorem session_flow_count_off_by_one:
  assumes "session_table_inv cfg True t" "session_map True t (session_key True key) = None"
    and "session_id_free cfg (session_map True t) key v" "flow_count t ! nat v = 0"
  shows "\<exists>t1. session_hashtable_add_or_increase_flow_count cfg True t key v = Some (0, t1) \<and>
    (\<exists>t2. session_hashtable_remove_or_decrease_flow_count cfg True t1 key v = Some ((1, v), t2) \<and>
       session_map True t2 (session_key True key) = Some v \<and> flow_count t2 ! nat v = - 1) \<and>
    (\<exists>t2 t3. session_hashtable_add_or_increase_flow_count cfg True t1 key v = Some (1, t2) \<and>
       session_hashtable_remove_or_decrease_flow_count cfg True t2 key v = Some ((0, v), t3) \<and>
       session_map True t3 (session_key True key) = None)"
proof -
  from session_add_new [OF assms(1) session_table_never_full [OF assms(1)] assms(2,3)] obtain t1 where
    t1: "session_hashtable_add_or_increase_flow_count cfg True t key v = Some (0, t1)" "session_table_inv cfg True t1"
      "session_map True t1 = (session_map True t)(session_key True key \<mapsto> v)" "flow_count t1 = flow_count t" by blast
  have v: "0 \<le> v" "v < int (FEATURE_SIZE cfg)" using assms(3) by (auto simp: session_id_free_def)
  have l: "nat v < length (flow_count t1)" using session_table_invD(9) [OF t1(2)] v by simp
  have "session_hashtable_remove_or_decrease_flow_count cfg True t1 key v =
      Some ((1, v), t1\<lparr> flow_count := (flow_count t1)[nat v := - 1] \<rparr>)"
    using l v assms(4) t1(4) by (simp add: session_hashtable_remove_or_decrease_flow_count_def aget_def aset_def)
  then have one: "\<exists>t2. session_hashtable_remove_or_decrease_flow_count cfg True t1 key v = Some ((1, v), t2) \<and>
      session_map True t2 (session_key True key) = Some v \<and> flow_count t2 ! nat v = - 1"
    using t1(3) l by simp
  define t2 where "t2 = t1\<lparr> flow_count := (flow_count t1)[nat v := 1] \<rparr>"
  have t2: "session_hashtable_add_or_increase_flow_count cfg True t1 key v = Some (1, t2)"
    using session_add_present [OF t1(2) session_table_never_full [OF t1(2)], of key v v] t1(3,4) v assms(4)
    by (simp add: t2_def)
  define t3 where "t3 = t1\<lparr> flow_count := (flow_count t1)[nat v := 0] \<rparr>"
  have inv3: "session_table_inv cfg True t3" "session_map True t3 (session_key True key) = Some v"
    using t1(2,3) session_table_invD(9) [OF t1(2)] by (simp_all add: t3_def)
  from session_index_hit [OF inv3] obtain i where i: "i < FLOW_HASHTABLE_SIZE cfg"
    "session_get_hashtable_index cfg True t3 key (session_hashtable_hash_key True key) = Some (0, i)"
    "occ (sh_entries t3) i" "e_value (sh_entries t3 ! i) = v"
    "session_key True (e_key (sh_entries t3 ! i)) = session_key True key" by blast
  from session_remove_by_index_ok [OF inv3(1) i(1,3), of False] obtain t4 where
    t4: "session_hashtable_remove_by_index cfg t3 (int i) = Some t4"
      "session_map True t4 (session_key True key) = None" using i(5) by auto
  have "session_hashtable_remove_or_decrease_flow_count cfg True t2 key v = Some ((0, v), t4)"
    using l v i(1,2,4) t4(1) session_table_invD(5) [OF inv3(1)]
    by (simp add: session_hashtable_remove_or_decrease_flow_count_def session_remove_entry_def aget_def aset_def t2_def t3_def)
  with t1(1) one t2 t4(2) show ?thesis by blast
qed

theorem session_flow_count_off_by_one_witness:
  "\<exists>t1 t2. session_hashtable_add_or_increase_flow_count small_config True (boot_session_table small_config)
      (example_key 1) 5 = Some (0, t1) \<and>
    session_hashtable_remove_or_decrease_flow_count small_config True t1 (example_key 1) 5 = Some ((1, 5), t2) \<and>
    session_map True t2 (session_key True (example_key 1)) = Some 5"
proof -
  note boot = boot_session_table_inv [OF cfg_ok_small, of True]
  have "session_id_free small_config (session_map True (boot_session_table small_config)) (example_key 1) 5"
    "flow_count (boot_session_table small_config) ! nat 5 = 0"
    by (simp_all add: boot(2) session_id_free_def) (simp add: boot_session_table_def session_hashtable_init_def)
  with session_flow_count_off_by_one [OF boot(1), of "example_key 1" 5] boot(2) show ?thesis by fastforce
qed

text \<open>
  The map from egress register indices to session ids stays exact when sessions are removed
  by id (sessions disabled). When a session is added, it stays exact if and only if no stored session
  has the same egress index; the code does not check this, and two sessions of different ingress
  pipes with the same register index and egress pipe do share it.
\<close>

theorem egress_map_exactness:
  assumes "session_table_inv cfg us t" "egress_exact (sh_entries t) (egress_feature_to_session_id t)"
  shows "(\<forall>c v key0. \<not> us \<longrightarrow> session_map us t c = Some v \<longrightarrow>
      (\<exists>k t'. session_hashtable_remove_or_decrease_flow_count_by_value cfg us t v key0 = Some ((0, k), t') \<and>
        session_key_of us t c = Some k \<and> session_map us t' = (session_map us t)(c := None) \<and>
        egress_exact (sh_entries t') (egress_feature_to_session_id t'))) \<and>
    (\<forall>key v. session_map us t (session_key us key) = None \<longrightarrow> session_id_free cfg (session_map us t) key v \<longrightarrow>
      (\<exists>t'. session_hashtable_add_or_increase_flow_count cfg us t key v = Some (0, t') \<and>
        (egress_exact (sh_entries t') (egress_feature_to_session_id t') \<longleftrightarrow>
         (\<forall>e \<in># elems (sh_entries t). e_value e + session_id_egress_offset (e_key e) \<noteq> v + session_id_egress_offset key))))"
  using session_remove_by_value_exact [of cfg t] session_add_egress [OF assms] assms
  by (cases us) simp_all

theorem egress_map_exactness_witness:
  "\<exists>t'. session_hashtable_add_or_increase_flow_count small_config False (boot_session_table small_config)
      (example_key 1) 5 = Some (0, t') \<and> egress_exact (sh_entries t') (egress_feature_to_session_id t')"
proof -
  note boot = boot_session_table_inv [OF cfg_ok_small, of False]
  have el: "elems (sh_entries (boot_session_table small_config)) = {#}"
    by (simp add: boot_session_table_def session_hashtable_init_def zero_session_entry_def table_inv_init(2))
  then have "egress_exact (sh_entries (boot_session_table small_config))
      (egress_feature_to_session_id (boot_session_table small_config))" by (simp add: egress_exact_def)
  moreover have "session_id_free small_config (session_map False (boot_session_table small_config)) (example_key 1) 5"
    by (simp add: boot(2) session_id_free_def)
  ultimately show ?thesis using egress_map_exactness [OF boot(1)] boot(2) el by fastforce
qed

end
