(* ===== verification/Ring_Buffer.thy ===== *)
theory Ring_Buffer
  imports Marina_Prelude
begin

text \<open>
  The ring buffers of \<^verbatim>\<open>datastructures/mk_ringbuffer.h\<close>. The macros \<open>MK_RINGBUFFER_HEADER\<close> and
  \<open>MK_RINGBUFFER_IMPL\<close> are instantiated three times (packet, dns and data plane rings); the
  model is polymorphic in the item type and takes the macro argument \<open>size\<close> as \<open>sz\<close>. Shown: the operations
  implement a bounded FIFO queue.
\<close>

section \<open>The operations\<close>

record 'a ringbuffer =
  rb_head :: u32
  rb_tail :: u32
  rb_empty :: bool
  rb_full :: bool
  rb_data :: "'a list"
  rb_dropped :: int
  rb_stat :: u32 \<comment> \<open>the global \<open>_stat_\<close> counter that \<open>INC_STAT\<close> increments\<close>

definition rb_next :: "nat \<Rightarrow> u32 \<Rightarrow> u32" where
  "rb_next sz w = (w + 1) mod of_nat sz"

definition ringbuffer_init :: "'a ringbuffer \<Rightarrow> 'a ringbuffer" where
  "ringbuffer_init rb =
     rb\<lparr> rb_head := 0, rb_tail := 0, rb_dropped := 0, rb_empty := True, rb_full := False \<rparr>"

definition ringbuffer_empty :: "'a ringbuffer \<Rightarrow> bool" where
  "ringbuffer_empty rb = rb_empty rb"

definition ringbuffer_full :: "'a ringbuffer \<Rightarrow> bool" where
  "ringbuffer_full rb = rb_full rb"

definition ringbuffer_length :: "nat \<Rightarrow> 'a ringbuffer \<Rightarrow> nat" where
  "ringbuffer_length sz rb =
     (if rb_full rb then sz else unat ((rb_head rb + of_nat sz - rb_tail rb) mod of_nat sz))"

definition ringbuffer_get :: "nat \<Rightarrow> 'a ringbuffer \<Rightarrow> ((int \<times> 'a option) \<times> 'a ringbuffer) option" where
  "ringbuffer_get sz rb =
     (if rb_empty rb then Some ((-1, None), rb)
      else do {
        item \<leftarrow> aget (rb_data rb) (uint (rb_tail rb));
        let tail = rb_next sz (rb_tail rb);
        let rb' = rb\<lparr> rb_tail := tail, rb_empty := (rb_head rb = tail), rb_full := False \<rparr>;
        Some ((0, Some item), rb') })"

text \<open>The part of \<open>put\<close> and \<open>ensure_put\<close> that runs with the lock held and the ring not full.\<close>

definition ringbuffer_store :: "nat \<Rightarrow> 'a \<Rightarrow> 'a ringbuffer \<Rightarrow> 'a ringbuffer option" where
  "ringbuffer_store sz item rb = do {
     data \<leftarrow> aset (rb_data rb) (uint (rb_head rb)) item;
     let head = rb_next sz (rb_head rb);
     Some (rb\<lparr> rb_data := data, rb_head := head, rb_full := (head = rb_tail rb), rb_empty := False \<rparr>) }"

definition ringbuffer_put :: "nat \<Rightarrow> 'a \<Rightarrow> 'a ringbuffer \<Rightarrow> (int \<times> 'a ringbuffer) option" where
  "ringbuffer_put sz item rb =
     (if rb_full rb then Some (1, rb\<lparr> rb_stat := rb_stat rb + 1 \<rparr>)
      else do { rb' \<leftarrow> ringbuffer_store sz item rb; Some (0, rb') })"

text \<open>
  \<open>ensure_put\<close> spins until the ring is not full. With no other thread running, a full ring
  stays full: the call does not return.
\<close>

partial_function (option) ringbuffer_ensure_put ::
  "nat \<Rightarrow> 'a \<Rightarrow> 'a ringbuffer \<Rightarrow> 'a ringbuffer option" where
  "ringbuffer_ensure_put sz item rb =
     (if rb_full rb then ringbuffer_ensure_put sz item rb
      else ringbuffer_store sz item rb)"

section \<open>The bounded queue interface\<close>

text \<open>Operations on a queue, run one after the other, with what each call returns: its status and, for a \<open>get\<close>, its item.\<close>

datatype 'a qop = Put 'a | Get

datatype 'a qresult = PutResult int | GetResult int "'a option"

fun q_run :: "('a \<Rightarrow> 'q \<Rightarrow> (int \<times> 'q) option) \<Rightarrow> ('q \<Rightarrow> ((int \<times> 'a option) \<times> 'q) option) \<Rightarrow>
    'a qop list \<Rightarrow> 'q \<Rightarrow> ('a qresult list \<times> 'q) option" where
  "q_run put get [] q = Some ([], q)"
| "q_run put get (Put x # ops) q = do {
     (r, q1) \<leftarrow> put x q;
     (rs, q2) \<leftarrow> q_run put get ops q1;
     Some (PutResult r # rs, q2) }"
| "q_run put get (Get # ops) q = do {
     ((r, y), q1) \<leftarrow> get q;
     (rs, q2) \<leftarrow> q_run put get ops q1;
     Some (GetResult r y # rs, q2) }"

text \<open>
  The specification, on the list of the items: a \<open>put\<close> is refused, with 1, exactly when there are \<open>cap\<close> items, a \<open>get\<close>
  returns -1 and no item exactly when there is none, and otherwise 0 and the oldest.
\<close>

fun queue_run :: "nat \<Rightarrow> 'a qop list \<Rightarrow> 'a list \<Rightarrow> 'a qresult list \<times> 'a list" where
  "queue_run cap [] xs = ([], xs)"
| "queue_run cap (Put x # ops) xs =
     (let (r, xs') = (if length xs < cap then (0, xs @ [x]) else (1, xs)); (rs, ys) = queue_run cap ops xs' in (PutResult r # rs, ys))"
| "queue_run cap (Get # ops) xs =
     (let (res, xs') = (case xs of [] \<Rightarrow> (GetResult (-1) None, []) | x # xs' \<Rightarrow> (GetResult 0 (Some x), xs'));
          (rs, ys) = queue_run cap ops xs' in (res # rs, ys))"

text \<open>What an attempt to add an item does to the list of items of a queue of capacity \<open>cap\<close>.\<close>

definition q_accept :: "nat \<Rightarrow> 'a \<Rightarrow> 'a list \<Rightarrow> 'a list" where
  "q_accept cap x xs = (if length xs < cap then xs @ [x] else xs)"

locale bounded_queue =
  fixes cap :: nat
    and invar :: "'q \<Rightarrow> bool"
    and items :: "'q \<Rightarrow> 'a list"
    and put :: "'a \<Rightarrow> 'q \<Rightarrow> (int \<times> 'q) option"
    and get :: "'q \<Rightarrow> ((int \<times> 'a option) \<times> 'q) option"
  assumes items_le: "invar q \<Longrightarrow> length (items q) \<le> cap"
    and put_room: "invar q \<Longrightarrow> length (items q) < cap \<Longrightarrow>
          \<exists>q'. put x q = Some (0, q') \<and> invar q' \<and> items q' = items q @ [x]"
    and put_full: "invar q \<Longrightarrow> length (items q) = cap \<Longrightarrow>
          \<exists>q'. put x q = Some (1, q') \<and> invar q' \<and> items q' = items q"
    and get_item: "invar q \<Longrightarrow> items q = y # ys \<Longrightarrow>
          \<exists>q'. get q = Some ((0, Some y), q') \<and> invar q' \<and> items q' = ys"
    and get_none: "invar q \<Longrightarrow> items q = [] \<Longrightarrow> get q = Some ((-1, None), q)"
begin

lemma put_total: "invar q \<Longrightarrow> \<exists>r q'. put x q = Some (r, q') \<and> invar q'"
  using items_le put_room put_full by (metis le_neq_implies_less)

lemma put_accept:
  "invar q \<Longrightarrow> \<exists>q'. put x q = Some (if length (items q) < cap then 0 else 1, q') \<and> invar q' \<and>
     items q' = q_accept cap x (items q)"
  using items_le [of q] put_room [of q x] put_full [of q x] by (cases "length (items q) < cap") (auto simp: q_accept_def)

lemma put_cases:
  assumes "invar q" and "put x q = Some (r, q')"
  shows "invar q' \<and> (r = 0 \<and> length (items q) < cap \<and> items q' = items q @ [x] \<or>
                     r = 1 \<and> length (items q) = cap \<and> items q' = items q)"
  using items_le [OF assms(1)] put_room [OF assms(1), of x] put_full [OF assms(1), of x] assms(2)
  by (cases "length (items q) = cap") auto

lemma get_cases:
  assumes "invar q" and "get q = Some ((r, y), q')"
  shows "invar q' \<and> (r = -1 \<and> y = None \<and> items q = [] \<and> q' = q \<or>
                     (\<exists>v. r = 0 \<and> y = Some v \<and> items q = v # items q'))"
  using get_item [OF assms(1)] get_none [OF assms(1)] assms
  by (cases "items q") fastforce+

text \<open>Every run returns, with the results and the items of the specification.\<close>

lemma run_fifo:
  "invar q \<Longrightarrow> \<exists>q'. q_run put get ops q = Some (fst (queue_run cap ops (items q)), q') \<and> invar q' \<and>
     items q' = snd (queue_run cap ops (items q))"
proof (induction ops arbitrary: q)
  case Nil
  then show ?case by simp
next
  case (Cons op ops)
  show ?case
  proof (cases op)
    case (Put x)
    from put_accept [OF Cons.prems, of x] obtain q1 where
      p: "put x q = Some (if length (items q) < cap then 0 else 1, q1)" "invar q1" "items q1 = q_accept cap x (items q)" by blast
    from Cons.IH [OF p(2)] Put p show ?thesis by (auto simp: q_accept_def split: prod.split)
  next
    case Get
    show ?thesis
    proof (cases "items q")
      case Nil
      from Cons.IH [OF Cons.prems] Get get_none [OF Cons.prems Nil] Nil show ?thesis by (auto split: prod.split)
    next
      case (Cons y ys)
      from get_item [OF Cons.prems Cons] obtain q1 where g: "get q = Some ((0, Some y), q1)" "invar q1" "items q1 = ys" by blast
      from Cons.IH [OF g(2)] Get g Cons show ?thesis by (auto split: prod.split)
    qed
  qed
qed

end

section \<open>The ring buffer implements the bounded queue\<close>

definition rb_count :: "nat \<Rightarrow> 'a ringbuffer \<Rightarrow> nat" where
  "rb_count sz rb = (if rb_full rb then sz else cdist sz (unat (rb_tail rb)) (unat (rb_head rb)))"

definition rb_items :: "nat \<Rightarrow> 'a ringbuffer \<Rightarrow> 'a list" where
  "rb_items sz rb = map (\<lambda>k. rb_data rb ! ((unat (rb_tail rb) + k) mod sz)) [0..<rb_count sz rb]"

definition rb_inv :: "nat \<Rightarrow> 'a ringbuffer \<Rightarrow> bool" where
  "rb_inv sz rb \<longleftrightarrow> 0 < sz \<and> sz < 2 ^ 31 \<and> length (rb_data rb) = sz \<and>
     unat (rb_head rb) < sz \<and> unat (rb_tail rb) < sz \<and>
     (rb_empty rb \<longleftrightarrow> rb_head rb = rb_tail rb \<and> \<not> rb_full rb) \<and>
     (rb_full rb \<longrightarrow> rb_head rb = rb_tail rb)"

lemma length_rb_items [simp]: "length (rb_items sz rb) = rb_count sz rb"
  by (simp add: rb_items_def)

lemma unat_rb_next:
  assumes "unat w < sz" and "sz < 2 ^ 31"
  shows "unat (rb_next sz w) = Suc (unat w) mod sz"
proof -
  have "unat (of_nat sz :: u32) = sz" using assms by (simp add: unat_of_nat)
  moreover have "unat (w + 1) = Suc (unat w)"
    using assms by (simp add: unat_word_ariths)
  ultimately show ?thesis by (simp add: rb_next_def unat_mod_distrib)
qed

lemma rb_next_less: "unat w < sz \<Longrightarrow> sz < 2 ^ 31 \<Longrightarrow> unat (rb_next sz w) < sz"
  by (simp add: unat_rb_next suc_mod_less)

lemma rb_inv_init:
  "0 < sz \<Longrightarrow> sz < 2 ^ 31 \<Longrightarrow> length (rb_data rb) = sz \<Longrightarrow> rb_inv sz (ringbuffer_init rb)"
  by (simp add: rb_inv_def ringbuffer_init_def)

lemma rb_items_init: "rb_items sz (ringbuffer_init rb) = []"
  by (simp add: rb_items_def rb_count_def ringbuffer_init_def cdist_def)

lemma rb_count_le: "rb_inv sz rb \<Longrightarrow> rb_count sz rb \<le> sz"
  by (auto simp: rb_count_def rb_inv_def less_imp_le cdist_less)

lemma rb_full_iff: "rb_inv sz rb \<Longrightarrow> rb_full rb \<longleftrightarrow> rb_count sz rb = sz"
  using cdist_less [of sz "unat (rb_tail rb)" "unat (rb_head rb)"]
  by (auto simp: rb_count_def rb_inv_def)

lemma rb_empty_iff: "rb_inv sz rb \<Longrightarrow> rb_empty rb \<longleftrightarrow> rb_count sz rb = 0"
  by (auto simp: rb_count_def rb_inv_def cdist_eq_0_iff word_unat_eq_iff)

lemma ringbuffer_length_count:
  assumes "rb_inv sz rb"
  shows "ringbuffer_length sz rb = rb_count sz rb"
proof (cases "rb_full rb")
  case True
  then show ?thesis by (simp add: ringbuffer_length_def rb_count_def)
next
  case False
  from assms have b: "unat (rb_head rb) < sz" "unat (rb_tail rb) < sz" "sz < 2 ^ 31"
    by (auto simp: rb_inv_def)
  then have s: "unat (of_nat sz :: u32) = sz" by (simp add: unat_of_nat)
  from b s have a: "unat (rb_head rb + of_nat sz) = unat (rb_head rb) + sz"
    by (simp add: unat_word_ariths)
  from a b have "unat (rb_head rb + of_nat sz - rb_tail rb) = unat (rb_head rb) + sz - unat (rb_tail rb)"
    by (subst unat_sub) (auto simp: word_le_nat_alt)
  with s False show ?thesis
    by (simp add: ringbuffer_length_def rb_count_def cdist_def unat_mod_distrib)
qed

lemma ringbuffer_store_spec:
  assumes inv: "rb_inv sz rb" and room: "rb_count sz rb < sz"
  shows "\<exists>rb'. ringbuffer_store sz x rb = Some rb' \<and> rb_inv sz rb' \<and>
           rb_items sz rb' = rb_items sz rb @ [x]"
proof -
  let ?h = "unat (rb_head rb)" and ?t = "unat (rb_tail rb)" and ?n = "rb_count sz rb"
  define rb' where "rb' = rb\<lparr> rb_data := (rb_data rb)[?h := x], rb_head := rb_next sz (rb_head rb),
     rb_full := (rb_next sz (rb_head rb) = rb_tail rb), rb_empty := False \<rparr>"
  from inv have b: "?h < sz" "?t < sz" "sz < 2 ^ 31" "length (rb_data rb) = sz"
    by (auto simp: rb_inv_def)
  from inv room have nf: "\<not> rb_full rb" by (simp add: rb_full_iff)
  then have n: "?n = cdist sz ?t ?h" by (simp add: rb_count_def)
  have st: "ringbuffer_store sz x rb = Some rb'"
    using b by (simp add: ringbuffer_store_def rb'_def Let_def)
  have i': "rb_inv sz rb'"
    using inv b by (auto simp: rb_inv_def rb'_def rb_next_less)
  have eqt: "rb_next sz (rb_head rb) = rb_tail rb \<longleftrightarrow> Suc ?h mod sz = ?t"
    using b by (metis unat_rb_next word_unat_eq_iff)
  have c': "rb_count sz rb' = Suc ?n"
  proof (cases "Suc ?h mod sz = ?t")
    case True
    then have "cdist sz ?t ?h = sz - 1" using b
      by (auto simp: cdist_alt suc_mod_alt split: if_splits)
    with True eqt n b show ?thesis by (simp add: rb_count_def rb'_def)
  next
    case False
    with eqt n b show ?thesis by (simp add: rb_count_def rb'_def unat_rb_next cdist_suc)
  qed
  have h: "(?t + ?n) mod sz = ?h" using n b by (simp add: mod_cdist)
  have ne: "?h \<noteq> (?t + k) mod sz" if "k < ?n" for k
    using that b n room by (auto simp: cdist_alt mod_if split: if_splits)
  have "rb_items sz rb' = rb_items sz rb @ [x]"
    unfolding rb_items_def c' using h b by (simp add: rb'_def ne)
  with st i' show ?thesis by blast
qed

lemma ringbuffer_get_spec:
  assumes inv: "rb_inv sz rb" and ne: "rb_items sz rb = y # ys"
  shows "\<exists>rb'. ringbuffer_get sz rb = Some ((0, Some y), rb') \<and> rb_inv sz rb' \<and> rb_items sz rb' = ys"
proof -
  let ?h = "unat (rb_head rb)" and ?t = "unat (rb_tail rb)" and ?n = "rb_count sz rb"
  define rb' where "rb' = rb\<lparr> rb_tail := rb_next sz (rb_tail rb),
     rb_empty := (rb_head rb = rb_next sz (rb_tail rb)), rb_full := False \<rparr>"
  from inv have b: "?h < sz" "?t < sz" "sz < 2 ^ 31" "length (rb_data rb) = sz"
    by (auto simp: rb_inv_def)
  from ne obtain m where m: "?n = Suc m" by (metis length_Cons length_rb_items)
  with inv have nem: "\<not> rb_empty rb" by (simp add: rb_empty_iff)
  from ne m have y: "y = rb_data rb ! ?t" and
    ys: "ys = map (\<lambda>k. rb_data rb ! ((?t + Suc k) mod sz)) [0..<m]"
    using b by (auto simp: rb_items_def upt_conv_Cons comp_def simp del: upt_Suc simp flip: map_Suc_upt)
  have gt: "ringbuffer_get sz rb = Some ((0, Some y), rb')"
    using b nem y by (simp add: ringbuffer_get_def rb'_def Let_def)
  have i': "rb_inv sz rb'" using inv b by (auto simp: rb_inv_def rb'_def rb_next_less)
  have "cdist sz (Suc ?t mod sz) ?h = m"
    using m b inv by (auto simp: rb_count_def rb_inv_def cdist_alt suc_mod_alt split: if_splits)
  then have c': "rb_count sz rb' = m" using b by (simp add: rb_count_def rb'_def unat_rb_next)
  have "(Suc ?t mod sz + k) mod sz = (?t + Suc k) mod sz" for k by (simp add: mod_simps)
  then have "rb_items sz rb' = ys"
    unfolding rb_items_def c' ys using b by (simp add: rb'_def unat_rb_next)
  with gt i' show ?thesis by blast
qed

lemma rb_inv_stat: "rb_inv sz (rb\<lparr>rb_stat := n\<rparr>) = rb_inv sz rb"
  by (simp add: rb_inv_def)

lemma rb_items_stat: "rb_items sz (rb\<lparr>rb_stat := n\<rparr>) = rb_items sz rb"
  by (simp add: rb_items_def rb_count_def)

lemma ringbuffer_put_full:
  "rb_inv sz rb \<Longrightarrow> rb_count sz rb = sz \<Longrightarrow>
     \<exists>rb'. ringbuffer_put sz x rb = Some (1, rb') \<and> rb_inv sz rb' \<and> rb_items sz rb' = rb_items sz rb"
  by (simp add: ringbuffer_put_def rb_full_iff [symmetric] rb_inv_stat rb_items_stat)

lemma ringbuffer_put_room:
  "rb_inv sz rb \<Longrightarrow> rb_count sz rb < sz \<Longrightarrow>
     \<exists>rb'. ringbuffer_put sz x rb = Some (0, rb') \<and> rb_inv sz rb' \<and> rb_items sz rb' = rb_items sz rb @ [x]"
  using ringbuffer_store_spec [of sz rb x] by (auto simp: ringbuffer_put_def rb_full_iff)

lemma ringbuffer_get_none:
  "rb_inv sz rb \<Longrightarrow> rb_items sz rb = [] \<Longrightarrow> ringbuffer_get sz rb = Some ((-1, None), rb)"
  by (auto simp: ringbuffer_get_def rb_empty_iff rb_items_def)

interpretation ring: bounded_queue sz "rb_inv sz" "rb_items sz" "ringbuffer_put sz" "ringbuffer_get sz"
  for sz
proof unfold_locales
  fix q :: "'a ringbuffer" and x :: 'a
  assume i: "rb_inv sz q"
  show "length (rb_items sz q) \<le> sz" using i by (simp add: rb_count_le)
  show "\<exists>q'. ringbuffer_put sz x q = Some (0, q') \<and> rb_inv sz q' \<and> rb_items sz q' = rb_items sz q @ [x]"
    if "length (rb_items sz q) < sz" using that i by (simp add: ringbuffer_put_room)
  show "\<exists>q'. ringbuffer_put sz x q = Some (1, q') \<and> rb_inv sz q' \<and> rb_items sz q' = rb_items sz q"
    if "length (rb_items sz q) = sz" using that i by (simp add: ringbuffer_put_full)
  show "ringbuffer_get sz q = Some ((-1, None), q)" if "rb_items sz q = []"
    using that i by (rule ringbuffer_get_none [rotated])
  show "\<exists>q'. ringbuffer_get sz q = Some ((0, Some y), q') \<and> rb_inv sz q' \<and> rb_items sz q' = ys"
    if "rb_items sz q = y # ys" for y ys using i that by (rule ringbuffer_get_spec)
qed

text \<open>A call of \<open>ensure_put\<close> that returns found room.\<close>

lemma ensure_put_not_full: "ringbuffer_ensure_put sz x rb = Some rb' \<Longrightarrow> \<not> rb_full rb"
  by (rule ringbuffer_ensure_put.raw_induct [where P = "\<lambda>sz x rb y. \<not> rb_full rb", rotated]) (auto split: if_splits)

lemma ensure_put_stores:
  assumes "rb_inv sz rb" "ringbuffer_ensure_put sz x rb = Some rb'"
  shows "rb_inv sz rb' \<and> rb_items sz rb' = rb_items sz rb @ [x] \<and> length (rb_items sz rb) < sz"
proof -
  from ensure_put_not_full [OF assms(2)] assms(2) have "ringbuffer_put sz x rb = Some (0, rb')"
    by (simp add: ringbuffer_put_def ringbuffer_ensure_put.simps [of sz x rb])
  from ring.put_cases [OF assms(1) this] show ?thesis by (simp del: length_rb_items)
qed

text \<open>Several attempts in a row.\<close>

definition q_accept_all :: "nat \<Rightarrow> 'a list \<Rightarrow> 'a list \<Rightarrow> 'a list" where
  "q_accept_all cap new xs = fold (q_accept cap) new xs"

lemma q_accept_all_simps [simp]:
  "q_accept_all cap [] xs = xs" "q_accept_all cap (x # new) xs = q_accept_all cap new (q_accept cap x xs)"
  "q_accept_all cap (new @ new') xs = q_accept_all cap new' (q_accept_all cap new xs)"
  by (simp_all add: q_accept_all_def)

lemma set_q_accept_all: "set (q_accept_all cap new xs) \<subseteq> set xs \<union> set new"
  by (induction new arbitrary: xs) (force simp: q_accept_def split: if_splits)+

lemma q_accept_all_prefix: "\<exists>zs. q_accept_all cap new xs = xs @ zs"
proof (induction new arbitrary: xs)
  case (Cons x new)
  from Cons.IH [of "q_accept cap x xs"] show ?case by (auto simp: q_accept_def split: if_splits)
qed simp

text \<open>A ring as the program starts with it.\<close>

definition empty_ring :: "nat \<Rightarrow> 'a \<Rightarrow> 'a ringbuffer" where
  "empty_ring sz x = ringbuffer_init \<lparr> rb_head = 0, rb_tail = 0, rb_empty = True, rb_full = False,
     rb_data = replicate sz x, rb_dropped = 0, rb_stat = 0 \<rparr>"

lemma empty_ring_inv:
  "0 < sz \<Longrightarrow> sz < 2 ^ 31 \<Longrightarrow> rb_inv sz (empty_ring sz x)" "rb_items sz (empty_ring sz x) = []"
  unfolding empty_ring_def by (rule rb_inv_init; simp) (rule rb_items_init)

section \<open>Properties of the sequential ring buffer\<close>

text \<open>
  C16. The ring is a bounded queue of exactly \<open>sz\<close> places: whatever sequence of \<open>put\<close> and \<open>get\<close> calls runs on a well-formed ring, every call
  returns what the specification on lists returns, so that a \<open>put\<close> is refused exactly when \<open>sz\<close> items are stored, a \<open>get\<close> finds nothing
  exactly when none is, and the items come out in order; the ring stays well-formed and holds the items of the specification; and \<open>length\<close>,
  \<open>empty\<close> and \<open>full\<close> then tell the truth about them.
\<close>

theorem ring_fifo:
  assumes "rb_inv sz rb" "queue_run sz ops (rb_items sz rb) = (results, xs)"
  shows "\<exists>rb'. q_run (ringbuffer_put sz) (ringbuffer_get sz) ops rb = Some (results, rb') \<and> rb_inv sz rb' \<and> rb_items sz rb' = xs \<and>
    ringbuffer_length sz rb' = length xs \<and> (ringbuffer_empty rb' \<longleftrightarrow> xs = []) \<and> (ringbuffer_full rb' \<longleftrightarrow> length xs = sz)"
proof -
  from ring.run_fifo [OF assms(1), of ops] assms(2) obtain rb' where
    r: "q_run (ringbuffer_put sz) (ringbuffer_get sz) ops rb = Some (results, rb')" "rb_inv sz rb'" "rb_items sz rb' = xs" by auto
  have "rb_count sz rb' = length xs" using length_rb_items [of sz rb'] r(3) by simp
  with r ringbuffer_length_count [OF r(2)] rb_full_iff [OF r(2)] rb_empty_iff [OF r(2)] show ?thesis
    by (auto simp: ringbuffer_empty_def ringbuffer_full_def)
qed

definition rb_example :: "nat ringbuffer" where
  "rb_example = ringbuffer_init \<lparr> rb_head = 0, rb_tail = 0, rb_empty = True, rb_full = False,
     rb_data = [0, 0], rb_dropped = 0, rb_stat = 0 \<rparr>"

lemma rb_inv_example: "rb_inv 2 rb_example"
  unfolding rb_example_def by (rule rb_inv_init) simp_all

theorem ring_fifo_witness:
  "\<exists>rb'. q_run (ringbuffer_put 2) (ringbuffer_get 2) [Put 7, Put 8, Put 9, Get, Put 10, Get, Get, Get] rb_example =
       Some ([PutResult 0, PutResult 0, PutResult 1, GetResult 0 (Some 7), PutResult 0, GetResult 0 (Some 8), GetResult 0 (Some 10),
         GetResult (-1) None], rb') \<and> rb_items 2 rb' = []"
proof -
  have "rb_items 2 rb_example = []" unfolding rb_example_def by (rule rb_items_init)
  then show ?thesis
    using ring_fifo [OF rb_inv_example, of "[Put 7, Put 8, Put 9, Get, Put 10, Get, Get, Get]", OF surjective_pairing] by auto
qed

end
