(* ===== verification/Bloom_Filter.thy ===== *)
theory Bloom_Filter
  imports Structs Crc Ring_Buffer
begin

text \<open>
  \<^verbatim>\<open>datastructures/bloom_filter.c\<close>: per pipe, four arrays of 16 bit counters, addressed by
  four CRC hashes of the flow. The controller keeps the counters; the data plane keeps one bit per
  counter and is told about changes through the data plane ring. Locks have no counterpart: the model
  runs one call after the other. \<open>junk\<close> stands for the uninitialised array \<open>indices\<close>, which
  \<open>get_hashes\<close> leaves alone for a protocol that is neither IPv4 nor IPv6.
\<close>

section \<open>Model\<close>

type_synonym bloom_filter_t = "u16 list list list" \<comment> \<open>\<open>entries[pipe][filter][index]\<close>\<close>
type_synonym dp_ring = "dataplane_command_t ringbuffer"

definition bloom_filter_init :: "config \<Rightarrow> bloom_filter_t" where
  "bloom_filter_init cfg =
     replicate NUM_PIPES (replicate NUM_BLOOMFILTERS (replicate (BLOOMFILTER_WIDTH cfg) 0))"

text \<open>The packed struct \<open>dp_five_tuple_t\<close>: 12 bytes.\<close>

definition dp_five_tuple :: "u32 \<Rightarrow> u32 \<Rightarrow> u16 \<Rightarrow> u16 \<Rightarrow> u8 list" where
  "dp_five_tuple src dst sport dport = le_bytes 4 src @ le_bytes 4 dst @ le_bytes 2 sport @ le_bytes 2 dport"

definition mk_ipv4_hash :: "config \<Rightarrow> five_tuple_t \<Rightarrow> int list" where
  "mk_ipv4_hash cfg ft =
     (let bytes = dp_five_tuple (addr_ipv4 (src_addr (ft_h ft))) (addr_ipv4 (dst_addr (ft_h ft)))
                    (bswap_16 (src_port (ft_h ft))) (bswap_16 (dst_port (ft_h ft)))
      in map (\<lambda>crc. uint (crc bytes 0 mod of_nat (BLOOMFILTER_WIDTH cfg))) crc_fn)"

definition mk_ipv6_hash :: "config \<Rightarrow> five_tuple_t \<Rightarrow> int list" where
  "mk_ipv6_hash cfg ft =
     (let bytes = dp_five_tuple ((crc_fn ! 0) (s6_addr (src_addr (ft_h ft))) 0)
                    ((crc_fn ! 0) (s6_addr (dst_addr (ft_h ft))) 0)
                    (bswap_16 (src_port (ft_h ft))) (bswap_16 (dst_port (ft_h ft)))
      in map (\<lambda>crc. uint (crc bytes 0 mod of_nat (BLOOMFILTER_WIDTH cfg))) crc_fn)"

definition get_hashes :: "config \<Rightarrow> int list \<Rightarrow> five_tuple_t \<Rightarrow> int list" where
  "get_hashes cfg junk ft =
     (if l3_proto (ft_h ft) = L3_IPV4 then mk_ipv4_hash cfg ft
      else if l3_proto (ft_h ft) = L3_IPV6 then mk_ipv6_hash cfg ft
      else junk)"

definition bf_get :: "bloom_filter_t \<Rightarrow> int \<Rightarrow> nat \<Rightarrow> int \<Rightarrow> u16 option" where
  "bf_get bf pipe i index = do { p \<leftarrow> aget bf pipe; f \<leftarrow> aget p (int i); aget f index }"

definition bf_set :: "bloom_filter_t \<Rightarrow> int \<Rightarrow> nat \<Rightarrow> int \<Rightarrow> u16 \<Rightarrow> bloom_filter_t option" where
  "bf_set bf pipe i index v =
     do { p \<leftarrow> aget bf pipe; f \<leftarrow> aget p (int i); f' \<leftarrow> aset f index v;
          p' \<leftarrow> aset p (int i) f'; aset bf pipe p' }"

text \<open>
  The loop of \<open>bloom_filter_set_irrelevant\<close>. \<open>cmd\<close> holds the indices of the command, which start
  as zeros (the initialiser names only \<open>pipe_id\<close>).
\<close>

fun set_irrelevant_loop :: "int \<Rightarrow> int list \<Rightarrow> nat list \<Rightarrow> bloom_filter_t \<times> int list \<times> bool \<Rightarrow>
    (bloom_filter_t \<times> int list \<times> bool) option" where
  "set_irrelevant_loop pipe indices [] st = Some st"
| "set_irrelevant_loop pipe indices (i # is) (bf, cmd, send) =
     do { index \<leftarrow> aget indices (int i);
          entry \<leftarrow> bf_get bf pipe i index;
          bf' \<leftarrow> bf_set bf pipe i index (entry + 1);
          let st' = (if entry + 1 = 1 then (bf', cmd[i := index], True) else (bf', cmd, send));
          set_irrelevant_loop pipe indices is st' }"

definition bloom_filter_set_irrelevant ::
  "config \<Rightarrow> int list \<Rightarrow> five_tuple_t \<Rightarrow> bloom_filter_t \<times> dp_ring \<Rightarrow> (bloom_filter_t \<times> dp_ring) option" where
  "bloom_filter_set_irrelevant cfg junk ft st =
     do { let (bf, ring) = st;
          let pipe = dev_port_to_pipe (uint (dev_port ft));
          let indices = get_hashes cfg junk ft;
          (bf', cmd, send) \<leftarrow> set_irrelevant_loop pipe indices [0..<NUM_BLOOMFILTERS] (bf, replicate NUM_BLOOMFILTERS 0, False);
          if send then do {
            (_, ring') \<leftarrow> ringbuffer_put (DATAPLANE_RINGBUFFER_SIZE cfg) (DP_ADD_BLOOM_FILTER cmd pipe) ring;
            Some (bf', ring') }
          else Some (bf', ring) }"

fun set_relevant_loop :: "int \<Rightarrow> int list \<Rightarrow> nat list \<Rightarrow> bloom_filter_t \<Rightarrow> int list \<times> bool \<Rightarrow>
    (int list \<times> bool) option" where
  "set_relevant_loop pipe indices [] bf st = Some st"
| "set_relevant_loop pipe indices (i # is) bf (cmd, send) =
     do { index \<leftarrow> aget indices (int i);
          entry \<leftarrow> bf_get bf pipe i index;
          let st' = (if entry = 0 then (cmd[i := index], True) else (cmd, send));
          set_relevant_loop pipe indices is bf st' }"

definition bloom_filter_set_relevant ::
  "config \<Rightarrow> int list \<Rightarrow> five_tuple_t \<Rightarrow> bloom_filter_t \<times> dp_ring \<Rightarrow> (bloom_filter_t \<times> dp_ring) option" where
  "bloom_filter_set_relevant cfg junk ft st =
     do { let (bf, ring) = st;
          let pipe = dev_port_to_pipe (uint (dev_port ft));
          let indices = get_hashes cfg junk ft;
          (cmd, send) \<leftarrow> set_relevant_loop pipe indices [0..<NUM_BLOOMFILTERS] bf (replicate NUM_BLOOMFILTERS 0, False);
          if send then do {
            (_, ring') \<leftarrow> ringbuffer_put (DATAPLANE_RINGBUFFER_SIZE cfg) (DP_REMOVE_BLOOM_FILTER cmd pipe) ring;
            Some (bf, ring') }
          else Some (bf, ring) }"

text \<open>
  One pass of \<open>bloom_filter_maintenance\<close>. \<open>rnd pipe index i\<close> is the outcome of
  \<open>random() < sub_threshold\<close>. The command (its indices \<open>cmd\<close>) and \<open>send\<close> live across iterations.
\<close>

fun maintenance_filters :: "(nat \<Rightarrow> bool) \<Rightarrow> int \<Rightarrow> int \<Rightarrow> nat list \<Rightarrow> bloom_filter_t \<times> int list \<times> bool \<Rightarrow>
    (bloom_filter_t \<times> int list \<times> bool) option" where
  "maintenance_filters rnd pipe index [] st = Some st"
| "maintenance_filters rnd pipe index (i # is) (bf, cmd, send) =
     (if \<not> rnd i then maintenance_filters rnd pipe index is (bf, cmd, send)
      else do {
        entry \<leftarrow> bf_get bf pipe i index;
        if entry = 0 then maintenance_filters rnd pipe index is (bf, cmd, send)
        else do {
          bf' \<leftarrow> bf_set bf pipe i index (entry - 1);
          let st' = (if entry > 1 then (bf', cmd, send) else (bf', cmd[i := index], True));
          maintenance_filters rnd pipe index is st' } })"

fun undo_filters :: "int \<Rightarrow> int list \<Rightarrow> nat list \<Rightarrow> bloom_filter_t \<Rightarrow> bloom_filter_t option" where
  "undo_filters pipe cmd [] bf = Some bf"
| "undo_filters pipe cmd (i # is) bf =
     do { index \<leftarrow> aget cmd (int i);
          entry \<leftarrow> bf_get bf pipe i index;
          bf' \<leftarrow> bf_set bf pipe i index (entry + 1);
          undo_filters pipe cmd is bf' }"

definition maintenance_index :: "config \<Rightarrow> (nat \<Rightarrow> bool) \<Rightarrow> int \<Rightarrow> int \<Rightarrow>
    bloom_filter_t \<times> int list \<times> dp_ring \<Rightarrow> (bloom_filter_t \<times> int list \<times> dp_ring) option" where
  "maintenance_index cfg rnd pipe index st =
     do { let (bf, cmd, ring) = st;
          (bf', cmd', send) \<leftarrow> maintenance_filters rnd pipe index [0..<NUM_BLOOMFILTERS] (bf, cmd, False);
          if send then do {
            (status, ring') \<leftarrow> ringbuffer_put (DATAPLANE_RINGBUFFER_SIZE cfg) (DP_REMOVE_BLOOM_FILTER cmd' pipe) ring;
            if status \<noteq> 0 then do {
              bf'' \<leftarrow> undo_filters pipe cmd' [0..<NUM_BLOOMFILTERS] bf';
              Some (bf'', cmd', ring') }
            else Some (bf', cmd', ring') }
          else Some (bf', cmd', ring) }"

fun maintenance_run :: "config \<Rightarrow> (int \<Rightarrow> int \<Rightarrow> nat \<Rightarrow> bool) \<Rightarrow> (int \<times> int) list \<Rightarrow>
    bloom_filter_t \<times> int list \<times> dp_ring \<Rightarrow> (bloom_filter_t \<times> int list \<times> dp_ring) option" where
  "maintenance_run cfg rnd [] st = Some st"
| "maintenance_run cfg rnd ((pipe, index) # ps) st =
     do { st' \<leftarrow> maintenance_index cfg (rnd pipe index) pipe index st; maintenance_run cfg rnd ps st' }"

text \<open>The two outer loops, as the sequence of their index pairs.\<close>

definition maintenance_order :: "config \<Rightarrow> (int \<times> int) list" where
  "maintenance_order cfg = [(int pipe, int index). pipe \<leftarrow> [0..<NUM_PIPES], index \<leftarrow> [0..<BLOOMFILTER_WIDTH cfg]]"

definition bloom_filter_maintenance_pass :: "config \<Rightarrow> (int \<Rightarrow> int \<Rightarrow> nat \<Rightarrow> bool) \<Rightarrow>
    bloom_filter_t \<times> int list \<times> dp_ring \<Rightarrow> (bloom_filter_t \<times> int list \<times> dp_ring) option" where
  "bloom_filter_maintenance_pass cfg rnd st =
     maintenance_run cfg rnd (maintenance_order cfg) st"

section \<open>Shape and addressing\<close>

definition bf_ok :: "config \<Rightarrow> bloom_filter_t \<Rightarrow> bool" where
  [inv_defs]: "bf_ok cfg bf \<longleftrightarrow> length bf = NUM_PIPES \<and>
     (\<forall>p < NUM_PIPES. length (bf ! p) = NUM_BLOOMFILTERS \<and>
        (\<forall>i < NUM_BLOOMFILTERS. length (bf ! p ! i) = BLOOMFILTER_WIDTH cfg))"

text \<open>The counter at a position, as a total function.\<close>

definition counter :: "bloom_filter_t \<Rightarrow> int \<Rightarrow> nat \<Rightarrow> int \<Rightarrow> u16" where
  "counter bf pipe i index = bf ! nat pipe ! i ! nat index"

definition in_filter :: "config \<Rightarrow> int \<Rightarrow> nat \<Rightarrow> int \<Rightarrow> bool" where
  "in_filter cfg pipe i index \<longleftrightarrow> 0 \<le> pipe \<and> pipe < int NUM_PIPES \<and> i < NUM_BLOOMFILTERS \<and>
     0 \<le> index \<and> index < int (BLOOMFILTER_WIDTH cfg)"

lemma bf_ok_init: "bf_ok cfg (bloom_filter_init cfg)"
  by (simp add: bf_ok_def bloom_filter_init_def)

lemma bf_ok_lengths:
  assumes "bf_ok cfg bf" "in_filter cfg pipe i index"
  shows "0 \<le> pipe" "nat pipe < length bf" "i < length (bf ! nat pipe)" "0 \<le> index"
    "nat index < length (bf ! nat pipe ! i)"
proof -
  have "nat pipe < NUM_PIPES" "i < NUM_BLOOMFILTERS" "nat index < BLOOMFILTER_WIDTH cfg" "0 \<le> pipe" "0 \<le> index"
    using assms(2) by (auto simp: in_filter_def)
  with assms(1) show "0 \<le> pipe" "nat pipe < length bf" "i < length (bf ! nat pipe)" "0 \<le> index"
    "nat index < length (bf ! nat pipe ! i)" by (auto simp: bf_ok_def)
qed

lemma bf_get_ok:
  "bf_ok cfg bf \<Longrightarrow> in_filter cfg pipe i index \<Longrightarrow> bf_get bf pipe i index = Some (counter bf pipe i index)"
  using bf_ok_lengths [of cfg bf pipe i index] by (auto simp: bf_get_def aget_def counter_def)

lemma bf_set_ok:
  assumes "bf_ok cfg bf" "in_filter cfg pipe i index"
  shows "\<exists>bf'. bf_set bf pipe i index v = Some bf' \<and> bf_ok cfg bf' \<and>
    (\<forall>p' i' x'. in_filter cfg p' i' x' \<longrightarrow>
       counter bf' p' i' x' = (if p' = pipe \<and> i' = i \<and> x' = index then v else counter bf p' i' x'))"
proof -
  let ?p = "bf ! nat pipe" and ?f = "bf ! nat pipe ! i"
  note p = bf_ok_lengths [OF assms]
  let ?bf = "bf[nat pipe := ?p[i := ?f[nat index := v]]]"
  have "bf_set bf pipe i index v = Some ?bf"
    using p by (auto simp: bf_set_def aget_def aset_def)
  moreover have "bf_ok cfg ?bf"
    using assms(1) p unfolding bf_ok_def by (auto simp: nth_list_update)
  moreover have "counter ?bf p' i' x' = (if p' = pipe \<and> i' = i \<and> x' = index then v else counter bf p' i' x')"
    if "in_filter cfg p' i' x'" for p' i' x'
    using that p by (auto simp: counter_def in_filter_def nth_list_update eq_nat_nat_iff)
  ultimately show ?thesis by blast
qed

lemma crc_fn_length [simp]: "length crc_fn = 4"
  by (simp add: crc_fn_def)

lemma get_hashes_ok:
  assumes "cfg_ok cfg" "l3_proto (ft_h ft) \<in> {L3_IPV4, L3_IPV6}"
  shows "length (get_hashes cfg junk ft) = NUM_BLOOMFILTERS"
    and "\<And>i. i < NUM_BLOOMFILTERS \<Longrightarrow> 0 \<le> get_hashes cfg junk ft ! i \<and> get_hashes cfg junk ft ! i < int (BLOOMFILTER_WIDTH cfg)"
proof -
  have w: "0 < BLOOMFILTER_WIDTH cfg" "BLOOMFILTER_WIDTH cfg < 2 ^ 31" using assms(1) by (auto simp: cfg_ok_def)
  have m: "uint (h mod of_nat (BLOOMFILTER_WIDTH cfg) :: u32) < int (BLOOMFILTER_WIDTH cfg)" for h :: u32
  proof -
    have "uint (of_nat (BLOOMFILTER_WIDTH cfg) :: u32) = int (BLOOMFILTER_WIDTH cfg)"
      using w by (simp add: unsigned_of_nat take_bit_nat_eq_self)
    then show ?thesis using w by (simp add: uint_mod)
  qed
  show "length (get_hashes cfg junk ft) = NUM_BLOOMFILTERS"
    using assms(2) by (auto simp: get_hashes_def mk_ipv4_hash_def mk_ipv6_hash_def Let_def NUM_BLOOMFILTERS_def)
  show "\<And>i. i < NUM_BLOOMFILTERS \<Longrightarrow> 0 \<le> get_hashes cfg junk ft ! i \<and> get_hashes cfg junk ft ! i < int (BLOOMFILTER_WIDTH cfg)"
    using assms(2) m by (auto simp: get_hashes_def mk_ipv4_hash_def mk_ipv6_hash_def Let_def NUM_BLOOMFILTERS_def)
qed

section \<open>The update loops\<close>

text \<open>The indices of a command: the hash where the predicate holds, else what was there.\<close>

definition cmd_indices :: "(nat \<Rightarrow> bool) \<Rightarrow> int list \<Rightarrow> int list \<Rightarrow> int list" where
  "cmd_indices P indices cmd = map (\<lambda>i. if P i then indices ! i else cmd ! i) [0..<length cmd]"

lemma cmd_indices_update:
  "i < length cmd \<Longrightarrow> \<not> P i \<Longrightarrow>
     cmd_indices P indices (cmd[i := indices ! i]) = cmd_indices (\<lambda>j. P j \<or> j = i) indices cmd"
  by (auto simp: cmd_indices_def nth_list_update)

lemma cmd_indices_update_replicate:
  "i < n \<Longrightarrow> length cmd = n \<Longrightarrow> \<not> P i \<Longrightarrow>
     cmd_indices P (replicate n x) (cmd[i := x]) = cmd_indices (\<lambda>j. P j \<or> j = i) (replicate n x) cmd"
  using cmd_indices_update [of i cmd P "replicate n x"] by simp

lemma cmd_indices_cong:
  "(\<And>i. i < length cmd \<Longrightarrow> P i \<longleftrightarrow> Q i) \<Longrightarrow> cmd_indices P indices cmd = cmd_indices Q indices cmd"
  by (auto simp: cmd_indices_def)

lemma set_irrelevant_loop_ok:
  assumes "bf_ok cfg bf" "length indices = NUM_BLOOMFILTERS" "length cmd = NUM_BLOOMFILTERS" "distinct is"
    and "\<And>i. i \<in> set is \<Longrightarrow> in_filter cfg pipe i (indices ! i)"
  shows "\<exists>bf'. set_irrelevant_loop pipe indices is (bf, cmd, send) =
      Some (bf', cmd_indices (\<lambda>i. i \<in> set is \<and> counter bf pipe i (indices ! i) = 0) indices cmd,
        send \<or> (\<exists>i \<in> set is. counter bf pipe i (indices ! i) = 0)) \<and> bf_ok cfg bf' \<and>
    (\<forall>p i x. in_filter cfg p i x \<longrightarrow> counter bf' p i x =
       counter bf p i x + (if p = pipe \<and> i \<in> set is \<and> x = indices ! i then 1 else 0))"
  using assms
proof (induction "is" arbitrary: bf cmd send)
  case Nil
  have "cmd_indices (\<lambda>i. False) indices cmd = cmd" by (simp add: cmd_indices_def map_nth)
  with Nil show ?case by simp
next
  case (Cons i "is")
  let ?x = "indices ! i" and ?e = "counter bf pipe i (indices ! i)"
  have f: "in_filter cfg pipe i ?x" "i < NUM_BLOOMFILTERS" using Cons.prems(5) [of i] by (auto simp: in_filter_def)
  from bf_set_ok [OF Cons.prems(1) f(1), of "?e + 1"] obtain bf1 where
    1: "bf_set bf pipe i ?x (?e + 1) = Some bf1" "bf_ok cfg bf1"
    and c: "\<And>p' i' x'. in_filter cfg p' i' x' \<Longrightarrow>
       counter bf1 p' i' x' = (if p' = pipe \<and> i' = i \<and> x' = ?x then ?e + 1 else counter bf p' i' x')" by blast
  let ?cmd = "if ?e = 0 then cmd[i := ?x] else cmd" and ?send = "send \<or> ?e = 0"
  have same: "counter bf1 pipe j (indices ! j) = counter bf pipe j (indices ! j)" if "j \<in> set is" for j
    using c [OF Cons.prems(5) [of j]] that Cons.prems(4) by auto
  have rest: "length ?cmd = NUM_BLOOMFILTERS" "distinct is"
    "\<And>j. j \<in> set is \<Longrightarrow> in_filter cfg pipe j (indices ! j)" using Cons.prems by simp_all
  from Cons.IH [OF 1(2) Cons.prems(2) rest, of ?send] obtain bf2 where
    2: "set_irrelevant_loop pipe indices is (bf1, ?cmd, ?send) =
        Some (bf2, cmd_indices (\<lambda>i. i \<in> set is \<and> counter bf1 pipe i (indices ! i) = 0) indices ?cmd,
          ?send \<or> (\<exists>i \<in> set is. counter bf1 pipe i (indices ! i) = 0))" "bf_ok cfg bf2"
      "\<And>p i x. in_filter cfg p i x \<Longrightarrow> counter bf2 p i x =
        counter bf1 p i x + (if p = pipe \<and> i \<in> set is \<and> x = indices ! i then 1 else 0)" by blast
  have "cmd_indices (\<lambda>i. i \<in> set is \<and> counter bf1 pipe i (indices ! i) = 0) indices ?cmd =
      cmd_indices (\<lambda>j. j \<in> set (i # is) \<and> counter bf pipe j (indices ! j) = 0) indices cmd"
    using same Cons.prems(3,4) f(2)
    by (auto simp: cmd_indices_update intro!: cmd_indices_cong)
  moreover have "set_irrelevant_loop pipe indices (i # is) (bf, cmd, send) =
      set_irrelevant_loop pipe indices is (bf1, ?cmd, ?send)"
    using 1(1) f Cons.prems(2) bf_get_ok [OF Cons.prems(1) f(1)] by (simp add: aget_def)
  moreover have "counter bf2 p k x = counter bf p k x + (if p = pipe \<and> k \<in> set (i # is) \<and> x = indices ! k then 1 else 0)"
    if "in_filter cfg p k x" for p k x
    using 2(3) [OF that] c [OF that] Cons.prems(4) by auto
  ultimately show ?case using 2(1,2) same by auto
qed

lemma set_relevant_loop_ok:
  assumes "bf_ok cfg bf" "length indices = NUM_BLOOMFILTERS" "length cmd = NUM_BLOOMFILTERS" "distinct is"
    and "\<And>i. i \<in> set is \<Longrightarrow> in_filter cfg pipe i (indices ! i)"
  shows "set_relevant_loop pipe indices is bf (cmd, send) =
      Some (cmd_indices (\<lambda>i. i \<in> set is \<and> counter bf pipe i (indices ! i) = 0) indices cmd,
        send \<or> (\<exists>i \<in> set is. counter bf pipe i (indices ! i) = 0))"
  using assms
proof (induction "is" arbitrary: cmd send)
  case Nil
  have "cmd_indices (\<lambda>i. False) indices cmd = cmd" by (simp add: cmd_indices_def map_nth)
  with Nil show ?case by simp
next
  case (Cons i "is")
  let ?e = "counter bf pipe i (indices ! i)"
  have f: "in_filter cfg pipe i (indices ! i)" "i < NUM_BLOOMFILTERS"
    using Cons.prems(5) [of i] by (auto simp: in_filter_def)
  let ?cmd = "if ?e = 0 then cmd[i := indices ! i] else cmd" and ?send = "send \<or> ?e = 0"
  have rest: "length ?cmd = NUM_BLOOMFILTERS" "distinct is"
    "\<And>j. j \<in> set is \<Longrightarrow> in_filter cfg pipe j (indices ! j)" using Cons.prems by simp_all
  have "cmd_indices (\<lambda>i. i \<in> set is \<and> counter bf pipe i (indices ! i) = 0) indices ?cmd =
      cmd_indices (\<lambda>j. j \<in> set (i # is) \<and> counter bf pipe j (indices ! j) = 0) indices cmd"
    using Cons.prems(3,4) f(2) by (auto simp: cmd_indices_update intro!: cmd_indices_cong)
  with Cons.IH [OF Cons.prems(1,2) rest, of ?send] f Cons.prems(2) bf_get_ok [OF Cons.prems(1) f(1)]
  show ?case by (auto simp: aget_def)
qed

text \<open>One row of the maintenance: picked counters that are not zero go down by one.\<close>

lemma maintenance_filters_ok:
  assumes "bf_ok cfg bf" "length cmd = NUM_BLOOMFILTERS" "distinct is"
    and "\<And>i. i \<in> set is \<Longrightarrow> in_filter cfg pipe i index"
  shows "\<exists>bf'. maintenance_filters rnd pipe index is (bf, cmd, send) =
      Some (bf', cmd_indices (\<lambda>i. i \<in> set is \<and> rnd i \<and> counter bf pipe i index = 1) (replicate NUM_BLOOMFILTERS index) cmd,
        send \<or> (\<exists>i \<in> set is. rnd i \<and> counter bf pipe i index = 1)) \<and> bf_ok cfg bf' \<and>
    (\<forall>p i x. in_filter cfg p i x \<longrightarrow> counter bf' p i x = counter bf p i x -
       (if p = pipe \<and> i \<in> set is \<and> x = index \<and> rnd i \<and> counter bf p i x \<noteq> 0 then 1 else 0))"
  using assms
proof (induction "is" arbitrary: bf cmd send)
  case Nil
  have "cmd_indices (\<lambda>i. False) (replicate NUM_BLOOMFILTERS index) cmd = cmd" by (simp add: cmd_indices_def map_nth)
  with Nil show ?case by simp
next
  case (Cons i "is")
  let ?e = "counter bf pipe i index" and ?R = "replicate NUM_BLOOMFILTERS index"
  have f: "in_filter cfg pipe i index" "i < NUM_BLOOMFILTERS" using Cons.prems(4) [of i] by (auto simp: in_filter_def)
  note get = bf_get_ok [OF Cons.prems(1) f(1)]
  have rest: "distinct is" "\<And>j. j \<in> set is \<Longrightarrow> in_filter cfg pipe j index" using Cons.prems by simp_all
  show ?case
  proof (cases "rnd i \<and> ?e \<noteq> 0")
    case False
    have "cmd_indices (\<lambda>i. i \<in> set is \<and> rnd i \<and> counter bf pipe i index = 1) ?R cmd =
        cmd_indices (\<lambda>j. j \<in> set (i # is) \<and> rnd j \<and> counter bf pipe j index = 1) ?R cmd"
      using False by (intro cmd_indices_cong) auto
    with Cons.IH [OF Cons.prems(1,2) rest, of send] False get show ?thesis by auto
  next
    case True
    from bf_set_ok [OF Cons.prems(1) f(1), of "?e - 1"] obtain bf1 where
      1: "bf_set bf pipe i index (?e - 1) = Some bf1" "bf_ok cfg bf1"
      and c: "\<And>p' i' x'. in_filter cfg p' i' x' \<Longrightarrow>
        counter bf1 p' i' x' = (if p' = pipe \<and> i' = i \<and> x' = index then ?e - 1 else counter bf p' i' x')" by blast
    let ?cmd = "if ?e = 1 then cmd[i := index] else cmd" and ?send = "send \<or> ?e = 1"
    have gt: "?e > 1 \<longleftrightarrow> ?e \<noteq> 1"
      using True by (simp add: word_less_nat_alt unat_eq_0 [symmetric] word_unat_eq_iff) linarith
    have same: "counter bf1 pipe j index = counter bf pipe j index" if "j \<in> set is" for j
      using c [OF rest(2) [OF that]] that Cons.prems(3) by auto
    have len: "length ?cmd = NUM_BLOOMFILTERS" using Cons.prems(2) by simp
    from Cons.IH [OF 1(2) len rest, of ?send] obtain bf2 where
      2: "maintenance_filters rnd pipe index is (bf1, ?cmd, ?send) =
          Some (bf2, cmd_indices (\<lambda>i. i \<in> set is \<and> rnd i \<and> counter bf1 pipe i index = 1) ?R ?cmd,
            ?send \<or> (\<exists>i \<in> set is. rnd i \<and> counter bf1 pipe i index = 1))" "bf_ok cfg bf2"
        "\<And>p i x. in_filter cfg p i x \<Longrightarrow> counter bf2 p i x = counter bf1 p i x -
          (if p = pipe \<and> i \<in> set is \<and> x = index \<and> rnd i \<and> counter bf1 p i x \<noteq> 0 then 1 else 0)" by blast
    have "cmd_indices (\<lambda>i. i \<in> set is \<and> rnd i \<and> counter bf1 pipe i index = 1) ?R ?cmd =
        cmd_indices (\<lambda>j. j \<in> set (i # is) \<and> rnd j \<and> counter bf pipe j index = 1) ?R cmd"
      using same Cons.prems(2,3) f(2) True
      by (auto simp: cmd_indices_update_replicate intro!: cmd_indices_cong)
    moreover have "maintenance_filters rnd pipe index (i # is) (bf, cmd, send) =
        maintenance_filters rnd pipe index is (bf1, ?cmd, ?send)"
      using 1(1) True get gt by simp
    moreover have "counter bf2 p k x = counter bf p k x -
        (if p = pipe \<and> k \<in> set (i # is) \<and> x = index \<and> rnd k \<and> counter bf p k x \<noteq> 0 then 1 else 0)"
      if "in_filter cfg p k x" for p k x
      using 2(3) [OF that] c [OF that] Cons.prems(3) True by auto
    ultimately show ?thesis using 2(1,2) same True by auto
  qed
qed

lemma undo_filters_ok:
  assumes "bf_ok cfg bf" "length cmd = NUM_BLOOMFILTERS" "distinct is"
    and "\<And>i. i \<in> set is \<Longrightarrow> in_filter cfg pipe i (cmd ! i)"
  shows "\<exists>bf'. undo_filters pipe cmd is bf = Some bf' \<and> bf_ok cfg bf' \<and>
    (\<forall>p i x. in_filter cfg p i x \<longrightarrow> counter bf' p i x = counter bf p i x +
       (if p = pipe \<and> i \<in> set is \<and> x = cmd ! i then 1 else 0))"
  using assms
proof (induction "is" arbitrary: bf)
  case (Cons i "is")
  have f: "in_filter cfg pipe i (cmd ! i)" "i < NUM_BLOOMFILTERS" using Cons.prems(4) [of i] by (auto simp: in_filter_def)
  from bf_set_ok [OF Cons.prems(1) f(1), of "counter bf pipe i (cmd ! i) + 1"] obtain bf1 where
    1: "bf_set bf pipe i (cmd ! i) (counter bf pipe i (cmd ! i) + 1) = Some bf1" "bf_ok cfg bf1"
    and c: "\<And>p' i' x'. in_filter cfg p' i' x' \<Longrightarrow> counter bf1 p' i' x' =
      (if p' = pipe \<and> i' = i \<and> x' = cmd ! i then counter bf pipe i (cmd ! i) + 1 else counter bf p' i' x')" by blast
  have rest: "distinct is" "\<And>j. j \<in> set is \<Longrightarrow> in_filter cfg pipe j (cmd ! j)" using Cons.prems by simp_all
  from Cons.IH [OF 1(2) Cons.prems(2) rest] obtain bf2 where
    2: "undo_filters pipe cmd is bf1 = Some bf2" "bf_ok cfg bf2"
      "\<And>p i x. in_filter cfg p i x \<Longrightarrow> counter bf2 p i x = counter bf1 p i x +
        (if p = pipe \<and> i \<in> set is \<and> x = cmd ! i then 1 else 0)" by blast
  have "counter bf2 p k x = counter bf p k x + (if p = pipe \<and> k \<in> set (i # is) \<and> x = cmd ! k then 1 else 0)"
    if "in_filter cfg p k x" for p k x
    using 2(3) [OF that] c [OF that] Cons.prems(3) by auto
  moreover have "undo_filters pipe cmd (i # is) bf = undo_filters pipe cmd is bf1"
    using 1(1) f Cons.prems(2) bf_get_ok [OF Cons.prems(1) f(1)] by (simp add: aget_def)
  ultimately show ?case using 2(1,2) by auto
qed simp

section \<open>One maintenance step\<close>

text \<open>Row \<open>index\<close> of \<open>pipe\<close> is hit when a picked counter drops to zero.\<close>

definition row_hit :: "bloom_filter_t \<Rightarrow> (nat \<Rightarrow> bool) \<Rightarrow> int \<Rightarrow> int \<Rightarrow> bool" where
  "row_hit bf rnd pipe index \<longleftrightarrow> (\<exists>i < NUM_BLOOMFILTERS. rnd i \<and> counter bf pipe i index = 1)"

definition row_dec :: "bloom_filter_t \<Rightarrow> (nat \<Rightarrow> bool) \<Rightarrow> int \<Rightarrow> int \<Rightarrow> int \<Rightarrow> nat \<Rightarrow> int \<Rightarrow> u16" where
  "row_dec bf rnd pipe index p i x =
     (if p = pipe \<and> x = index \<and> rnd i \<and> counter bf p i x \<noteq> 0 then 1 else 0)"

definition row_cmd :: "bloom_filter_t \<Rightarrow> (nat \<Rightarrow> bool) \<Rightarrow> int \<Rightarrow> int \<Rightarrow> int list \<Rightarrow> int list" where
  "row_cmd bf rnd pipe index cmd =
     cmd_indices (\<lambda>i. rnd i \<and> counter bf pipe i index = 1) (replicate NUM_BLOOMFILTERS index) cmd"

definition cmd_ok :: "config \<Rightarrow> int list \<Rightarrow> bool" where
  [inv_defs]: "cmd_ok cfg cmd \<longleftrightarrow> length cmd = NUM_BLOOMFILTERS \<and>
     (\<forall>i < NUM_BLOOMFILTERS. 0 \<le> cmd ! i \<and> cmd ! i < int (BLOOMFILTER_WIDTH cfg))"

lemma row_cmd_nth:
  "length cmd = NUM_BLOOMFILTERS \<Longrightarrow> i < NUM_BLOOMFILTERS \<Longrightarrow>
     row_cmd bf rnd pipe index cmd ! i = (if rnd i \<and> counter bf pipe i index = 1 then index else cmd ! i)"
  by (simp add: row_cmd_def cmd_indices_def)

lemma row_cmd_ok:
  "cmd_ok cfg cmd \<Longrightarrow> 0 \<le> index \<Longrightarrow> index < int (BLOOMFILTER_WIDTH cfg) \<Longrightarrow> cmd_ok cfg (row_cmd bf rnd pipe index cmd)"
  by (auto simp: cmd_ok_def row_cmd_nth) (simp add: row_cmd_def cmd_indices_def)

lemma maintenance_row:
  assumes "bf_ok cfg bf" "cmd_ok cfg cmd" "in_filter cfg pipe 0 index"
  shows "\<exists>bf'. maintenance_filters rnd pipe index [0..<NUM_BLOOMFILTERS] (bf, cmd, False) =
      Some (bf', row_cmd bf rnd pipe index cmd, row_hit bf rnd pipe index) \<and> bf_ok cfg bf' \<and>
    (\<forall>p i x. in_filter cfg p i x \<longrightarrow> counter bf' p i x = counter bf p i x - row_dec bf rnd pipe index p i x)"
proof -
  have f: "in_filter cfg pipe i index" if "i \<in> set [0..<NUM_BLOOMFILTERS]" for i
    using assms(3) that by (simp add: in_filter_def)
  have l: "length cmd = NUM_BLOOMFILTERS" using assms(2) by (simp add: cmd_ok_def)
  from maintenance_filters_ok [OF assms(1) l distinct_upt f, where rnd = rnd and send = False] obtain bf' where
    r: "maintenance_filters rnd pipe index [0..<NUM_BLOOMFILTERS] (bf, cmd, False) =
      Some (bf', cmd_indices (\<lambda>i. i \<in> set [0..<NUM_BLOOMFILTERS] \<and> rnd i \<and> counter bf pipe i index = 1)
        (replicate NUM_BLOOMFILTERS index) cmd,
        False \<or> (\<exists>i \<in> set [0..<NUM_BLOOMFILTERS]. rnd i \<and> counter bf pipe i index = 1))" "bf_ok cfg bf'"
    "\<And>p i x. in_filter cfg p i x \<Longrightarrow> counter bf' p i x = counter bf p i x -
       (if p = pipe \<and> i \<in> set [0..<NUM_BLOOMFILTERS] \<and> x = index \<and> rnd i \<and> counter bf p i x \<noteq> 0 then 1 else 0)" by blast
  have "cmd_indices (\<lambda>i. i \<in> set [0..<NUM_BLOOMFILTERS] \<and> rnd i \<and> counter bf pipe i index = 1)
      (replicate NUM_BLOOMFILTERS index) cmd = row_cmd bf rnd pipe index cmd"
    unfolding row_cmd_def using l by (intro cmd_indices_cong) auto
  moreover have "(False \<or> (\<exists>i \<in> set [0..<NUM_BLOOMFILTERS]. rnd i \<and> counter bf pipe i index = 1)) =
      row_hit bf rnd pipe index" by (auto simp: row_hit_def)
  moreover have "counter bf' p i x = counter bf p i x - row_dec bf rnd pipe index p i x" if "in_filter cfg p i x" for p i x
    using r(3) [OF that] that by (simp add: row_dec_def in_filter_def)
  ultimately show ?thesis using r(1,2) by auto
qed

lemma maintenance_index_ok:
  assumes "bf_ok cfg bf" "cmd_ok cfg cmd" "in_filter cfg pipe 0 index" "rb_inv (DATAPLANE_RINGBUFFER_SIZE cfg) ring"
  shows "\<exists>bf' ring'. maintenance_index cfg rnd pipe index (bf, cmd, ring) =
      Some (bf', row_cmd bf rnd pipe index cmd, ring') \<and> bf_ok cfg bf' \<and> cmd_ok cfg (row_cmd bf rnd pipe index cmd) \<and>
    rb_inv (DATAPLANE_RINGBUFFER_SIZE cfg) ring' \<and>
    rb_items (DATAPLANE_RINGBUFFER_SIZE cfg) ring' = (if row_hit bf rnd pipe index
      then q_accept (DATAPLANE_RINGBUFFER_SIZE cfg)
        (DP_REMOVE_BLOOM_FILTER (row_cmd bf rnd pipe index cmd) pipe) (rb_items (DATAPLANE_RINGBUFFER_SIZE cfg) ring)
      else rb_items (DATAPLANE_RINGBUFFER_SIZE cfg) ring) \<and>
    (\<forall>p i x. in_filter cfg p i x \<longrightarrow> counter bf' p i x = counter bf p i x - row_dec bf rnd pipe index p i x +
      (if row_hit bf rnd pipe index \<and> length (rb_items (DATAPLANE_RINGBUFFER_SIZE cfg) ring) = DATAPLANE_RINGBUFFER_SIZE cfg
         \<and> p = pipe \<and> x = row_cmd bf rnd pipe index cmd ! i then 1 else 0))"
proof -
  let ?sz = "DATAPLANE_RINGBUFFER_SIZE cfg" and ?cmd = "row_cmd bf rnd pipe index cmd"
  from maintenance_row [OF assms(1-3), of rnd] obtain bf1 where
    1: "maintenance_filters rnd pipe index [0..<NUM_BLOOMFILTERS] (bf, cmd, False) = Some (bf1, ?cmd, row_hit bf rnd pipe index)"
      "bf_ok cfg bf1" and c: "\<And>p i x. in_filter cfg p i x \<Longrightarrow>
        counter bf1 p i x = counter bf p i x - row_dec bf rnd pipe index p i x" by blast
  have ok: "cmd_ok cfg ?cmd" using row_cmd_ok [OF assms(2)] assms(3) by (simp add: in_filter_def)
  from ring.put_accept [OF assms(4), of "DP_REMOVE_BLOOM_FILTER ?cmd pipe"] obtain ring' where
    put: "ringbuffer_put ?sz (DP_REMOVE_BLOOM_FILTER ?cmd pipe) ring =
        Some (if length (rb_items ?sz ring) < ?sz then 0 else 1, ring')" "rb_inv ?sz ring'"
      "rb_items ?sz ring' = q_accept ?sz (DP_REMOVE_BLOOM_FILTER ?cmd pipe) (rb_items ?sz ring)" by blast
  have f: "in_filter cfg pipe i (?cmd ! i)" if "i \<in> set [0..<NUM_BLOOMFILTERS]" for i
    using that ok assms(3) by (auto simp: in_filter_def cmd_ok_def)
  have l: "length ?cmd = NUM_BLOOMFILTERS" using ok by (simp add: cmd_ok_def)
  from undo_filters_ok [OF 1(2) l distinct_upt f] obtain bf2 where
    2: "undo_filters pipe ?cmd [0..<NUM_BLOOMFILTERS] bf1 = Some bf2" "bf_ok cfg bf2"
      "\<And>p i x. in_filter cfg p i x \<Longrightarrow> counter bf2 p i x = counter bf1 p i x +
        (if p = pipe \<and> i \<in> set [0..<NUM_BLOOMFILTERS] \<and> x = ?cmd ! i then 1 else 0)" by blast
  have le: "length (rb_items ?sz ring) \<le> ?sz" using ring.items_le [OF assms(4)] .
  consider (no) "\<not> row_hit bf rnd pipe index" | (room) "row_hit bf rnd pipe index" "length (rb_items ?sz ring) < ?sz"
    | (full) "row_hit bf rnd pipe index" "length (rb_items ?sz ring) = ?sz" using le by linarith
  then show ?thesis
  proof cases
    case no
    then show ?thesis using 1 c ok assms(4) by (simp add: maintenance_index_def)
  next
    case room
    then show ?thesis using 1 c ok put by (simp add: maintenance_index_def)
  next
    case full
    have "counter bf2 p i x = counter bf p i x - row_dec bf rnd pipe index p i x + (if p = pipe \<and> x = ?cmd ! i then 1 else 0)"
      if "in_filter cfg p i x" for p i x
      using 2(3) [OF that] c [OF that] that by (simp add: in_filter_def)
    with full show ?thesis using 1(1) 2(1,2) ok put by (simp add: maintenance_index_def)
  qed
qed

lemma q_accept_length: "length (q_accept cap x xs) \<le> Suc (length xs)" "length xs \<le> length (q_accept cap x xs)"
  by (simp_all add: q_accept_def)

text \<open>
  A pass over distinct rows: it returns, and if the ring has room for one command per hit row, every
  picked counter that is not zero is one lower, and nothing else changes.
\<close>

lemma maintenance_run_ok:
  assumes "bf_ok cfg bf" "cmd_ok cfg cmd" "rb_inv (DATAPLANE_RINGBUFFER_SIZE cfg) ring" "distinct ps"
    and "\<And>p x. (p, x) \<in> set ps \<Longrightarrow> in_filter cfg p 0 x"
  shows "\<exists>bf' cmd' ring'. maintenance_run cfg rnd ps (bf, cmd, ring) = Some (bf', cmd', ring') \<and>
    bf_ok cfg bf' \<and> cmd_ok cfg cmd' \<and> rb_inv (DATAPLANE_RINGBUFFER_SIZE cfg) ring' \<and>
    (length (rb_items (DATAPLANE_RINGBUFFER_SIZE cfg) ring) + length (filter (\<lambda>(p, x). row_hit bf (rnd p x) p x) ps)
       \<le> DATAPLANE_RINGBUFFER_SIZE cfg \<longrightarrow>
     (\<forall>p i x. in_filter cfg p i x \<longrightarrow> counter bf' p i x = counter bf p i x -
        (if (p, x) \<in> set ps \<and> rnd p x i \<and> counter bf p i x \<noteq> 0 then 1 else 0)))"
  using assms
proof (induction ps arbitrary: bf cmd ring)
  case (Cons px ps)
  obtain pipe index where px: "px = (pipe, index)" by (cases px)
  let ?sz = "DATAPLANE_RINGBUFFER_SIZE cfg" and ?h = "row_hit bf (rnd pipe index) pipe index"
  have f0: "in_filter cfg pipe 0 index" using Cons.prems(5) [of pipe index] px by simp
  let ?c = "row_cmd bf (rnd pipe index) pipe index cmd"
  from maintenance_index_ok [OF Cons.prems(1,2) f0 Cons.prems(3), of "rnd pipe index"] obtain bf1 ring1 where
    1: "maintenance_index cfg (rnd pipe index) pipe index (bf, cmd, ring) = Some (bf1, ?c, ring1)"
      "bf_ok cfg bf1" "cmd_ok cfg ?c" "rb_inv ?sz ring1"
    and items: "rb_items ?sz ring1 = (if ?h then q_accept ?sz (DP_REMOVE_BLOOM_FILTER ?c pipe) (rb_items ?sz ring)
      else rb_items ?sz ring)"
    and c0: "\<forall>p i x. in_filter cfg p i x \<longrightarrow> counter bf1 p i x =
      counter bf p i x - row_dec bf (rnd pipe index) pipe index p i x +
      (if ?h \<and> length (rb_items ?sz ring) = ?sz \<and> p = pipe \<and> x = ?c ! i then 1 else 0)" by blast
  have len: "length (rb_items ?sz ring1) \<le> length (rb_items ?sz ring) + (if ?h then 1 else 0)"
    using q_accept_length(1) [of ?sz "DP_REMOVE_BLOOM_FILTER ?c pipe" "rb_items ?sz ring"] by (simp add: items)
  have c: "counter bf1 p i x = counter bf p i x - row_dec bf (rnd pipe index) pipe index p i x"
    if "in_filter cfg p i x" "?h \<longrightarrow> length (rb_items ?sz ring) < ?sz" for p i x
    using c0 [rule_format, OF that(1)] that(2) by auto
  have rest: "distinct ps" "\<And>p x. (p, x) \<in> set ps \<Longrightarrow> in_filter cfg p 0 x" using Cons.prems by simp_all
  from Cons.IH [OF 1(2,3,4) rest] obtain bf' cmd' ring' where
    2: "maintenance_run cfg rnd ps (bf1, ?c, ring1) = Some (bf', cmd', ring')" "bf_ok cfg bf'" "cmd_ok cfg cmd'"
      "rb_inv ?sz ring'" and
    e: "length (rb_items ?sz ring1) + length (filter (\<lambda>(p, x). row_hit bf1 (rnd p x) p x) ps) \<le> ?sz \<Longrightarrow>
      (\<forall>p i x. in_filter cfg p i x \<longrightarrow> counter bf' p i x = counter bf1 p i x -
        (if (p, x) \<in> set ps \<and> rnd p x i \<and> counter bf1 p i x \<noteq> 0 then 1 else 0))" by blast
  have "counter bf' p i x = counter bf p i x - (if (p, x) \<in> set (px # ps) \<and> rnd p x i \<and> counter bf p i x \<noteq> 0 then 1 else 0)"
    if room: "length (rb_items ?sz ring) + length (filter (\<lambda>(p, x). row_hit bf (rnd p x) p x) (px # ps)) \<le> ?sz"
      and "in_filter cfg p i x" for p i x
  proof -
    have hr: "?h \<longrightarrow> length (rb_items ?sz ring) < ?sz" using room px by auto
    have other: "counter bf1 q j y = counter bf q j y" if "(q, y) \<in> set ps" "in_filter cfg q j y" for q j y
      using c [OF that(2) hr] that Cons.prems(4) px by (auto simp: row_dec_def)
    have "row_hit bf1 (rnd q y) q y = row_hit bf (rnd q y) q y" if "(q, y) \<in> set ps" for q y
      using other [OF that] rest(2) [OF that] by (auto simp: row_hit_def in_filter_def)
    then have "filter (\<lambda>(p, x). row_hit bf1 (rnd p x) p x) ps = filter (\<lambda>(p, x). row_hit bf (rnd p x) p x) ps"
      by (intro filter_cong) auto
    then have "length (rb_items ?sz ring1) + length (filter (\<lambda>(p, x). row_hit bf1 (rnd p x) p x) ps) \<le> ?sz"
      using room len px by (auto split: if_splits)
    from e [OF this] that(2) have "counter bf' p i x = counter bf1 p i x -
        (if (p, x) \<in> set ps \<and> rnd p x i \<and> counter bf1 p i x \<noteq> 0 then 1 else 0)" by blast
    with c [OF that(2) hr] other [of p x i] that(2) Cons.prems(4) px show ?thesis by (auto simp: row_dec_def)
  qed
  then show ?case using 1(1) 2 px by auto
qed simp

lemma maintenance_order_eq:
  "maintenance_order cfg = map (map_prod int int) (List.product [0..<NUM_PIPES] [0..<BLOOMFILTER_WIDTH cfg])"
  by (simp add: maintenance_order_def product_concat_map map_concat comp_def)

lemma distinct_maintenance_order: "distinct (maintenance_order cfg)"
  by (simp add: maintenance_order_eq distinct_map distinct_product inj_on_def)

lemma in_maintenance_order: "i < NUM_BLOOMFILTERS \<Longrightarrow> (p, x) \<in> set (maintenance_order cfg) \<longleftrightarrow> in_filter cfg p i x"
proof
  assume "i < NUM_BLOOMFILTERS" "in_filter cfg p i x"
  then have "(p, x) = map_prod int int (nat p, nat x)" "nat p < NUM_PIPES" "nat x < BLOOMFILTER_WIDTH cfg"
    by (auto simp: in_filter_def)
  then show "(p, x) \<in> set (maintenance_order cfg)" by (auto simp: maintenance_order_eq intro!: image_eqI)
qed (auto simp: maintenance_order_eq in_filter_def)

section \<open>The two updates\<close>

text \<open>A packet of one of the switch's 512 device ports and of a known protocol.\<close>

definition bf_flow_ok :: "five_tuple_t \<Rightarrow> bool" where
  "bf_flow_ok ft \<longleftrightarrow> uint (dev_port ft) < 512 \<and> l3_proto (ft_h ft) \<in> {L3_IPV4, L3_IPV6}"

abbreviation ft_pipe :: "five_tuple_t \<Rightarrow> int" where
  "ft_pipe ft \<equiv> dev_port_to_pipe (uint (dev_port ft))"

definition bf_cmd :: "config \<Rightarrow> int list \<Rightarrow> five_tuple_t \<Rightarrow> bloom_filter_t \<Rightarrow> int list" where
  "bf_cmd cfg junk ft bf = map (\<lambda>i. let h = get_hashes cfg junk ft ! i
     in if counter bf (ft_pipe ft) i h = 0 then h else 0) [0..<NUM_BLOOMFILTERS]"

definition bf_send :: "config \<Rightarrow> int list \<Rightarrow> five_tuple_t \<Rightarrow> bloom_filter_t \<Rightarrow> bool" where
  "bf_send cfg junk ft bf \<longleftrightarrow>
     (\<exists>i < NUM_BLOOMFILTERS. counter bf (ft_pipe ft) i (get_hashes cfg junk ft ! i) = 0)"

lemma bf_flow_in_filter:
  assumes "cfg_ok cfg" "bf_flow_ok ft" "i < NUM_BLOOMFILTERS"
  shows "in_filter cfg (ft_pipe ft) i (get_hashes cfg junk ft ! i)"
  using get_hashes_ok(2) [OF assms(1) _ assms(3), of ft junk] dev_port_to_pipe_bounds [of "uint (dev_port ft)"] assms(2,3)
  by (auto simp: in_filter_def bf_flow_ok_def NUM_PIPES_def)

lemma bf_cmd_eq:
  "cmd_indices (\<lambda>i. i \<in> set [0..<NUM_BLOOMFILTERS] \<and> counter bf (ft_pipe ft) i (get_hashes cfg junk ft ! i) = 0)
     (get_hashes cfg junk ft) (replicate NUM_BLOOMFILTERS 0) = bf_cmd cfg junk ft bf"
  unfolding cmd_indices_def bf_cmd_def Let_def by (intro map_cong) auto

lemma bf_send_eq:
  "(False \<or> (\<exists>i \<in> set [0..<NUM_BLOOMFILTERS]. counter bf (ft_pipe ft) i (get_hashes cfg junk ft ! i) = 0)) =
     bf_send cfg junk ft bf"
  by (auto simp: bf_send_def)

lemma set_relevant_ok:
  assumes "cfg_ok cfg" "bf_ok cfg bf" "rb_inv (DATAPLANE_RINGBUFFER_SIZE cfg) ring" "bf_flow_ok ft"
  shows "\<exists>ring'. bloom_filter_set_relevant cfg junk ft (bf, ring) = Some (bf, ring') \<and>
    rb_inv (DATAPLANE_RINGBUFFER_SIZE cfg) ring' \<and>
    rb_items (DATAPLANE_RINGBUFFER_SIZE cfg) ring' = (if bf_send cfg junk ft bf
      then q_accept (DATAPLANE_RINGBUFFER_SIZE cfg) (DP_REMOVE_BLOOM_FILTER (bf_cmd cfg junk ft bf) (ft_pipe ft))
        (rb_items (DATAPLANE_RINGBUFFER_SIZE cfg) ring)
      else rb_items (DATAPLANE_RINGBUFFER_SIZE cfg) ring)"
proof -
  have l: "length (get_hashes cfg junk ft) = NUM_BLOOMFILTERS" "length (replicate NUM_BLOOMFILTERS 0 :: int list) = NUM_BLOOMFILTERS"
    using get_hashes_ok(1) [OF assms(1)] assms(4) by (auto simp: bf_flow_ok_def NUM_BLOOMFILTERS_def)
  have f: "in_filter cfg (ft_pipe ft) i (get_hashes cfg junk ft ! i)" if "i \<in> set [0..<NUM_BLOOMFILTERS]" for i
    using bf_flow_in_filter [OF assms(1,4)] that by simp
  have loop: "set_relevant_loop (ft_pipe ft) (get_hashes cfg junk ft) [0..<NUM_BLOOMFILTERS] bf
      (replicate NUM_BLOOMFILTERS 0, False) = Some (bf_cmd cfg junk ft bf, bf_send cfg junk ft bf)"
    using set_relevant_loop_ok [OF assms(2) l distinct_upt [of 0 NUM_BLOOMFILTERS] f, where send = False]
    unfolding bf_cmd_eq bf_send_eq .
  from ring.put_accept [OF assms(3), of "DP_REMOVE_BLOOM_FILTER (bf_cmd cfg junk ft bf) (ft_pipe ft)"] loop assms(3)
  show ?thesis by (auto simp: bloom_filter_set_relevant_def Let_def)
qed

text \<open>
  Marking a flow irrelevant adds one (modulo \<open>2^16\<close>) to exactly the four counters its hashes
  address and leaves every other counter as it is. A command goes to the data plane exactly
  when one of the four counters was zero, and it names the hash for each such counter; for the others
  the index in the command is 0, which the data plane cannot tell from a real index.
\<close>

lemma set_irrelevant_ok:
  assumes "cfg_ok cfg" "bf_ok cfg bf" "rb_inv (DATAPLANE_RINGBUFFER_SIZE cfg) ring" "bf_flow_ok ft"
  shows "\<exists>bf' ring'. bloom_filter_set_irrelevant cfg junk ft (bf, ring) = Some (bf', ring') \<and> bf_ok cfg bf' \<and>
    rb_inv (DATAPLANE_RINGBUFFER_SIZE cfg) ring' \<and>
    (\<forall>p i x. in_filter cfg p i x \<longrightarrow> counter bf' p i x = counter bf p i x +
       (if p = ft_pipe ft \<and> x = get_hashes cfg junk ft ! i then 1 else 0)) \<and>
    rb_items (DATAPLANE_RINGBUFFER_SIZE cfg) ring' = (if bf_send cfg junk ft bf
      then q_accept (DATAPLANE_RINGBUFFER_SIZE cfg) (DP_ADD_BLOOM_FILTER (bf_cmd cfg junk ft bf) (ft_pipe ft))
        (rb_items (DATAPLANE_RINGBUFFER_SIZE cfg) ring)
      else rb_items (DATAPLANE_RINGBUFFER_SIZE cfg) ring)"
proof -
  have l: "length (get_hashes cfg junk ft) = NUM_BLOOMFILTERS" "length (replicate NUM_BLOOMFILTERS 0 :: int list) = NUM_BLOOMFILTERS"
    using get_hashes_ok(1) [OF assms(1)] assms(4) by (auto simp: bf_flow_ok_def NUM_BLOOMFILTERS_def)
  have f: "in_filter cfg (ft_pipe ft) i (get_hashes cfg junk ft ! i)" if "i \<in> set [0..<NUM_BLOOMFILTERS]" for i
    using bf_flow_in_filter [OF assms(1,4)] that by simp
  from set_irrelevant_loop_ok [OF assms(2) l distinct_upt [of 0 NUM_BLOOMFILTERS] f, where send = False, unfolded bf_cmd_eq bf_send_eq]
  obtain bf' where 1: "set_irrelevant_loop (ft_pipe ft) (get_hashes cfg junk ft) [0..<NUM_BLOOMFILTERS]
      (bf, replicate NUM_BLOOMFILTERS 0, False) = Some (bf', bf_cmd cfg junk ft bf, bf_send cfg junk ft bf)" "bf_ok cfg bf'"
    "\<And>p i x. in_filter cfg p i x \<Longrightarrow> counter bf' p i x = counter bf p i x +
      (if p = ft_pipe ft \<and> i \<in> set [0..<NUM_BLOOMFILTERS] \<and> x = get_hashes cfg junk ft ! i then 1 else 0)" by blast
  have "counter bf' p i x = counter bf p i x + (if p = ft_pipe ft \<and> x = get_hashes cfg junk ft ! i then 1 else 0)"
    if "in_filter cfg p i x" for p i x
    using 1(3) [OF that] that by (simp add: in_filter_def)
  with ring.put_accept [OF assms(3), of "DP_ADD_BLOOM_FILTER (bf_cmd cfg junk ft bf) (ft_pipe ft)"] 1(1,2) assms(3)
  show ?thesis by (auto simp: bloom_filter_set_irrelevant_def Let_def)
qed

section \<open>Properties\<close>

definition example_udp :: five_tuple_t where
  "example_udp = zero_five_tuple\<lparr> ft_h := (ft_h zero_five_tuple)\<lparr> l3_proto := L3_IPV4 \<rparr>, dev_port := 200 \<rparr>"

lemma example_udp_ok: "bf_flow_ok example_udp" "ft_pipe example_udp = 1"
  by (simp_all add: bf_flow_ok_def example_udp_def dev_port_to_pipe_def)

text \<open>
  C25. A maintenance pass returns and keeps the filter, its command and the ring well formed. If the
  ring has room for one command per row in which a counter drops to zero, the pass lowers every
  picked counter that is not zero by one, never below zero, and changes no other counter.
\<close>

theorem bloom_maintenance_pass_correct:
  assumes "bf_ok cfg bf" "cmd_ok cfg cmd" "rb_inv (DATAPLANE_RINGBUFFER_SIZE cfg) ring"
  shows "\<exists>bf' cmd' ring'. bloom_filter_maintenance_pass cfg rnd (bf, cmd, ring) = Some (bf', cmd', ring') \<and>
    bf_ok cfg bf' \<and> cmd_ok cfg cmd' \<and> rb_inv (DATAPLANE_RINGBUFFER_SIZE cfg) ring' \<and>
    (length (rb_items (DATAPLANE_RINGBUFFER_SIZE cfg) ring) + length (filter (\<lambda>(p, x). row_hit bf (rnd p x) p x)
       (maintenance_order cfg)) \<le> DATAPLANE_RINGBUFFER_SIZE cfg \<longrightarrow>
     (\<forall>p i x. in_filter cfg p i x \<longrightarrow>
        counter bf' p i x = counter bf p i x - (if rnd p x i \<and> counter bf p i x \<noteq> 0 then 1 else 0)))"
proof -
  have "in_filter cfg p 0 x" if "(p, x) \<in> set (maintenance_order cfg)" for p x
    using that in_maintenance_order [of 0 p x cfg] by (simp add: NUM_BLOOMFILTERS_def)
  moreover have "in_filter cfg p i x \<Longrightarrow> (p, x) \<in> set (maintenance_order cfg)" for p i x
    using in_maintenance_order [of i p x cfg] by (auto simp: in_filter_def)
  ultimately show ?thesis
    using maintenance_run_ok [OF assms distinct_maintenance_order, of cfg rnd]
    unfolding bloom_filter_maintenance_pass_def by simp
qed

theorem bloom_maintenance_pass_correct_witness:
  "\<exists>bf' cmd' ring'. bloom_filter_maintenance_pass small_config (\<lambda>p x i. i = 0)
      (bloom_filter_init small_config, replicate NUM_BLOOMFILTERS 0, empty_ring 3 (DP_ADD_BLOOM_FILTER [] 0)) = Some (bf', cmd', ring') \<and>
    bf_ok small_config bf' \<and> cmd_ok small_config cmd'"
proof -
  have "cmd_ok small_config (replicate NUM_BLOOMFILTERS 0)"
    by (simp add: cmd_ok_def)
  moreover have "rb_inv (DATAPLANE_RINGBUFFER_SIZE small_config) (empty_ring 3 (DP_ADD_BLOOM_FILTER [] 0))"
    by (simp add: empty_ring_inv)
  ultimately show ?thesis
    using bloom_maintenance_pass_correct [OF bf_ok_init, of small_config "replicate NUM_BLOOMFILTERS 0" _ "\<lambda>p x i. i = 0"] by blast
qed

text \<open>
  C33. When the ring is full, the maintenance means to take back the counters it lowered, but it
  increments all four counters that the command names, and the command still carries indices of
  earlier rows: a counter that was not lowered in this row counts one flow too many afterwards.
\<close>

theorem maintenance_full_ring_overcounts:
  assumes "bf_ok cfg bf" "cmd_ok cfg cmd" "in_filter cfg pipe j index"
    and "rb_inv (DATAPLANE_RINGBUFFER_SIZE cfg) ring"
    and "length (rb_items (DATAPLANE_RINGBUFFER_SIZE cfg) ring) = DATAPLANE_RINGBUFFER_SIZE cfg"
    and "row_hit bf rnd pipe index" "\<not> (rnd j \<and> counter bf pipe j index = 1)" "cmd ! j \<noteq> index"
  shows "\<exists>bf' cmd' ring'. maintenance_index cfg rnd pipe index (bf, cmd, ring) = Some (bf', cmd', ring') \<and>
    counter bf' pipe j (cmd ! j) = counter bf pipe j (cmd ! j) + 1"
proof -
  have f: "in_filter cfg pipe 0 index" "in_filter cfg pipe j (cmd ! j)" "j < NUM_BLOOMFILTERS"
    using assms(2,3) by (auto simp: in_filter_def cmd_ok_def)
  have "row_cmd bf rnd pipe index cmd ! j = cmd ! j"
    using assms(2,7) f(3) by (auto simp: row_cmd_nth cmd_ok_def)
  moreover have "row_dec bf rnd pipe index pipe j (cmd ! j) = 0" using assms(8) by (simp add: row_dec_def)
  ultimately show ?thesis
    using maintenance_index_ok [OF assms(1,2) f(1) assms(4), of rnd] f(2) assms(5,6) by fastforce
qed

theorem maintenance_full_ring_overcounts_witness:
  "\<exists>bf ring bf' cmd' ring'. maintenance_index (small_config\<lparr> DATAPLANE_RINGBUFFER_SIZE := 1 \<rparr>) (\<lambda>i. i = 0) 0 5
      (bf, replicate NUM_BLOOMFILTERS 0, ring) = Some (bf', cmd', ring') \<and>
    counter bf' 0 1 0 = counter bf 0 1 0 + 1"
proof -
  let ?cfg = "small_config\<lparr> DATAPLANE_RINGBUFFER_SIZE := 1 \<rparr>" and ?x = "DP_ADD_BLOOM_FILTER [] 0"
  have f: "in_filter ?cfg 0 i 5" if "i < NUM_BLOOMFILTERS" for i using that by (simp add: in_filter_def NUM_PIPES_def)
  from bf_set_ok [OF bf_ok_init f, of 0 1] obtain bf where bf: "bf_ok ?cfg bf" "counter bf 0 0 5 = 1"
    using f [of 0] by (auto simp: NUM_BLOOMFILTERS_def)
  have "rb_inv 1 (empty_ring 1 ?x)" "length (rb_items 1 (empty_ring 1 ?x)) < 1"
    by (simp_all add: empty_ring_inv del: length_rb_items)
  from ring.put_room [OF this, of ?x] obtain r where r: "rb_inv 1 r" "rb_items 1 r = [?x]"
    unfolding empty_ring_inv(2) by auto
  then have r: "rb_inv (DATAPLANE_RINGBUFFER_SIZE ?cfg) r"
    "length (rb_items (DATAPLANE_RINGBUFFER_SIZE ?cfg) r) = DATAPLANE_RINGBUFFER_SIZE ?cfg"
    by (simp_all del: length_rb_items)
  have "cmd_ok ?cfg (replicate NUM_BLOOMFILTERS 0)" by (simp add: cmd_ok_def)
  moreover have "row_hit bf (\<lambda>i. i = 0) 0 5" using bf(2) by (auto simp: row_hit_def NUM_BLOOMFILTERS_def)
  moreover have "1 < NUM_BLOOMFILTERS" by (simp add: NUM_BLOOMFILTERS_def)
  ultimately have "\<exists>bf' cmd' ring'. maintenance_index ?cfg (\<lambda>i. i = 0) 0 5 (bf, replicate NUM_BLOOMFILTERS 0, r) =
      Some (bf', cmd', ring') \<and> counter bf' 0 1 0 = counter bf 0 1 0 + 1"
    using maintenance_full_ring_overcounts [OF bf(1) _ f r, of "replicate NUM_BLOOMFILTERS 0" 1 "\<lambda>i. i = 0"] by simp
  then show ?thesis by blast
qed

end
