(* ===== verification/Id_Heap.thy ===== *)
theory Id_Heap
  imports Marina_Prelude
begin

text \<open>
  The array heap of \<^verbatim>\<open>datastructures/heap.c\<close>, which \<open>flow_db\<close> uses as the pool of free flow
  and session ids of one pipe. Every array access is checked against the array's real size,
  so a result \<open>Some\<close> also says that the C code stayed inside \<open>data[HEAPSIZE]\<close>.
\<close>

section \<open>The operations\<close>

record heapqueue_t =
  curSize :: nat
  heap_data :: "int list"

definition HEAP_KEY :: "heapqueue_t \<Rightarrow> nat \<Rightarrow> int option" where
  "HEAP_KEY heap i = aget (heap_data heap) (int i)"

definition HEAP_LEFT :: "nat \<Rightarrow> nat" where "HEAP_LEFT i = 2 * i + 1"
definition HEAP_RIGHT :: "nat \<Rightarrow> nat" where "HEAP_RIGHT i = 2 * i + 2"
definition HEAP_PARENT :: "nat \<Rightarrow> nat" where "HEAP_PARENT i = (i - 1) div 2"

definition HEAP_SWAP :: "heapqueue_t \<Rightarrow> nat \<Rightarrow> nat \<Rightarrow> heapqueue_t option" where
  "HEAP_SWAP heap x y = do {
     temp \<leftarrow> HEAP_KEY heap x;
     ky \<leftarrow> HEAP_KEY heap y;
     d1 \<leftarrow> aset (heap_data heap) (int x) ky;
     d2 \<leftarrow> aset d1 (int y) temp;
     Some (heap\<lparr> heap_data := d2 \<rparr>) }"

text \<open>The two tests at the head of the loop body of \<open>heapify\<close>.\<close>

definition heap_min :: "heapqueue_t \<Rightarrow> nat \<Rightarrow> nat option" where
  "heap_min heap i = do {
     m \<leftarrow> (if HEAP_LEFT i < curSize heap
           then do { l \<leftarrow> HEAP_KEY heap (HEAP_LEFT i); k \<leftarrow> HEAP_KEY heap i;
                     Some (if l < k then HEAP_LEFT i else i) }
           else Some i);
     (if HEAP_RIGHT i < curSize heap
      then do { r \<leftarrow> HEAP_KEY heap (HEAP_RIGHT i); k \<leftarrow> HEAP_KEY heap m;
                Some (if r < k then HEAP_RIGHT i else m) }
      else Some m) }"

partial_function (option) heapify :: "heapqueue_t \<Rightarrow> nat \<Rightarrow> heapqueue_t option" where
  "heapify heap i = do {
     m \<leftarrow> heap_min heap i;
     (if m = i then Some heap
      else do { heap' \<leftarrow> HEAP_SWAP heap i m; heapify heap' m }) }"

text \<open>
  \<open>for (size_t i = curSize / 2 - 1; i < curSize && i >= 0; i--)\<close>: the index is unsigned, so
  the loop ends when the decrement of 0 wraps around to the largest \<open>size_t\<close>.
\<close>

partial_function (option) heap_build_loop :: "heapqueue_t \<Rightarrow> u64 \<Rightarrow> heapqueue_t option" where
  "heap_build_loop heap i =
     (if unat i < curSize heap
      then do { heap' \<leftarrow> heapify heap (unat i); heap_build_loop heap' (i - 1) }
      else Some heap)"

definition heap_build :: "heapqueue_t \<Rightarrow> nat \<Rightarrow> heapqueue_t option" where
  "heap_build heap n =
     (let heap = heap\<lparr> curSize := n \<rparr> in
      if n < 2 then Some heap
      else heap_build_loop heap (of_nat (curSize heap div 2 - 1)))"

partial_function (option) heap_decrease_loop :: "heapqueue_t \<Rightarrow> nat \<Rightarrow> heapqueue_t option" where
  "heap_decrease_loop heap index =
     (if index > 0 then do {
        k \<leftarrow> HEAP_KEY heap index;
        p \<leftarrow> HEAP_KEY heap (HEAP_PARENT index);
        (if k < p
         then do { heap' \<leftarrow> HEAP_SWAP heap index (HEAP_PARENT index);
                   heap_decrease_loop heap' (HEAP_PARENT index) }
         else Some heap) }
      else Some heap)"

definition heap_decrease :: "heapqueue_t \<Rightarrow> nat \<Rightarrow> int \<Rightarrow> heapqueue_t option" where
  "heap_decrease heap index key = do {
     k \<leftarrow> HEAP_KEY heap index;
     (if k < key then Some heap
      else do {
        d \<leftarrow> aset (heap_data heap) (int index) key;
        heap_decrease_loop (heap\<lparr> heap_data := d \<rparr>) index }) }"

definition heap_push :: "heapqueue_t \<Rightarrow> int \<Rightarrow> heapqueue_t option" where
  "heap_push heap item =
     (let i = curSize heap; heap = heap\<lparr> curSize := curSize heap + 1 \<rparr> in
      do { d \<leftarrow> aset (heap_data heap) (int i) item;
           heap_decrease (heap\<lparr> heap_data := d \<rparr>) i item })"

definition heap_peek :: "heapqueue_t \<Rightarrow> int option" where
  "heap_peek heap = HEAP_KEY heap 0"

definition heap_pop :: "heapqueue_t \<Rightarrow> (int \<times> heapqueue_t) option" where
  "heap_pop heap =
     (if curSize heap = 0 then Some (0, heap)
      else do {
        result \<leftarrow> HEAP_KEY heap 0;
        let last = curSize heap - 1;
        let heap = heap\<lparr> curSize := last \<rparr>;
        (if last = 0 then Some (result, heap)
         else do {
           heap \<leftarrow> HEAP_SWAP heap 0 last;
           heap \<leftarrow> heapify heap 0;
           Some (result, heap) }) })"

section \<open>Heap order\<close>

definition heap_from :: "nat \<Rightarrow> int list \<Rightarrow> nat \<Rightarrow> bool" where
  "heap_from n xs k \<longleftrightarrow>
     (\<forall>j. 0 < j \<and> j < n \<and> k \<le> HEAP_PARENT j \<longrightarrow> xs ! HEAP_PARENT j \<le> xs ! j)"

definition heap_wf :: "heapqueue_t \<Rightarrow> bool" where
  "heap_wf heap \<longleftrightarrow> curSize heap \<le> length (heap_data heap)"

definition heap_inv :: "nat \<Rightarrow> heapqueue_t \<Rightarrow> bool" where
  "heap_inv cap heap \<longleftrightarrow> heap_wf heap \<and> length (heap_data heap) = cap \<and>
     heap_from (curSize heap) (heap_data heap) 0"

definition heap_mset :: "heapqueue_t \<Rightarrow> int multiset" where
  "heap_mset heap = mset (take (curSize heap) (heap_data heap))"

lemmas heap_index_defs = HEAP_LEFT_def HEAP_RIGHT_def HEAP_PARENT_def

lemma parent_cases: "0 < j \<Longrightarrow> HEAP_PARENT j = i \<longleftrightarrow> j = HEAP_LEFT i \<or> j = HEAP_RIGHT i"
  by (auto simp: heap_index_defs)

lemma parent_child [simp]: "HEAP_PARENT (HEAP_LEFT i) = i" "HEAP_PARENT (HEAP_RIGHT i) = i"
  by (auto simp: heap_index_defs)

lemma parent_less: "0 < j \<Longrightarrow> HEAP_PARENT j < j"
  by (auto simp: heap_index_defs)

lemma child_greater: "i < HEAP_LEFT i" "i < HEAP_RIGHT i"
  by (auto simp: heap_index_defs)

definition swap_at :: "'a list \<Rightarrow> nat \<Rightarrow> nat \<Rightarrow> 'a list" where
  "swap_at xs i j = xs[i := xs ! j, j := xs ! i]"

lemma length_swap_at [simp]: "length (swap_at xs i j) = length xs"
  by (simp add: swap_at_def)

lemma swap_at_nth:
  "i < length xs \<Longrightarrow> j < length xs \<Longrightarrow>
     swap_at xs i j ! k = (if k = j then xs ! i else if k = i then xs ! j else xs ! k)"
  by (auto simp: swap_at_def nth_list_update)

lemma mset_take_swap_at:
  assumes "i < n" "j < n" "n \<le> length xs"
  shows "mset (take n (swap_at xs i j)) = mset (take n xs)"
proof -
  have "take n (swap_at xs i j) = (take n xs)[i := take n xs ! j, j := take n xs ! i]"
    using assms by (simp add: swap_at_def take_update_swap)
  moreover have "mset ((take n xs)[i := take n xs ! j, j := take n xs ! i]) = mset (take n xs)"
    using assms by (intro mset_swap) auto
  ultimately show ?thesis by simp
qed

lemma HEAP_SWAP_Some:
  "x < length (heap_data heap) \<Longrightarrow> y < length (heap_data heap) \<Longrightarrow>
     HEAP_SWAP heap x y = Some (heap\<lparr> heap_data := swap_at (heap_data heap) x y \<rparr>)"
  by (simp add: HEAP_SWAP_def HEAP_KEY_def swap_at_def)

subsection \<open>Sifting down\<close>

text \<open>Heap order above \<open>k\<close> everywhere but between \<open>i\<close> and its children.\<close>

definition hole_at :: "nat \<Rightarrow> int list \<Rightarrow> nat \<Rightarrow> nat \<Rightarrow> bool" where
  "hole_at n xs k i \<longleftrightarrow>
     (\<forall>j. 0 < j \<and> j < n \<and> k \<le> HEAP_PARENT j \<and> HEAP_PARENT j \<noteq> i \<longrightarrow> xs ! HEAP_PARENT j \<le> xs ! j) \<and>
     (\<forall>j. 0 < j \<and> j < n \<and> HEAP_PARENT j = i \<and> 0 < i \<and> k \<le> HEAP_PARENT i \<longrightarrow>
        xs ! HEAP_PARENT i \<le> xs ! j)"

lemma heap_min_Some:
  assumes wf: "heap_wf heap" and i: "i < curSize heap"
  defines "xs \<equiv> heap_data heap" and "n \<equiv> curSize heap"
  shows "\<exists>m. heap_min heap i = Some m \<and> m < n \<and> (m = i \<or> 0 < m \<and> HEAP_PARENT m = i) \<and>
     (m \<noteq> i \<longrightarrow> xs ! m < xs ! i) \<and>
     (\<forall>j. 0 < j \<and> j < n \<and> HEAP_PARENT j = i \<longrightarrow> xs ! m \<le> xs ! j)"
proof -
  from wf i have b: "n \<le> length xs" "i < n" by (auto simp: heap_wf_def xs_def n_def)
  have key: "HEAP_KEY heap j = Some (xs ! j)" if "j < n" for j
    using that b by (simp add: HEAP_KEY_def xs_def)
  let ?l = "HEAP_LEFT i" and ?r = "HEAP_RIGHT i"
  define m1 where "m1 = (if ?l < n \<and> xs ! ?l < xs ! i then ?l else i)"
  define m where "m = (if ?r < n \<and> xs ! ?r < xs ! m1 then ?r else m1)"
  have m1: "m1 < n" using b by (simp add: m1_def)
  have "heap_min heap i = Some m"
    using b m1 by (simp add: heap_min_def key m_def m1_def flip: n_def)
  moreover have "m < n \<and> (m = i \<or> 0 < m \<and> HEAP_PARENT m = i) \<and> (m \<noteq> i \<longrightarrow> xs ! m < xs ! i)"
    using b by (auto simp: m_def m1_def heap_index_defs)
  moreover have "xs ! m \<le> xs ! j" if "0 < j" "j < n" "HEAP_PARENT j = i" for j
    using that by (auto simp: parent_cases m_def m1_def)
  ultimately show ?thesis by blast
qed

lemma hole_at_swap:
  assumes b: "i < n" "m < n" "n \<le> length xs" "k \<le> i" and m: "0 < m" "HEAP_PARENT m = i"
    and lt: "xs ! m < xs ! i" and least: "\<And>j. 0 < j \<Longrightarrow> j < n \<Longrightarrow> HEAP_PARENT j = i \<Longrightarrow> xs ! m \<le> xs ! j"
    and hole: "hole_at n xs k i"
  shows "hole_at n (swap_at xs i m) k m"
proof -
  from m have im: "i < m" using parent_less by blast
  note nth = swap_at_nth [of i xs m]
  have len: "i < length xs" "m < length xs" using b by auto
  have A: "swap_at xs i m ! HEAP_PARENT j \<le> swap_at xs i m ! j"
    if j: "0 < j" "j < n" "k \<le> HEAP_PARENT j" "HEAP_PARENT j \<noteq> m" for j
  proof (cases "HEAP_PARENT j = i")
    case True
    with j least [of j] lt im len show ?thesis by (auto simp: nth)
  next
    case False
    then have jm: "j \<noteq> m" using m by auto
    show ?thesis
    proof (cases "j = i")
      case True
      with hole j m b have "xs ! HEAP_PARENT i \<le> xs ! m" by (auto simp: hole_at_def)
      with True j jm len False show ?thesis by (simp add: nth)
    next
      case ji: False
      with hole j False have "xs ! HEAP_PARENT j \<le> xs ! j" by (auto simp: hole_at_def)
      with ji jm j False len show ?thesis by (simp add: nth)
    qed
  qed
  have B: "swap_at xs i m ! HEAP_PARENT m \<le> swap_at xs i m ! j"
    if j: "0 < j" "j < n" "HEAP_PARENT j = m" for j
  proof -
    from j have "m < j" using parent_less by blast
    moreover from hole j im b have "xs ! m \<le> xs ! j" by (auto simp: hole_at_def)
    ultimately show ?thesis using im m len by (simp add: nth)
  qed
  show ?thesis using A B by (auto simp: hole_at_def)
qed

lemma heapify_spec:
  assumes "heap_wf heap" "i < curSize heap" "k \<le> i" "hole_at (curSize heap) (heap_data heap) k i"
  shows "\<exists>xs. heapify heap i = Some (heap\<lparr> heap_data := xs \<rparr>) \<and> length xs = length (heap_data heap) \<and>
     heap_from (curSize heap) xs k \<and> mset (take (curSize heap) xs) = heap_mset heap"
  using assms
proof (induction "curSize heap - i" arbitrary: heap i rule: less_induct)
  case less
  let ?xs = "heap_data heap" and ?n = "curSize heap"
  from heap_min_Some [OF less.prems(1,2)] obtain m where
    m: "heap_min heap i = Some m" "m < ?n" "m = i \<or> 0 < m \<and> HEAP_PARENT m = i"
       "m \<noteq> i \<longrightarrow> ?xs ! m < ?xs ! i"
       "\<And>j. 0 < j \<Longrightarrow> j < ?n \<Longrightarrow> HEAP_PARENT j = i \<Longrightarrow> ?xs ! m \<le> ?xs ! j" by blast
  have n: "?n \<le> length ?xs" using less.prems(1) by (simp add: heap_wf_def)
  show ?case
  proof (cases "m = i")
    case True
    with m less.prems(4) have "heap_from ?n ?xs k"
      unfolding heap_from_def hole_at_def by metis
    with True m(1) show ?thesis
      by (intro exI [of _ ?xs]) (simp add: heapify.simps [of heap i] heap_mset_def)
  next
    case False
    with m have pm: "0 < m" "HEAP_PARENT m = i" and lt: "?xs ! m < ?xs ! i" by auto
    let ?h = "heap\<lparr> heap_data := swap_at ?xs i m \<rparr>"
    have step: "heapify heap i = heapify ?h m"
      using False m n less.prems(2) by (simp add: heapify.simps [of heap i] HEAP_SWAP_Some)
    from pm have im: "i < m" using parent_less by blast
    have "hole_at ?n (swap_at ?xs i m) k m"
      using hole_at_swap [OF less.prems(2) m(2) n less.prems(3) pm lt m(5) less.prems(4)] by blast
    then obtain xs where "heapify ?h m = Some (?h\<lparr> heap_data := xs \<rparr>)" "length xs = length ?xs"
      "heap_from ?n xs k" "mset (take ?n xs) = heap_mset ?h"
      using less.hyps [of ?h m] less.prems(3) m(2) im n by (auto simp: heap_wf_def diff_less_mono2)
    moreover have "heap_mset ?h = heap_mset heap"
      using mset_take_swap_at [OF less.prems(2) m(2) n] by (simp add: heap_mset_def)
    ultimately show ?thesis using step by auto
  qed
qed

lemma heap_root_least:
  assumes "heap_from n xs 0" "j < n"
  shows "xs ! 0 \<le> xs ! j"
  using assms(2)
proof (induction j rule: less_induct)
  case (less j)
  show ?case
  proof (cases "j = 0")
    case False
    then have "xs ! 0 \<le> xs ! HEAP_PARENT j"
      using less parent_less [of j] by (meson less_trans not_gr_zero)
    moreover have "xs ! HEAP_PARENT j \<le> xs ! j"
      using assms(1) less.prems False by (simp add: heap_from_def)
    ultimately show ?thesis by linarith
  qed simp
qed

subsection \<open>Building\<close>

lemma hole_at_of_heap_from: "heap_from n xs (Suc i) \<Longrightarrow> hole_at n xs i i"
  using parent_less [of i] by (auto simp: heap_from_def hole_at_def)

lemma heap_from_half: "heap_from n xs (n div 2)"
  by (auto simp: heap_from_def HEAP_PARENT_def)

lemma heap_build_loop_spec:
  assumes "heap_wf heap" "unat i < curSize heap" "curSize heap < 2 ^ 63"
    "heap_from (curSize heap) (heap_data heap) (Suc (unat i))"
  shows "\<exists>xs. heap_build_loop heap i = Some (heap\<lparr> heap_data := xs \<rparr>) \<and>
     length xs = length (heap_data heap) \<and> heap_from (curSize heap) xs 0 \<and>
     mset (take (curSize heap) xs) = heap_mset heap"
  using assms
proof (induction "unat i" arbitrary: heap i)
  case 0
  have i: "i = 0" using 0(1) by (simp add: unat_eq_0)
  from 0 have "hole_at (curSize heap) (heap_data heap) 0 0" using hole_at_of_heap_from by simp
  with 0 i obtain xs where xs: "heapify heap 0 = Some (heap\<lparr> heap_data := xs \<rparr>)"
    "length xs = length (heap_data heap)" "heap_from (curSize heap) xs 0"
    "mset (take (curSize heap) xs) = heap_mset heap"
    using heapify_spec [of heap 0 0] by auto
  have stop: "heap_build_loop h (- 1) = Some h" if "curSize h = curSize heap" for h
    using that 0(4) by (simp add: heap_build_loop.simps [of h] unsigned_minus_1_eq_mask mask_eq_exp_minus_1)
  show ?case using i 0(3) xs stop by (auto simp: heap_build_loop.simps [of heap 0])
next
  case (Suc k)
  from Suc.prems(4) have "hole_at (curSize heap) (heap_data heap) (unat i) (unat i)"
    by (rule hole_at_of_heap_from)
  from heapify_spec [OF Suc.prems(1,2) order_refl this] obtain xs where
    xs: "heapify heap (unat i) = Some (heap\<lparr> heap_data := xs \<rparr>)"
      "length xs = length (heap_data heap)" "heap_from (curSize heap) xs (unat i)"
      "mset (take (curSize heap) xs) = heap_mset heap" by blast
  let ?h = "heap\<lparr> heap_data := xs \<rparr>"
  have "i \<noteq> 0" using Suc.hyps(2) by auto
  then have k: "k = unat (i - 1)" using Suc.hyps(2) by (simp add: unat_minus_one)
  then have "\<exists>ys. heap_build_loop ?h (i - 1) = Some (?h\<lparr> heap_data := ys \<rparr>) \<and>
     length ys = length (heap_data ?h) \<and> heap_from (curSize ?h) ys 0 \<and>
     mset (take (curSize ?h) ys) = heap_mset ?h"
    using Suc.hyps(2) Suc.prems xs by (intro Suc.hyps(1)) (auto simp: heap_wf_def)
  then show ?case
    using xs Suc.prems(2) by (auto simp: heap_build_loop.simps [of heap i] heap_mset_def)
qed

lemma heap_build_spec:
  assumes n: "n \<le> length (heap_data heap)" "length (heap_data heap) < 2 ^ 63"
  shows "\<exists>heap'. heap_build heap n = Some heap' \<and> heap_inv (length (heap_data heap)) heap' \<and>
     curSize heap' = n \<and> heap_mset heap' = mset (take n (heap_data heap))"
proof (cases "n < 2")
  case True
  with n show ?thesis
    by (auto simp: heap_build_def heap_inv_def heap_wf_def heap_mset_def heap_from_def HEAP_PARENT_def)
next
  case False
  let ?h = "heap\<lparr> curSize := n \<rparr>" and ?i = "of_nat (n div 2 - 1) :: u64"
  have half: "Suc (n div 2 - 1) = n div 2" using False by linarith
  have lt: "n div 2 - Suc 0 < n" using half by linarith
  have "n div 2 - 1 < 2 ^ 64" using n by simp
  then have i: "unat ?i = n div 2 - 1" by (simp add: unat_of_nat)
  have "heap_from n (heap_data heap) (Suc (unat ?i))"
    using heap_from_half [of n "heap_data heap"] half i by simp
  then obtain xs where xs: "heap_build_loop ?h ?i = Some (?h\<lparr> heap_data := xs \<rparr>)"
    "length xs = length (heap_data heap)" "heap_from n xs 0" "mset (take n xs) = heap_mset ?h"
    using heap_build_loop_spec [of ?h ?i] lt n i by (auto simp: heap_wf_def)
  with n False show ?thesis
    by (auto simp: heap_build_def Let_def heap_inv_def heap_wf_def heap_mset_def)
qed

subsection \<open>Sifting up\<close>

text \<open>Heap order everywhere but between \<open>i\<close> and its parent.\<close>

definition dent_at :: "nat \<Rightarrow> int list \<Rightarrow> nat \<Rightarrow> bool" where
  "dent_at n xs i \<longleftrightarrow>
     (\<forall>j. 0 < j \<and> j < n \<and> j \<noteq> i \<longrightarrow> xs ! HEAP_PARENT j \<le> xs ! j) \<and>
     (\<forall>j. 0 < j \<and> j < n \<and> HEAP_PARENT j = i \<and> 0 < i \<longrightarrow> xs ! HEAP_PARENT i \<le> xs ! j)"

lemma dent_at_swap:
  assumes b: "0 < i" "i < n" "n \<le> length xs" and lt: "xs ! i < xs ! HEAP_PARENT i"
    and dent: "dent_at n xs i"
  shows "dent_at n (swap_at xs i (HEAP_PARENT i)) (HEAP_PARENT i)"
proof -
  let ?p = "HEAP_PARENT i"
  have pi: "?p < i" using parent_less b by blast
  have len: "i < length xs" "?p < length xs" using b pi by auto
  note nth = swap_at_nth [of i xs ?p]
  have d1: "xs ! HEAP_PARENT j \<le> xs ! j" if "0 < j" "j < n" "j \<noteq> i" for j
    using dent that by (auto simp: dent_at_def)
  have d2: "xs ! ?p \<le> xs ! j" if "0 < j" "j < n" "HEAP_PARENT j = i" for j
    using dent that b by (auto simp: dent_at_def)
  have A: "swap_at xs i ?p ! HEAP_PARENT j \<le> swap_at xs i ?p ! j" if j: "0 < j" "j < n" "j \<noteq> ?p" for j
  proof (cases "j = i")
    case True
    with len lt pi show ?thesis by (auto simp: nth)
  next
    case False
    have dj: "xs ! HEAP_PARENT j \<le> xs ! j" using d1 j False by blast
    consider "HEAP_PARENT j = i" | "HEAP_PARENT j = ?p" | "HEAP_PARENT j \<noteq> i" "HEAP_PARENT j \<noteq> ?p"
      by blast
    then show ?thesis
    proof cases
      case 1
      then show ?thesis using d2 [OF j(1,2)] False j len pi by (simp add: nth)
    next
      case 2
      then show ?thesis using dj lt False j len pi by (simp add: nth)
    next
      case 3
      then show ?thesis using dj False j len by (simp add: nth)
    qed
  qed
  have B: "swap_at xs i ?p ! HEAP_PARENT ?p \<le> swap_at xs i ?p ! j"
    if j: "0 < j" "j < n" "HEAP_PARENT j = ?p" "0 < ?p" for j
  proof -
    have pp: "HEAP_PARENT ?p < ?p" using parent_less j by blast
    have "xs ! HEAP_PARENT ?p \<le> xs ! ?p" using d1 [of ?p] j pi b by auto
    moreover have "xs ! ?p \<le> xs ! j" if "j \<noteq> i" using d1 [of j] j that by simp
    moreover have "j \<noteq> ?p" using j parent_less [of j] by auto
    ultimately show ?thesis using pp pi len by (cases "j = i") (auto simp: nth)
  qed
  show ?thesis using A B by (auto simp: dent_at_def)
qed

lemma heap_decrease_loop_spec:
  assumes "heap_wf heap" "i < curSize heap" "dent_at (curSize heap) (heap_data heap) i"
  shows "\<exists>xs. heap_decrease_loop heap i = Some (heap\<lparr> heap_data := xs \<rparr>) \<and>
     length xs = length (heap_data heap) \<and> heap_from (curSize heap) xs 0 \<and>
     mset (take (curSize heap) xs) = heap_mset heap"
  using assms
proof (induction i arbitrary: heap rule: less_induct)
  case (less i)
  let ?xs = "heap_data heap" and ?n = "curSize heap" and ?p = "HEAP_PARENT i"
  have n: "?n \<le> length ?xs" using less.prems(1) by (simp add: heap_wf_def)
  have stop: "\<exists>xs. heap_decrease_loop heap i = Some (heap\<lparr> heap_data := xs \<rparr>) \<and>
     length xs = length ?xs \<and> heap_from ?n xs 0 \<and> mset (take ?n xs) = heap_mset heap"
    if "heap_decrease_loop heap i = Some heap" "heap_from ?n ?xs 0"
    using that by (intro exI [of _ ?xs]) (simp add: heap_mset_def)
  show ?case
  proof (cases "0 < i \<and> ?xs ! i < ?xs ! ?p")
    case False
    have "?p \<le> i" by (simp add: HEAP_PARENT_def)
    then have "heap_decrease_loop heap i = Some heap"
      using False less.prems(2) n
      by (auto simp: heap_decrease_loop.simps [of heap i] HEAP_KEY_def)
    moreover have "heap_from ?n ?xs 0"
      using False less.prems(3) by (auto simp: heap_from_def dent_at_def not_less)
    ultimately show ?thesis by (rule stop)
  next
    case True
    then have pi: "?p < i" using parent_less by blast
    let ?h = "heap\<lparr> heap_data := swap_at ?xs i ?p \<rparr>"
    have step: "heap_decrease_loop heap i = heap_decrease_loop ?h ?p"
      using True pi n less.prems(2)
      by (simp add: heap_decrease_loop.simps [of heap i] HEAP_KEY_def HEAP_SWAP_Some)
    have "dent_at ?n (swap_at ?xs i ?p) ?p"
      using dent_at_swap [of i ?n ?xs] True less.prems n by blast
    then obtain xs where "heap_decrease_loop ?h ?p = Some (?h\<lparr> heap_data := xs \<rparr>)"
      "length xs = length ?xs" "heap_from ?n xs 0" "mset (take ?n xs) = heap_mset ?h"
      using less.IH [OF pi, of ?h] less.prems pi n by (auto simp: heap_wf_def)
    moreover have "heap_mset ?h = heap_mset heap"
      using mset_take_swap_at [of i ?n ?p ?xs] less.prems(2) pi n by (simp add: heap_mset_def)
    ultimately show ?thesis using step by auto
  qed
qed

lemma heap_push_spec:
  assumes inv: "heap_inv cap heap" and room: "curSize heap < cap"
  shows "\<exists>heap'. heap_push heap x = Some heap' \<and> heap_inv cap heap' \<and>
     heap_mset heap' = heap_mset heap + {#x#}"
proof -
  let ?n = "curSize heap" and ?xs = "(heap_data heap)[curSize heap := x]"
  let ?h = "heap\<lparr> curSize := Suc ?n, heap_data := ?xs \<rparr>"
  from inv have len: "length (heap_data heap) = cap" and hf: "heap_from ?n (heap_data heap) 0"
    by (auto simp: heap_inv_def)
  have push: "heap_push heap x = heap_decrease_loop ?h ?n"
    using room len by (simp add: heap_push_def heap_decrease_def HEAP_KEY_def Let_def)
  have "dent_at (Suc ?n) ?xs ?n"
    unfolding dent_at_def
  proof (intro conjI allI impI)
    fix j assume j: "0 < j \<and> j < Suc ?n \<and> j \<noteq> ?n"
    then have "HEAP_PARENT j < ?n" "j < ?n" using parent_less [of j] by auto
    with j hf show "?xs ! HEAP_PARENT j \<le> ?xs ! j" by (auto simp: heap_from_def)
  next
    fix j assume "0 < j \<and> j < Suc ?n \<and> HEAP_PARENT j = ?n \<and> 0 < ?n"
    then show "?xs ! HEAP_PARENT ?n \<le> ?xs ! j" using parent_less [of j] by auto
  qed
  then obtain ys where ys: "heap_decrease_loop ?h ?n = Some (?h\<lparr> heap_data := ys \<rparr>)"
    "length ys = cap" "heap_from (Suc ?n) ys 0" "mset (take (Suc ?n) ys) = heap_mset ?h"
    using heap_decrease_loop_spec [of ?h ?n] room len by (auto simp: heap_wf_def)
  have "heap_mset ?h = heap_mset heap + {#x#}"
    using room len by (simp add: heap_mset_def take_Suc_conv_app_nth)
  with push ys room len show ?thesis by (auto simp: heap_inv_def heap_wf_def heap_mset_def)
qed

lemma heap_pop_empty: "heap_mset heap = {#} \<Longrightarrow> heap_wf heap \<Longrightarrow> heap_pop heap = Some (0, heap)"
  by (auto simp: heap_pop_def heap_mset_def heap_wf_def)

lemma heap_pop_spec:
  assumes inv: "heap_inv cap heap" and ne: "heap_mset heap \<noteq> {#}"
  shows "\<exists>heap'. heap_pop heap = Some (Min_mset (heap_mset heap), heap') \<and> heap_inv cap heap' \<and>
     heap_mset heap' = heap_mset heap - {#Min_mset (heap_mset heap)#}"
proof -
  let ?xs = "heap_data heap" and ?n = "curSize heap"
  from inv have wf: "?n \<le> length ?xs" and len: "length ?xs = cap" and hf: "heap_from ?n ?xs 0"
    by (auto simp: heap_inv_def heap_wf_def)
  from ne wf obtain l where l: "?n = Suc l" by (cases ?n) (auto simp: heap_mset_def)
  have "?xs ! 0 \<in> set (take ?n ?xs)" using l wf by (metis in_set_conv_nth length_take min.absorb2 nth_take zero_less_Suc)
  moreover have "?xs ! 0 \<le> y" if "y \<in> set (take ?n ?xs)" for y
    using that heap_root_least [OF hf] wf by (auto simp: in_set_conv_nth)
  ultimately have mn: "Min_mset (heap_mset heap) = ?xs ! 0"
    by (intro Min_eqI) (auto simp: heap_mset_def)
  show ?thesis
  proof (cases "l = 0")
    case True
    with l wf have ms: "heap_mset heap = {#?xs ! 0#}" by (cases ?xs) (auto simp: heap_mset_def)
    have "heap_pop heap = Some (?xs ! 0, heap\<lparr> curSize := 0 \<rparr>)"
      using True l wf by (auto simp: heap_pop_def Let_def HEAP_KEY_def)
    with mn ms len show ?thesis
      by (auto simp: heap_inv_def heap_wf_def heap_from_def heap_mset_def)
  next
    case False
    let ?h = "heap\<lparr> curSize := l, heap_data := swap_at ?xs 0 l \<rparr>"
    have "0 < length ?xs" "l < length ?xs" using l wf by auto
    note nth = swap_at_nth [OF this]
    have "swap_at ?xs 0 l ! HEAP_PARENT j \<le> swap_at ?xs 0 l ! j"
      if "0 < j" "j < l" "HEAP_PARENT j \<noteq> 0" for j
      using hf that l parent_less [of j] by (simp add: heap_from_def nth)
    then have "hole_at l (swap_at ?xs 0 l) 0 0" by (simp add: hole_at_def)
    then obtain ys where ys: "heapify ?h 0 = Some (?h\<lparr> heap_data := ys \<rparr>)" "length ys = length ?xs"
      "heap_from l ys 0" "mset (take l ys) = heap_mset ?h"
      using heapify_spec [of ?h 0 0] l wf False by (auto simp: heap_wf_def)
    have "heap_mset heap = mset (take ?n (swap_at ?xs 0 l))"
      using mset_take_swap_at [of 0 ?n l ?xs] l wf by (simp add: heap_mset_def)
    also have "\<dots> = heap_mset ?h + {#?xs ! 0#}"
      using l wf by (simp add: heap_mset_def take_Suc_conv_app_nth nth)
    finally have "heap_mset heap = heap_mset ?h + {#?xs ! 0#}" .
    moreover have "heap_pop heap = Some (?xs ! 0, ?h\<lparr> heap_data := ys \<rparr>)"
      using l wf False ys by (auto simp: heap_pop_def Let_def HEAP_KEY_def HEAP_SWAP_Some)
    ultimately show ?thesis using ys mn len wf l by (auto simp: heap_inv_def heap_wf_def heap_mset_def)
  qed
qed

section \<open>The id pool interface\<close>

text \<open>
  What \<open>flow_db\<close> relies on: a pool of ids from which \<open>pop\<close> takes the least one (0 when there
  is none) and to which \<open>push\<close> returns one, as long as the pool holds fewer than \<open>cap\<close>.
\<close>

fun drain :: "('q \<Rightarrow> (int \<times> 'q) option) \<Rightarrow> nat \<Rightarrow> 'q \<Rightarrow> (int list \<times> 'q) option" where
  "drain pop 0 q = Some ([], q)"
| "drain pop (Suc n) q = do {
     (x, q1) \<leftarrow> pop q; (xs, q2) \<leftarrow> drain pop n q1; Some (x # xs, q2) }"

locale id_pool =
  fixes cap :: nat
    and invar :: "'q \<Rightarrow> bool"
    and ids :: "'q \<Rightarrow> int multiset"
    and pop :: "'q \<Rightarrow> (int \<times> 'q) option"
    and push :: "'q \<Rightarrow> int \<Rightarrow> 'q option"
  assumes pop_none: "invar q \<Longrightarrow> ids q = {#} \<Longrightarrow> pop q = Some (0, q)"
    and pop_least: "invar q \<Longrightarrow> ids q \<noteq> {#} \<Longrightarrow>
          \<exists>q'. pop q = Some (Min_mset (ids q), q') \<and> invar q' \<and> ids q' = ids q - {#Min_mset (ids q)#}"
    and push_room: "invar q \<Longrightarrow> size (ids q) < cap \<Longrightarrow>
          \<exists>q'. push q x = Some q' \<and> invar q' \<and> ids q' = ids q + {#x#}"
    and ids_le: "invar q \<Longrightarrow> size (ids q) \<le> cap"
begin

lemma pop_total: "invar q \<Longrightarrow> \<exists>x q'. pop q = Some (x, q') \<and> invar q'"
  using pop_none pop_least by metis

lemma pop_cases:
  assumes "invar q" and "pop q = Some (x, q')"
  shows "invar q' \<and> (x = 0 \<and> ids q = {#} \<and> q' = q \<or> x \<in># ids q \<and> ids q = add_mset x (ids q'))"
proof (cases "ids q = {#}")
  case True
  then show ?thesis using pop_none assms by auto
next
  case False
  then have "Min_mset (ids q) \<in># ids q" by simp
  then show ?thesis using pop_least [OF assms(1) False] assms(2) by auto
qed

text \<open>An id that was popped can always be pushed back.\<close>

lemma pop_push:
  assumes "invar q" and "pop q = Some (x, q')" and "ids q \<noteq> {#}"
  shows "\<exists>q''. push q' x = Some q'' \<and> invar q'' \<and> ids q'' = ids q"
  using pop_cases [OF assms(1,2)] assms(3) push_room [of q' x] ids_le [OF assms(1)] by auto

text \<open>Popping until the pool is empty yields the ids in ascending order.\<close>

lemma drain_sorted:
  "invar q \<Longrightarrow> \<exists>q'. drain pop (size (ids q)) q = Some (sorted_list_of_multiset (ids q), q') \<and>
     invar q' \<and> ids q' = {#}"
proof (induction "size (ids q)" arbitrary: q)
  case 0
  then show ?case by auto
next
  case (Suc n)
  then have ne: "ids q \<noteq> {#}" by auto
  let ?m = "Min_mset (ids q)"
  from pop_least [OF Suc.prems ne] obtain q1 where
    q1: "pop q = Some (?m, q1)" "invar q1" "ids q1 = ids q - {#?m#}" by blast
  have mem: "?m \<in># ids q" using ne by simp
  have n: "n = size (ids q1)" using q1(3) Suc.hyps(2) mem by (simp add: size_Diff_singleton)
  from Suc.hyps(1) [OF n q1(2)] obtain q' where
    d: "drain pop n q1 = Some (sorted_list_of_multiset (ids q1), q')" "invar q'" "ids q' = {#}"
    using n by auto
  have "sorted_list_of_multiset (ids q) = ?m # sorted_list_of_multiset (ids q1)"
  proof -
    have "ids q = add_mset ?m (ids q1)" using q1(3) mem by simp
    moreover have "insort ?m ys = ?m # ys" if "set ys \<subseteq> set_mset (ids q)" for ys
      using that by (cases ys) (auto simp: Min_le)
    ultimately show ?thesis by (metis mset_subset_eq_add_right add_mset_add_single
        diff_subset_eq_self q1(3) set_mset_mono set_sorted_list_of_multiset sorted_list_of_multiset_insert)
  qed
  with d q1 Suc.hyps(2) show ?case by (auto simp flip: Suc.hyps(2))
qed

end

interpretation idheap: id_pool cap "heap_inv cap" heap_mset heap_pop heap_push
  for cap
proof unfold_locales
  fix q x assume i: "heap_inv cap q"
  have sz: "size (heap_mset q) = curSize q"
    using i by (auto simp: heap_inv_def heap_wf_def heap_mset_def)
  show "heap_pop q = Some (0, q)" if "heap_mset q = {#}"
    using i that by (simp add: heap_pop_empty heap_inv_def)
  show "\<exists>q'. heap_pop q = Some (Min_mset (heap_mset q), q') \<and> heap_inv cap q' \<and>
      heap_mset q' = heap_mset q - {#Min_mset (heap_mset q)#}" if "heap_mset q \<noteq> {#}"
    using i that by (rule heap_pop_spec)
  show "\<exists>q'. heap_push q x = Some q' \<and> heap_inv cap q' \<and> heap_mset q' = heap_mset q + {#x#}"
    if "size (heap_mset q) < cap"
    using i that sz heap_push_spec by simp
  show "size (heap_mset q) \<le> cap" using i sz by (simp add: heap_inv_def heap_wf_def)
qed

section \<open>Properties of the id heap\<close>

text \<open>
  Building the heap over any array contents and popping everything returns exactly the
  stored ids in ascending order; no call leaves the array, and the build loop ends although
  its unsigned index wraps around below 0.
\<close>

theorem heap_build_drain_sorted:
  assumes "n \<le> length (heap_data heap)" and "length (heap_data heap) < 2 ^ 63"
  shows "\<exists>heap' heap''. heap_build heap n = Some heap' \<and>
     drain heap_pop n heap' = Some (sort (take n (heap_data heap)), heap'') \<and> curSize heap'' = 0"
proof -
  from heap_build_spec [OF assms] obtain heap' where
    h: "heap_build heap n = Some heap'" "heap_inv (length (heap_data heap)) heap'"
       "heap_mset heap' = mset (take n (heap_data heap))" by blast
  from idheap.drain_sorted [OF h(2)] obtain heap'' where
    d: "drain heap_pop (size (heap_mset heap')) heap' = Some (sorted_list_of_multiset (heap_mset heap'), heap'')"
       "heap_inv (length (heap_data heap)) heap''" "heap_mset heap'' = {#}" by blast
  have "curSize heap'' = 0"
    using d(2,3) assms(1) by (auto simp: heap_mset_def heap_inv_def heap_wf_def)
  with h d assms(1) show ?thesis by auto
qed

theorem heap_build_drain_sorted_witness:
  "\<exists>heap' heap''. heap_build \<lparr> curSize = 0, heap_data = [12, 4, 8, 16] \<rparr> 3 = Some heap' \<and>
     drain heap_pop 3 heap' = Some ([4, 8, 12], heap'') \<and> curSize heap'' = 0"
  using heap_build_drain_sorted [of 3 "\<lparr> curSize = 0, heap_data = [12, 4, 8, 16] \<rparr>"] by simp

text \<open>
  C18. On a well-formed heap with room, \<open>heap_push\<close> adds exactly the pushed id and keeps the
  heap order; on a non-empty heap \<open>heap_pop\<close> takes out exactly the least id, and on an empty one it returns 0 and changes nothing.
\<close>

theorem heap_push_pop_refine_pool:
  assumes "heap_inv cap heap" and "curSize heap < cap"
  shows "\<exists>heap' heap''. heap_push heap x = Some heap' \<and> heap_inv cap heap' \<and>
     heap_mset heap' = heap_mset heap + {#x#} \<and>
     heap_pop heap' = Some (Min_mset (heap_mset heap'), heap'') \<and> heap_inv cap heap'' \<and>
     heap_mset heap'' = heap_mset heap' - {#Min_mset (heap_mset heap')#} \<and>
     (heap_mset heap = {#} \<longrightarrow> heap_pop heap = Some (0, heap))"
proof -
  from heap_push_spec [OF assms, of x] obtain heap' where
    h: "heap_push heap x = Some heap'" "heap_inv cap heap'" "heap_mset heap' = heap_mset heap + {#x#}" by blast
  with heap_pop_spec [OF h(2)] heap_pop_empty [of heap] assms(1) show ?thesis by (auto simp: heap_inv_def)
qed

theorem heap_push_pop_refine_pool_witness:
  "\<exists>heap' heap''. heap_push \<lparr> curSize = 1, heap_data = [8, 0, 0] \<rparr> 4 = Some heap' \<and> heap_inv 3 heap' \<and>
     heap_mset heap' = {#8, 4#} \<and> heap_pop heap' = Some (4, heap'') \<and> heap_mset heap'' = {#8#}"
proof -
  have "heap_inv 3 \<lparr> curSize = 1, heap_data = [8, 0, 0] \<rparr>"
    by (simp add: heap_inv_def heap_wf_def heap_from_def)
  moreover have "heap_mset \<lparr> curSize = 1, heap_data = [8, 0, 0] \<rparr> = {#8#}"
    by (simp add: heap_mset_def)
  ultimately show ?thesis
    using heap_push_pop_refine_pool [of 3 "\<lparr> curSize = 1, heap_data = [8, 0, 0] \<rparr>" 4] by fastforce
qed

lemma heap_push_at_capacity: "heap_inv cap heap \<Longrightarrow> curSize heap = cap \<Longrightarrow> heap_push heap x = None"
  by (simp add: heap_push_def Let_def heap_inv_def)

text \<open>
  \<open>heap_push\<close> has no capacity check: on a full heap it writes past the end of
  \<open>data[HEAPSIZE]\<close>.
\<close>

theorem heap_push_full_overflows:
  "heap_inv cap heap \<Longrightarrow> curSize heap = cap \<Longrightarrow> heap_push heap x = None"
  by (rule heap_push_at_capacity)

theorem heap_push_full_overflows_witness:
  "heap_push \<lparr> curSize = 1, heap_data = [8] \<rparr> 4 = None"
  by (rule heap_push_full_overflows [of 1]) (simp_all add: heap_inv_def heap_wf_def heap_from_def)

end
