(* ===== verification/Flow_Db.thy ===== *)
theory Flow_Db
  imports Flow_Hashtable Session_Hashtable Bloom_Filter Id_Heap
begin

text \<open>
  \<^verbatim>\<open>flow_db/flow_db.c\<close>: the thread that owns the flow and session ids. It takes commands from the
  packet ring, allocates ids from the per-pipe heaps, keeps the flow and session tables, and sends
  commands to the data plane ring. \<open>flow_db\<close> is the state the thread works on. Arguments stand for
  what the code cannot determine: \<open>devmap\<close> is \<open>DEVPORT_MAPPING\<close>, \<open>us\<close> is \<open>use_sessions()\<close>,
  \<open>uuid\<close> is what \<open>libuuid\<close> generates, \<open>junk\<close> and \<open>g\<close> are the values of uninitialised locals.

  Shown: whatever commands arrive, every flow id is at any time either in the heap of its own pipe or
  assigned to exactly one flow, and likewise for session ids, and no heap ever overflows.
\<close>

section \<open>Model\<close>

record flow_db =
  flow_id_heap :: "heapqueue_t list"
  session_id_heap :: "heapqueue_t list"
  db_flows :: flow_hashtable_t
  db_sessions :: session_hashtable_t
  db_bloom :: bloom_filter_t
  db_ring :: dp_ring
  uuid_mapping :: "string list"
  flowdb_stat :: u32

definition mk_uuid :: "string \<Rightarrow> int \<Rightarrow> flow_db \<Rightarrow> flow_db option" where
  "mk_uuid uuid session_id db =
     do { m \<leftarrow> aset (uuid_mapping db) session_id uuid; Some (db\<lparr> uuid_mapping := m \<rparr>) }"

definition pop_id :: "heapqueue_t list \<Rightarrow> int \<Rightarrow> (int \<times> heapqueue_t list) option" where
  "pop_id heaps pipe =
     do { h \<leftarrow> aget heaps pipe; (x, h') \<leftarrow> heap_pop h; hs \<leftarrow> aset heaps pipe h'; Some (x, hs) }"

definition push_id :: "heapqueue_t list \<Rightarrow> int \<Rightarrow> int \<Rightarrow> heapqueue_t list option" where
  "push_id heaps pipe x = do { h \<leftarrow> aget heaps pipe; h' \<leftarrow> heap_push h x; aset heaps pipe h' }"

text \<open>The second half of \<open>add_flow\<close>: session id, then session table and command.\<close>

definition add_flow_session ::
  "config \<Rightarrow> bool \<Rightarrow> string \<Rightarrow> five_tuple_t \<Rightarrow> int \<Rightarrow> flow_db \<Rightarrow> (int \<times> flow_db) option" where
  "add_flow_session cfg us uuid ft pipe db =
     do { (r, session_id) \<leftarrow> session_hashtable_get cfg us (db_sessions db) ft 0;
          if r \<noteq> 0 then do {
            (session_id, hs) \<leftarrow> pop_id (session_id_heap db) pipe;
            db \<leftarrow> mk_uuid uuid session_id (db\<lparr> session_id_heap := hs \<rparr>);
            Some (session_id, db) }
          else Some (session_id, db) }"

definition add_flow_tail ::
  "config \<Rightarrow> bool \<Rightarrow> string \<Rightarrow> five_tuple_t \<Rightarrow> int \<Rightarrow> int \<Rightarrow> flow_db \<Rightarrow> flow_db option" where
  "add_flow_tail cfg us uuid ft flow_id pipe db =
     do { (session_id, db) \<leftarrow> add_flow_session cfg us uuid ft pipe db;
          if session_id = 0 then Some db
          else do {
            (_, sessions) \<leftarrow> session_hashtable_add_or_increase_flow_count cfg us (db_sessions db) ft session_id;
            let db = db\<lparr> db_sessions := sessions \<rparr>;
            (r, ring) \<leftarrow> ringbuffer_put (DATAPLANE_RINGBUFFER_SIZE cfg) (DP_ADD_FLOW ft flow_id session_id) (db_ring db);
            let db = db\<lparr> db_ring := ring \<rparr>;
            if r \<noteq> 0 then do {
              hs \<leftarrow> push_id (flow_id_heap db) pipe flow_id;
              (_, flows) \<leftarrow> flow_hashtable_remove_by_value cfg (db_flows db) flow_id ft;
              Some (db\<lparr> flow_id_heap := hs, db_flows := flows \<rparr>) }
            else Some db } }"

definition add_flow ::
  "config \<Rightarrow> bool \<Rightarrow> int list \<Rightarrow> string \<Rightarrow> five_tuple_t \<Rightarrow> flow_db \<Rightarrow> flow_db option" where
  "add_flow cfg us devmap uuid ft db =
     do { egress_port \<leftarrow> aget devmap (uint (dev_port ft));
          if egress_port = - 1 then Some db
          else do {
            let pipe = ft_pipe ft;
            (flow_id, hs) \<leftarrow> pop_id (flow_id_heap db) pipe;
            let db = db\<lparr> flow_id_heap := hs \<rparr>;
            if flow_id = 0 then Some db
            else do {
              let ft = ft\<lparr> session_id_egress_offset := dev_port_to_pipe egress_port - pipe \<rparr>;
              (r, flows) \<leftarrow> flow_hashtable_add cfg (db_flows db) ft flow_id;
              let db = db\<lparr> db_flows := flows \<rparr>;
              if r \<noteq> 0 then do {
                hs \<leftarrow> push_id (flow_id_heap db) pipe flow_id;
                Some (db\<lparr> flow_id_heap := hs \<rparr>) }
              else add_flow_tail cfg us uuid ft flow_id pipe db } } }"

definition clear_registers :: "config \<Rightarrow> five_tuple_t \<Rightarrow> int \<Rightarrow> flow_db \<Rightarrow> flow_db option" where
  "clear_registers cfg ft session_id db =
     do { (_, ring) \<leftarrow> ringbuffer_put (DATAPLANE_RINGBUFFER_SIZE cfg) (DP_CLEAR_REGISTERS ft session_id) (db_ring db);
          Some (db\<lparr> db_ring := ring \<rparr>) }"

definition session_cleanup_after_flow_remove ::
  "config \<Rightarrow> bool \<Rightarrow> int \<Rightarrow> five_tuple_t \<Rightarrow> flow_db \<Rightarrow> flow_db option" where
  "session_cleanup_after_flow_remove cfg us g ft db =
     do { ((r, session_id), sessions) \<leftarrow> session_hashtable_remove_or_decrease_flow_count cfg us (db_sessions db) ft g;
          let db = db\<lparr> db_sessions := sessions \<rparr>;
          if r = 0 then do {
            hs \<leftarrow> push_id (session_id_heap db) (ft_pipe ft) session_id;
            clear_registers cfg ft session_id (db\<lparr> session_id_heap := hs \<rparr>) }
          else Some db }"

definition remove_flow_by_five_tuple ::
  "config \<Rightarrow> bool \<Rightarrow> int \<Rightarrow> five_tuple_t \<Rightarrow> flow_db \<Rightarrow> flow_db option" where
  "remove_flow_by_five_tuple cfg us g ft db =
     do { ((r, flow_id), flows) \<leftarrow> flow_hashtable_remove cfg (db_flows db) ft 0;
          let db = db\<lparr> db_flows := flows \<rparr>;
          if r \<noteq> 0 then Some db
          else do {
            hs \<leftarrow> push_id (flow_id_heap db) (ft_pipe ft) flow_id;
            (_, ring) \<leftarrow> ringbuffer_put (DATAPLANE_RINGBUFFER_SIZE cfg) (DP_REMOVE_FLOW ft flow_id) (db_ring db);
            session_cleanup_after_flow_remove cfg us g ft (db\<lparr> flow_id_heap := hs, db_ring := ring \<rparr>) } }"

definition remove_flow_by_flow_id ::
  "config \<Rightarrow> bool \<Rightarrow> int \<Rightarrow> int \<Rightarrow> flow_db \<Rightarrow> flow_db option" where
  "remove_flow_by_flow_id cfg us g flow_id db =
     do { ((r, ft), flows) \<leftarrow> flow_hashtable_remove_by_value cfg (db_flows db) flow_id zero_five_tuple;
          let db = db\<lparr> db_flows := flows \<rparr>;
          if r \<noteq> 0 then Some db
          else do {
            hs \<leftarrow> push_id (flow_id_heap db) (ft_pipe ft) flow_id;
            ring \<leftarrow> ringbuffer_ensure_put (DATAPLANE_RINGBUFFER_SIZE cfg) (DP_REMOVE_FLOW ft flow_id) (db_ring db);
            session_cleanup_after_flow_remove cfg us g ft (db\<lparr> flow_id_heap := hs, db_ring := ring \<rparr>) } }"

text \<open>The heaps at the start of \<open>flowdb_thread\<close>.\<close>

definition pipe_ids :: "config \<Rightarrow> nat \<Rightarrow> int list" where
  "pipe_ids cfg pipe = map (\<lambda>index. (int index + 1) * 4 + int pipe) [0..<HEAPSIZE cfg]"

fun build_heaps :: "config \<Rightarrow> nat list \<Rightarrow> heapqueue_t list option" where
  "build_heaps cfg [] = Some []"
| "build_heaps cfg (pipe # pipes) =
     do { h \<leftarrow> heap_build \<lparr> curSize = 0, heap_data = pipe_ids cfg pipe \<rparr> (HEAPSIZE cfg);
          hs \<leftarrow> build_heaps cfg pipes; Some (h # hs) }"

definition flowdb_start :: "config \<Rightarrow> flow_db \<Rightarrow> flow_db option" where
  "flowdb_start cfg db =
     do { fh \<leftarrow> build_heaps cfg [0..<NUM_PIPES];
          sh \<leftarrow> build_heaps cfg [0..<NUM_PIPES];
          Some (db\<lparr> flow_id_heap := fh, session_id_heap := sh,
                    uuid_mapping := replicate (FEATURE_SIZE cfg) [] \<rparr>) }"

text \<open>One iteration of the loop of \<open>flowdb_thread\<close>.\<close>

definition flowdb_command ::
  "config \<Rightarrow> bool \<Rightarrow> int list \<Rightarrow> string \<Rightarrow> int list \<Rightarrow> int \<Rightarrow> packet_item_t \<Rightarrow> flow_db \<Rightarrow> flow_db option" where
  "flowdb_command cfg us devmap uuid junk g command db =
     (let db = db\<lparr> flowdb_stat := flowdb_stat db + 1 \<rparr> in
      case command of
        PKT_ADD_FLOW ft \<Rightarrow> add_flow cfg us devmap uuid ft db
      | PKT_REMOVE_FLOW ft \<Rightarrow> remove_flow_by_five_tuple cfg us g ft db
      | PKT_ADD_BLOOM_FILTER_IRRELEVANT ft \<Rightarrow>
          do { (bf, ring) \<leftarrow> bloom_filter_set_irrelevant cfg junk ft (db_bloom db, db_ring db);
               Some (db\<lparr> db_bloom := bf, db_ring := ring \<rparr>) }
      | PKT_FIX_BLOOM_FILTER_RELEVANT ft \<Rightarrow>
          do { (bf, ring) \<leftarrow> bloom_filter_set_relevant cfg junk ft (db_bloom db, db_ring db);
               Some (db\<lparr> db_bloom := bf, db_ring := ring \<rparr>) }
      | PKT_TIMEOUT_FLOW flow_id \<Rightarrow> remove_flow_by_flow_id cfg us g flow_id db
      | PKT_REMOVE_BLOOM_FILTER ft \<Rightarrow> Some db)"

section \<open>Id accounting\<close>

text \<open>
  \<open>ids_ok cfg heaps used\<close>: the heap of each pipe holds exactly the ids of the pipe that are not in
  \<open>used\<close>, each once.
\<close>

definition pipe_id_set :: "config \<Rightarrow> nat \<Rightarrow> int set" where
  "pipe_id_set cfg p = set (pipe_ids cfg p)"

definition ids_ok :: "config \<Rightarrow> heapqueue_t list \<Rightarrow> int set \<Rightarrow> bool" where
  [inv_defs]: "ids_ok cfg heaps used \<longleftrightarrow> length heaps = NUM_PIPES \<and>
     used \<subseteq> (\<Union>p < NUM_PIPES. pipe_id_set cfg p) \<and>
     (\<forall>p < NUM_PIPES. heap_inv (HEAPSIZE cfg) (heaps ! p) \<and>
        heap_mset (heaps ! p) = mset_set (pipe_id_set cfg p - used))"

lemma pipe_ids_props:
  shows "distinct (pipe_ids cfg p)" "length (pipe_ids cfg p) = HEAPSIZE cfg" "finite (pipe_id_set cfg p)"
    "card (pipe_id_set cfg p) = HEAPSIZE cfg"
proof -
  show d: "distinct (pipe_ids cfg p)" "length (pipe_ids cfg p) = HEAPSIZE cfg" "finite (pipe_id_set cfg p)"
    by (auto simp: pipe_ids_def distinct_map inj_on_def pipe_id_set_def)
  then show "card (pipe_id_set cfg p) = HEAPSIZE cfg" by (simp add: pipe_id_set_def distinct_card)
qed

lemma in_pipe_id_set:
  "v \<in> pipe_id_set cfg p \<longleftrightarrow> (\<exists>i < HEAPSIZE cfg. v = (int i + 1) * 4 + int p)"
  by (auto simp: pipe_id_set_def pipe_ids_def)

lemma pipe_id_set_bounds:
  assumes "v \<in> pipe_id_set cfg p" "p < NUM_PIPES"
  shows "4 \<le> v" "v < int (FEATURE_SIZE cfg)" "flow_id_to_pipe v = int p"
proof -
  from assms(1) obtain i where i: "i < HEAPSIZE cfg" "v = (int i + 1) * 4 + int p" by (auto simp: in_pipe_id_set)
  then show "4 \<le> v" by simp
  have "i + 2 \<le> MAX_FLOWS cfg" using i(1) by (simp add: HEAPSIZE_def)
  then show "v < int (FEATURE_SIZE cfg)" using i(2) assms(2) by (simp add: FEATURE_SIZE_def NUM_PIPES_def)
  have "v mod 4 = int p" using i(2) assms(2) unfolding NUM_PIPES_def by presburger
  then show "flow_id_to_pipe v = int p" using \<open>4 \<le> v\<close> by (simp add: flow_id_to_pipe_def smod_int_alt_def sgn_if abs_if)
qed

lemma pipe_id_set_disjoint:
  "v \<in> pipe_id_set cfg p \<Longrightarrow> v \<in> pipe_id_set cfg q \<Longrightarrow> p < NUM_PIPES \<Longrightarrow> q < NUM_PIPES \<Longrightarrow> p = q"
  using pipe_id_set_bounds(3) by (metis of_nat_eq_iff)

text \<open>Allocation gives an id of the right pipe that is not in use, or 0 when there is none.\<close>

lemma pop_id_ok:
  assumes "ids_ok cfg heaps used" "p < NUM_PIPES"
  shows "\<exists>x hs. pop_id heaps (int p) = Some (x, hs) \<and>
    (x = 0 \<and> hs = heaps \<and> pipe_id_set cfg p \<subseteq> used \<or>
     x \<in> pipe_id_set cfg p \<and> x \<notin> used \<and> ids_ok cfg hs (insert x used))"
proof -
  from assms have h: "length heaps = NUM_PIPES" "heap_inv (HEAPSIZE cfg) (heaps ! p)"
    "heap_mset (heaps ! p) = mset_set (pipe_id_set cfg p - used)" by (auto simp: ids_ok_def)
  have fin: "finite (pipe_id_set cfg p - used)" by (simp add: pipe_ids_props)
  from idheap.pop_total [OF h(2)] obtain x h' where pop: "heap_pop (heaps ! p) = Some (x, h')" by blast
  note cases = idheap.pop_cases [OF h(2) pop]
  have r: "pop_id heaps (int p) = Some (x, heaps[p := h'])"
    using pop h(1) assms(2) by (simp add: pop_id_def)
  show ?thesis
  proof (cases "heap_mset (heaps ! p) = {#}")
    case True
    then have "x = 0" "h' = heaps ! p" "pipe_id_set cfg p \<subseteq> used"
      using cases h(3) fin by (auto simp: mset_set_empty_iff)
    with r show ?thesis by (simp add: list_update_id)
  next
    case False
    with cases have x: "x \<in># heap_mset (heaps ! p)" "heap_mset (heaps ! p) = add_mset x (heap_mset h')"
      "heap_inv (HEAPSIZE cfg) h'" by auto
    have "x \<in># mset_set (pipe_id_set cfg p - used)" using x(1) by (simp only: h(3))
    then have mem: "x \<in> pipe_id_set cfg p" "x \<notin> used" using fin by auto
    have "heap_mset h' = mset_set (pipe_id_set cfg p - used) - {#x#}" using x h(3) by simp
    also have "\<dots> = mset_set (pipe_id_set cfg p - used - {x})" using fin mem by (simp add: mset_set_Diff)
    also have "pipe_id_set cfg p - used - {x} = pipe_id_set cfg p - insert x used" by auto
    finally have "heap_mset h' = mset_set (pipe_id_set cfg p - insert x used)" .
    moreover have "pipe_id_set cfg q - insert x used = pipe_id_set cfg q - used" if "q < NUM_PIPES" "q \<noteq> p" for q
      using pipe_id_set_disjoint [OF mem(1), of q] that assms(2) by auto
    ultimately have "ids_ok cfg (heaps[p := h']) (insert x used)"
      using assms x(3) mem(1) unfolding ids_ok_def by (auto simp: nth_list_update)
    with r mem show ?thesis by blast
  qed
qed

text \<open>Returning an id in use to the heap of its pipe never overflows the heap.\<close>

lemma push_id_ok:
  assumes "ids_ok cfg heaps used" "p < NUM_PIPES" "x \<in> pipe_id_set cfg p" "x \<in> used"
  shows "\<exists>hs. push_id heaps (int p) x = Some hs \<and> ids_ok cfg hs (used - {x})"
proof -
  from assms have h: "length heaps = NUM_PIPES" "heap_inv (HEAPSIZE cfg) (heaps ! p)"
    "heap_mset (heaps ! p) = mset_set (pipe_id_set cfg p - used)" by (auto simp: ids_ok_def)
  have fin: "finite (pipe_id_set cfg p)" by (simp add: pipe_ids_props)
  have "card (pipe_id_set cfg p - used) < card (pipe_id_set cfg p)"
    using assms(3,4) fin by (intro psubset_card_mono) auto
  then have "size (heap_mset (heaps ! p)) < HEAPSIZE cfg" using h(3) by (simp add: pipe_ids_props)
  from idheap.push_room [OF h(2) this, of x] obtain h' where
    push: "heap_push (heaps ! p) x = Some h'" "heap_inv (HEAPSIZE cfg) h'" "heap_mset h' = add_mset x (heap_mset (heaps ! p))"
    by auto
  have "pipe_id_set cfg p - (used - {x}) = insert x (pipe_id_set cfg p - used)" using assms(3) by auto
  then have "heap_mset h' = mset_set (pipe_id_set cfg p - (used - {x}))"
    using push(3) h(3) fin assms(4) by simp
  moreover have "pipe_id_set cfg q - (used - {x}) = pipe_id_set cfg q - used" if "q < NUM_PIPES" "q \<noteq> p" for q
    using pipe_id_set_disjoint [OF assms(3), of q] that assms(2) by auto
  ultimately have "ids_ok cfg (heaps[p := h']) (used - {x})"
    using assms push(2) unfolding ids_ok_def by (auto simp: nth_list_update)
  then show ?thesis using push(1) h(1) assms(2) by (simp add: push_id_def)
qed

section \<open>The invariant of the thread\<close>

text \<open>
  The commands of one flow, and of one session, come from the ports of one pipe: \<open>PF\<close> and \<open>PS\<close> give
  that pipe. \<open>wf_packet\<close> says so, and that the port is one of the switch.
\<close>

definition wf_packet :: "bool \<Rightarrow> (five_tuple_for_hash_t \<Rightarrow> nat) \<Rightarrow> (session_key_t \<Rightarrow> nat) \<Rightarrow> five_tuple_t \<Rightarrow> bool" where
  "wf_packet us PF PS ft \<longleftrightarrow> uint (dev_port ft) < int MAX_DEV_PORT_ID \<and>
     ft_pipe ft = int (PF (ft_h ft)) \<and> ft_pipe ft = int (PS (session_key us ft))"

definition flow_part :: "config \<Rightarrow> bool \<Rightarrow> (five_tuple_for_hash_t \<Rightarrow> nat) \<Rightarrow> (session_key_t \<Rightarrow> nat) \<Rightarrow>
    heapqueue_t list \<Rightarrow> flow_hashtable_t \<Rightarrow> bool" where
  [inv_defs]: "flow_part cfg us PF PS heaps flows \<longleftrightarrow> flow_table_inv cfg flows \<and>
     ids_ok cfg heaps (ran (flow_map flows)) \<and>
     (\<forall>h v. flow_map flows h = Some v \<longrightarrow> v \<in> pipe_id_set cfg (PF h)) \<and>
     (\<forall>h k. flow_key_of flows h = Some k \<longrightarrow> wf_packet us PF PS k)"

definition session_part :: "config \<Rightarrow> bool \<Rightarrow> (session_key_t \<Rightarrow> nat) \<Rightarrow>
    heapqueue_t list \<Rightarrow> session_hashtable_t \<Rightarrow> bool" where
  [inv_defs]: "session_part cfg us PS heaps sessions \<longleftrightarrow> session_table_inv cfg us sessions \<and>
     ids_ok cfg heaps (ran (session_map us sessions)) \<and>
     (\<forall>c v. session_map us sessions c = Some v \<longrightarrow> v \<in> pipe_id_set cfg (PS c))"

definition db_inv :: "config \<Rightarrow> bool \<Rightarrow> (five_tuple_for_hash_t \<Rightarrow> nat) \<Rightarrow> (session_key_t \<Rightarrow> nat) \<Rightarrow> flow_db \<Rightarrow> bool" where
  [inv_defs]: "db_inv cfg us PF PS db \<longleftrightarrow>
     flow_part cfg us PF PS (flow_id_heap db) (db_flows db) \<and>
     session_part cfg us PS (session_id_heap db) (db_sessions db) \<and>
     bf_ok cfg (db_bloom db) \<and> rb_inv (DATAPLANE_RINGBUFFER_SIZE cfg) (db_ring db) \<and>
     length (uuid_mapping db) = FEATURE_SIZE cfg"

lemma wf_packet_pipe:
  assumes "wf_packet us PF PS ft"
  shows "PF (ft_h ft) < NUM_PIPES" "PS (session_key us ft) = PF (ft_h ft)" "ft_pipe ft = int (PF (ft_h ft))"
    "uint (dev_port ft) < 512"
  using assms dev_port_to_pipe_bounds [of "uint (dev_port ft)"]
  by (auto simp: wf_packet_def NUM_PIPES_def MAX_DEV_PORT_ID_def)

lemma wf_packet_offset [simp]:
  "wf_packet us PF PS (ft\<lparr> session_id_egress_offset := d \<rparr>) = wf_packet us PF PS ft"
  by (simp add: wf_packet_def session_key_def)

lemma ran_remove_inj:
  assumes "m a = Some b" "\<And>a'. m a' = Some b \<Longrightarrow> a' = a"
  shows "ran (m(a := None)) = ran m - {b}"
proof (intro set_eqI iffI)
  fix x assume "x \<in> ran (m(a := None))"
  then obtain a' where "a' \<noteq> a" "m a' = Some x" by (auto simp: ran_def split: if_splits)
  with assms(2) [of a'] show "x \<in> ran m - {b}" by (auto simp: ran_def)
next
  fix x assume "x \<in> ran m - {b}"
  then obtain a' where "m a' = Some x" "x \<noteq> b" by (auto simp: ran_def)
  with assms(1) have "(m(a := None)) a' = Some x" by auto
  then show "x \<in> ran (m(a := None))" by (rule ranI)
qed

subsection \<open>Flow ids\<close>

lemma flow_alloc:
  assumes "flow_part cfg us PF PS heaps flows" "wf_packet us PF PS ft"
  shows "\<exists>x hs. pop_id heaps (ft_pipe ft) = Some (x, hs) \<and>
    (x = 0 \<and> hs = heaps \<or> x \<noteq> 0 \<and>
      ((flow_hashtable_add cfg flows ft x = Some (1, flows) \<and>
        (\<exists>hs'. push_id hs (ft_pipe ft) x = Some hs' \<and> flow_part cfg us PF PS hs' flows)) \<or>
       (\<exists>flows'. flow_hashtable_add cfg flows ft x = Some (0, flows') \<and> flow_part cfg us PF PS hs flows' \<and>
          flow_map flows' (ft_h ft) = Some x)))"
proof -
  from assms(1) have D: "flow_table_inv cfg flows" "ids_ok cfg heaps (ran (flow_map flows))"
    "\<And>h v. flow_map flows h = Some v \<Longrightarrow> v \<in> pipe_id_set cfg (PF h)"
    "\<And>h k. flow_key_of flows h = Some k \<Longrightarrow> wf_packet us PF PS k" by (auto simp: flow_part_def)
  note w = wf_packet_pipe [OF assms(2)]
  from pop_id_ok [OF D(2) w(1)] w(3) obtain x hs where pop: "pop_id heaps (ft_pipe ft) = Some (x, hs)" and
    c: "x = 0 \<and> hs = heaps \<or> x \<in> pipe_id_set cfg (PF (ft_h ft)) \<and> x \<notin> ran (flow_map flows) \<and>
      ids_ok cfg hs (insert x (ran (flow_map flows)))" by auto
  show ?thesis
  proof (cases "x = 0")
    case True
    then have "hs = heaps" using c pipe_id_set_bounds(1) [of x cfg "PF (ft_h ft)"] w(1) by auto
    with True pop show ?thesis by simp
  next
    case False
    with c have x: "x \<in> pipe_id_set cfg (PF (ft_h ft))" "x \<notin> ran (flow_map flows)"
      "ids_ok cfg hs (insert x (ran (flow_map flows)))" by auto
    have free: "flow_id_free cfg (flow_map flows) x"
      using pipe_id_set_bounds(1,2) [OF x(1) w(1)] x(2) by (simp add: flow_id_free_def)
    show ?thesis
    proof (cases "flow_map flows (ft_h ft)")
      case None
      from flow_add_new [OF D(1) flow.never_full [OF D(1)] None free] obtain flows' where
        n: "flow_hashtable_add cfg flows ft x = Some (0, flows')" "flow_table_inv cfg flows'"
          "flow_map flows' = (flow_map flows)(ft_h ft \<mapsto> x)" "flow_key_of flows' = (flow_key_of flows)(ft_h ft \<mapsto> ft)"
        by blast
      have "flow_part cfg us PF PS hs flows'"
        unfolding flow_part_def using n(2-4) x(1,3) D(3,4) assms(2) None by (auto simp: ran_map_upd)
      with n pop False show ?thesis by auto
    next
      case (Some y)
      from push_id_ok [OF x(3) w(1) x(1)] w(3) x(2) obtain hs' where
        "push_id hs (ft_pipe ft) x = Some hs'" "ids_ok cfg hs' (ran (flow_map flows))" by auto
      with flow_add_present [OF D(1) Some] D pop False show ?thesis unfolding flow_part_def by auto
    qed
  qed
qed

lemma flow_remove_part:
  assumes "flow_part cfg us PF PS heaps flows" "flow_map flows h = Some x"
    and "flow_table_inv cfg flows'" "flow_map flows' = (flow_map flows)(h := None)"
    "flow_key_of flows' = (flow_key_of flows)(h := None)" "PF h < NUM_PIPES"
  shows "\<exists>hs. push_id heaps (int (PF h)) x = Some hs \<and> flow_part cfg us PF PS hs flows'"
proof -
  from assms(1) have D: "flow_table_inv cfg flows" "ids_ok cfg heaps (ran (flow_map flows))"
    "x \<in> pipe_id_set cfg (PF h)" using assms(2) by (auto simp: flow_part_def)
  have r: "ran (flow_map flows') = ran (flow_map flows) - {x}"
    unfolding assms(4) using assms(2) flow_map_inj [OF D(1) _ assms(2)] by (rule ran_remove_inj)
  from push_id_ok [OF D(2) assms(6) D(3) ranI [of "flow_map flows", OF assms(2)]] obtain hs where
    "push_id heaps (int (PF h)) x = Some hs" "ids_ok cfg hs (ran (flow_map flows'))" unfolding r by blast
  moreover have "\<And>h v. flow_map flows' h = Some v \<Longrightarrow> v \<in> pipe_id_set cfg (PF h)"
    "\<And>h k. flow_key_of flows' h = Some k \<Longrightarrow> wf_packet us PF PS k"
    using assms(1) by (auto simp: flow_part_def assms(4,5) split: if_splits)
  ultimately show ?thesis using assms(3) unfolding flow_part_def by blast
qed

lemma flow_undo:
  assumes "flow_part cfg us PF PS heaps flows" "flow_map flows h = Some x" "PF h < NUM_PIPES"
  shows "\<exists>k hs flows'. flow_hashtable_remove_by_value cfg flows x key0 = Some ((0, k), flows') \<and>
    push_id heaps (int (PF h)) x = Some hs \<and> flow_part cfg us PF PS hs flows' \<and> ft_h k = h \<and> wf_packet us PF PS k"
proof -
  have D: "flow_table_inv cfg flows" using assms(1) by (simp add: flow_part_def)
  from flow_remove_by_value_hit [OF D assms(2), of key0] obtain flows' k where
    r: "flow_hashtable_remove_by_value cfg flows x key0 = Some ((0, k), flows')" "flow_key_of flows h = Some k" "ft_h k = h"
      "flow_table_inv cfg flows'" "flow_map flows' = (flow_map flows)(h := None)" "flow_key_of flows' = (flow_key_of flows)(h := None)"
    by blast
  from flow_remove_part [OF assms(1,2) r(4,5,6) assms(3)] r assms(1) show ?thesis by (auto simp: flow_part_def)
qed

lemma flow_key_of_h:
  assumes "flow_table_inv cfg t" "flow_key_of t h = Some k"
  shows "ft_h k = h"
  using assms(2) tmap_Some_iff [OF flow_table_invD(6) [OF assms(1)]] by (force simp: flow_key_of_def)

lemma flow_map_pipe:
  assumes "flow_part cfg us PF PS heaps flows" "flow_map flows h = Some x"
  shows "PF h < NUM_PIPES"
proof -
  obtain k where k: "flow_key_of flows h = Some k" using assms(2) by (auto simp: flow_map_def flow_key_of_def)
  with assms(1) have "wf_packet us PF PS k" "ft_h k = h" by (auto simp: flow_part_def flow_key_of_h)
  then show ?thesis using wf_packet_pipe(1) by blast
qed

subsection \<open>Session ids\<close>

lemma pipe_id_set_shift:
  "v \<in> pipe_id_set cfg p \<Longrightarrow> int p + d = int q \<Longrightarrow> v + d \<in> pipe_id_set cfg q"
  by (auto simp: in_pipe_id_set algebra_simps)

lemma session_part_flow_count:
  "session_part cfg us PS heaps t \<Longrightarrow> length fc = FEATURE_SIZE cfg \<Longrightarrow>
     session_part cfg us PS heaps (t\<lparr> flow_count := fc \<rparr>)"
  by (simp add: session_part_def)

lemma session_alloc_hit:
  assumes "session_part cfg us PS (session_id_heap db) (db_sessions db)" "wf_packet us PF PS ft"
    and "session_map us (db_sessions db) (session_key us ft) = Some v"
  shows "add_flow_session cfg us uuid ft (ft_pipe ft) db = Some (v, db) \<and> v \<noteq> 0 \<and>
    (\<exists>r t'. session_hashtable_add_or_increase_flow_count cfg us (db_sessions db) ft v = Some (r, t') \<and>
       session_part cfg us PS (session_id_heap db) t')"
proof -
  have D: "session_table_inv cfg us (db_sessions db)" "v \<in> pipe_id_set cfg (PS (session_key us ft))"
    using assms(1,3) by (auto simp: session_part_def)
  have p: "PS (session_key us ft) < NUM_PIPES" using wf_packet_pipe [OF assms(2)] by simp
  note b = pipe_id_set_bounds [OF D(2) p]
  from session_add_present [OF D(1) session_table_never_full [OF D(1)] assms(3), of v] b
  have "\<exists>r t'. session_hashtable_add_or_increase_flow_count cfg us (db_sessions db) ft v = Some (r, t') \<and>
      session_part cfg us PS (session_id_heap db) t'"
    using session_part_flow_count [OF assms(1)] session_table_invD(9) [OF D(1)] assms(1) by (cases us) auto
  then show ?thesis using session_get_hit [OF D(1) assms(3)] b by (simp add: add_flow_session_def)
qed

lemma session_alloc_miss:
  assumes "session_part cfg us PS (session_id_heap db) (db_sessions db)" "wf_packet us PF PS ft"
    and "session_map us (db_sessions db) (session_key us ft) = None"
    and off: "int (PF (ft_h ft)) + session_id_egress_offset ft = int q" "q < NUM_PIPES"
    and u: "length (uuid_mapping db) = FEATURE_SIZE cfg"
  shows "\<exists>v hs. add_flow_session cfg us uuid ft (ft_pipe ft) db =
      Some (v, db\<lparr> session_id_heap := hs, uuid_mapping := (uuid_mapping db)[nat v := uuid] \<rparr>) \<and>
    (v = 0 \<and> hs = session_id_heap db \<or> v \<noteq> 0 \<and>
      (\<exists>r t'. session_hashtable_add_or_increase_flow_count cfg us (db_sessions db) ft v = Some (r, t') \<and>
         session_part cfg us PS hs t'))"
proof -
  let ?m = "session_map us (db_sessions db)" and ?c = "session_key us ft"
  from assms(1) have D: "session_table_inv cfg us (db_sessions db)" "ids_ok cfg (session_id_heap db) (ran ?m)"
    "\<And>c v. ?m c = Some v \<Longrightarrow> v \<in> pipe_id_set cfg (PS c)" by (auto simp: session_part_def)
  note w = wf_packet_pipe [OF assms(2)]
  from pop_id_ok [OF D(2) w(1)] w(3) obtain v hs where pop: "pop_id (session_id_heap db) (ft_pipe ft) = Some (v, hs)" and
    c: "v = 0 \<and> hs = session_id_heap db \<or> v \<in> pipe_id_set cfg (PF (ft_h ft)) \<and> v \<notin> ran ?m \<and>
      ids_ok cfg hs (insert v (ran ?m))" by auto
  have F: "0 < FEATURE_SIZE cfg" using session_table_invD(8) [OF D(1)] by (simp add: cfg_ok_def FEATURE_SIZE_def NUM_PIPES_def)
  have v: "0 \<le> v" "v < int (FEATURE_SIZE cfg)" using c pipe_id_set_bounds(1,2) [OF _ w(1)] F by force+
  have 1: "add_flow_session cfg us uuid ft (ft_pipe ft) db =
      Some (v, db\<lparr> session_id_heap := hs, uuid_mapping := (uuid_mapping db)[nat v := uuid] \<rparr>)"
    using session_get_miss [OF D(1) assms(3) session_table_never_full [OF D(1)]] pop v u
    by (simp add: add_flow_session_def mk_uuid_def aset_def)
  show ?thesis
  proof (cases "v = 0")
    case True
    then have "hs = session_id_heap db" using c pipe_id_set_bounds(1) [OF _ w(1)] by fastforce
    with True 1 show ?thesis by auto
  next
    case False
    with c have x: "v \<in> pipe_id_set cfg (PF (ft_h ft))" "v \<notin> ran ?m" "ids_ok cfg hs (insert v (ran ?m))" by auto
    have "v + session_id_egress_offset ft \<in> pipe_id_set cfg q" using pipe_id_set_shift [OF x(1) off(1)] .
    from pipe_id_set_bounds(1,2) [OF this off(2)] v x(2)
    have free: "session_id_free cfg ?m ft v" by (simp add: session_id_free_def)
    from session_add_new [OF D(1) session_table_never_full [OF D(1)] assms(3) free] obtain t' where
      n: "session_hashtable_add_or_increase_flow_count cfg us (db_sessions db) ft v = Some (0, t')"
        "session_table_inv cfg us t'" "session_map us t' = ?m(?c \<mapsto> v)" by blast
    have "session_part cfg us PS hs t'"
      unfolding session_part_def using n(2,3) x(1,3) D(3) assms(3) w(2) by (auto simp: ran_map_upd)
    with 1 n(1) False show ?thesis by auto
  qed
qed

lemma session_remove_entry_ok:
  assumes "session_table_inv cfg us t"
  shows "\<exists>r v t'. session_remove_entry cfg us t key g = Some ((r, v), t') \<and> session_table_inv cfg us t' \<and>
    (r \<noteq> 0 \<and> session_map us t' = session_map us t \<or>
     r = 0 \<and> session_map us t (session_key us key) = Some v \<and>
       session_map us t' = (session_map us t)(session_key us key := None))"
proof (cases "session_map us t (session_key us key)")
  case None
  with session_index_miss [OF assms None session_table_never_full [OF assms]] assms show ?thesis
    by (auto simp: session_remove_entry_def)
next
  case (Some v)
  from session_index_hit [OF assms Some] obtain i where i: "i < FLOW_HASHTABLE_SIZE cfg"
    "session_get_hashtable_index cfg us t key (session_hashtable_hash_key us key) = Some (0, i)"
    "occ (sh_entries t) i" "e_value (sh_entries t ! i) = v"
    "session_key us (e_key (sh_entries t ! i)) = session_key us key" by blast
  with session_remove_by_index_ok [OF assms i(1,3), of False] session_table_invD(5) [OF assms] Some
  show ?thesis by (auto simp: session_remove_entry_def)
qed

lemma session_remove_general:
  assumes "session_table_inv cfg us t" "us \<Longrightarrow> 0 \<le> g \<and> g < int (FEATURE_SIZE cfg)"
  shows "\<exists>r v t'. session_hashtable_remove_or_decrease_flow_count cfg us t key g = Some ((r, v), t') \<and>
    session_table_inv cfg us t' \<and>
    (r \<noteq> 0 \<and> session_map us t' = session_map us t \<or>
     r = 0 \<and> session_map us t (session_key us key) = Some v \<and>
       session_map us t' = (session_map us t)(session_key us key := None))"
proof (cases us)
  case False
  with session_remove_entry_ok [OF assms(1), of key g] show ?thesis
    by (simp add: session_hashtable_remove_or_decrease_flow_count_def)
next
  case True
  let ?n = "flow_count t ! nat g - 1"
  let ?t = "t\<lparr> flow_count := (flow_count t)[nat g := ?n] \<rparr>"
  have l: "0 \<le> g" "g < int (length (flow_count t))" using assms(2) [OF True] session_table_invD(9) [OF assms(1)] by auto
  have inv: "session_table_inv cfg us ?t" using assms(1) session_table_invD(9) [OF assms(1)] by simp
  have eq: "session_hashtable_remove_or_decrease_flow_count cfg us t key g =
      (if ?n \<noteq> 0 then Some ((1, g), ?t) else session_remove_entry cfg us ?t key g)"
    using True l by (simp add: session_hashtable_remove_or_decrease_flow_count_def aget_def aset_def)
  show ?thesis
  proof (cases "?n = 0")
    case True
    with eq session_remove_entry_ok [OF inv, of key g] show ?thesis by simp
  next
    case False
    with eq inv show ?thesis by simp
  qed
qed

lemma session_cleanup_ok:
  assumes "db_inv cfg us PF PS db" "wf_packet us PF PS ft" "us \<Longrightarrow> 0 \<le> g \<and> g < int (FEATURE_SIZE cfg)"
  shows "\<exists>db'. session_cleanup_after_flow_remove cfg us g ft db = Some db' \<and> db_inv cfg us PF PS db' \<and>
    db_flows db' = db_flows db"
proof -
  from assms(1) have D: "flow_part cfg us PF PS (flow_id_heap db) (db_flows db)"
    "session_part cfg us PS (session_id_heap db) (db_sessions db)" "bf_ok cfg (db_bloom db)"
    "rb_inv (DATAPLANE_RINGBUFFER_SIZE cfg) (db_ring db)" "length (uuid_mapping db) = FEATURE_SIZE cfg"
    by (auto simp: db_inv_def)
  from D(2) have S: "session_table_inv cfg us (db_sessions db)"
    "ids_ok cfg (session_id_heap db) (ran (session_map us (db_sessions db)))"
    "\<And>c v. session_map us (db_sessions db) c = Some v \<Longrightarrow> v \<in> pipe_id_set cfg (PS c)" by (auto simp: session_part_def)
  note w = wf_packet_pipe [OF assms(2)]
  from session_remove_general [OF S(1) assms(3), of ft] obtain r v t' where
    r: "session_hashtable_remove_or_decrease_flow_count cfg us (db_sessions db) ft g = Some ((r, v), t')"
      "session_table_inv cfg us t'" and
    c: "r \<noteq> 0 \<and> session_map us t' = session_map us (db_sessions db) \<or>
      r = 0 \<and> session_map us (db_sessions db) (session_key us ft) = Some v \<and>
       session_map us t' = (session_map us (db_sessions db))(session_key us ft := None)" by blast
  show ?thesis
  proof (cases "r = 0")
    case False
    with c have "session_part cfg us PS (session_id_heap db) t'" using r(2) S by (auto simp: session_part_def)
    with False r D show ?thesis by (simp add: session_cleanup_after_flow_remove_def db_inv_def)
  next
    case True
    with c have m: "session_map us (db_sessions db) (session_key us ft) = Some v"
      "session_map us t' = (session_map us (db_sessions db))(session_key us ft := None)" by auto
    have ran: "ran (session_map us t') = ran (session_map us (db_sessions db)) - {v}"
      unfolding m(2) using m(1) session_map_inj [OF S(1) _ m(1)] by (rule ran_remove_inj)
    have v: "v \<in> pipe_id_set cfg (PF (ft_h ft))" using S(3) [OF m(1)] w(2) by simp
    from push_id_ok [OF S(2) w(1) v ranI [of "session_map us (db_sessions db)", OF m(1)]] w(3) obtain hs where
      h: "push_id (session_id_heap db) (ft_pipe ft) v = Some hs" "ids_ok cfg hs (ran (session_map us t'))"
      unfolding ran by auto
    have "session_part cfg us PS hs t'"
      unfolding session_part_def using r(2) h(2) S(3) m(2) by (auto split: if_splits)
    moreover from ring.put_accept [OF D(4), of "DP_CLEAR_REGISTERS ft v"] obtain q x where
      "ringbuffer_put (DATAPLANE_RINGBUFFER_SIZE cfg) (DP_CLEAR_REGISTERS ft v) (db_ring db) = Some (x, q)"
      "rb_inv (DATAPLANE_RINGBUFFER_SIZE cfg) q" by blast
    ultimately show ?thesis using True r h(1) D
      by (simp add: session_cleanup_after_flow_remove_def clear_registers_def db_inv_def)
  qed
qed

section \<open>The commands keep the invariant\<close>

text \<open>\<open>DEVPORT_MAPPING\<close>: every port maps to a port of the switch or to \<open>-1\<close>.\<close>

definition devmap_ok :: "int list \<Rightarrow> bool" where
  [inv_defs]: "devmap_ok devmap \<longleftrightarrow> length devmap = MAX_DEV_PORT_ID \<and>
     (\<forall>p \<in> set devmap. p = - 1 \<or> 0 \<le> p \<and> p < int MAX_DEV_PORT_ID)"

lemma session_alloc:
  assumes "session_part cfg us PS (session_id_heap db) (db_sessions db)" "wf_packet us PF PS ft"
    and off: "int (PF (ft_h ft)) + session_id_egress_offset ft = int q" "q < NUM_PIPES"
    and u: "length (uuid_mapping db) = FEATURE_SIZE cfg"
  shows "\<exists>v hs m. add_flow_session cfg us uuid ft (ft_pipe ft) db =
      Some (v, db\<lparr> session_id_heap := hs, uuid_mapping := m \<rparr>) \<and> length m = FEATURE_SIZE cfg \<and>
    (v = 0 \<and> session_part cfg us PS hs (db_sessions db) \<or> v \<noteq> 0 \<and>
      (\<exists>r t'. session_hashtable_add_or_increase_flow_count cfg us (db_sessions db) ft v = Some (r, t') \<and>
         session_part cfg us PS hs t'))"
proof (cases "session_map us (db_sessions db) (session_key us ft)")
  case None
  from session_alloc_miss [OF assms(1,2) None off u, of uuid] obtain v hs where
    r: "add_flow_session cfg us uuid ft (ft_pipe ft) db =
      Some (v, db\<lparr> session_id_heap := hs, uuid_mapping := (uuid_mapping db)[nat v := uuid] \<rparr>)"
    "v = 0 \<and> hs = session_id_heap db \<or> v \<noteq> 0 \<and>
      (\<exists>r t'. session_hashtable_add_or_increase_flow_count cfg us (db_sessions db) ft v = Some (r, t') \<and>
         session_part cfg us PS hs t')" by blast
  moreover have "length ((uuid_mapping db)[nat v := uuid]) = FEATURE_SIZE cfg" using u by simp
  ultimately show ?thesis using assms(1) by blast
next
  case (Some v)
  from session_alloc_hit [OF assms(1,2) Some, of uuid] u show ?thesis
    by (intro exI [of _ v] exI [of _ "session_id_heap db"] exI [of _ "uuid_mapping db"]) simp
qed

lemma egress_offset:
  assumes "devmap_ok devmap" "wf_packet us PF PS ft" "aget devmap (uint (dev_port ft)) = Some e" "e \<noteq> - 1"
  shows "\<exists>q < NUM_PIPES. int (PF (ft_h ft)) + (dev_port_to_pipe e - ft_pipe ft) = int q"
proof -
  from assms(3) have "e \<in> set devmap" by (auto split: if_splits)
  with assms(1,4) have "0 \<le> e" "e < 512" by (auto simp: devmap_ok_def MAX_DEV_PORT_ID_def)
  from dev_port_to_pipe_bounds [OF this] wf_packet_pipe(3) [OF assms(2)] show ?thesis
    by (intro exI [of _ "nat (dev_port_to_pipe e)"]) (auto simp: NUM_PIPES_def)
qed

lemma devmap_defined: "devmap_ok devmap \<Longrightarrow> wf_packet us PF PS ft \<Longrightarrow> \<exists>e. aget devmap (uint (dev_port ft)) = Some e"
  by (auto simp: devmap_ok_def wf_packet_def aget_def)

text \<open>The part of \<open>add_flow\<close> after the flow table took the flow.\<close>

lemma add_flow_tail_ok:
  assumes "flow_part cfg us PF PS hs flows" "flow_map flows (ft_h ft) = Some x"
    and D: "session_part cfg us PS (session_id_heap db) (db_sessions db)" "bf_ok cfg (db_bloom db)"
      "rb_inv (DATAPLANE_RINGBUFFER_SIZE cfg) (db_ring db)" "length (uuid_mapping db) = FEATURE_SIZE cfg"
    and w: "wf_packet us PF PS ft"
    and off: "int (PF (ft_h ft)) + session_id_egress_offset ft = int q" "q < NUM_PIPES"
    and db: "flow_id_heap db = hs" "db_flows db = flows"
  shows "\<exists>db'. add_flow_tail cfg us uuid ft x (ft_pipe ft) db = Some db' \<and> db_inv cfg us PF PS db'"
proof -
  from session_alloc [OF D(1) w off D(4), of uuid] obtain v shs m where
    a: "add_flow_session cfg us uuid ft (ft_pipe ft) db = Some (v, db\<lparr> session_id_heap := shs, uuid_mapping := m \<rparr>)"
      "length m = FEATURE_SIZE cfg" and
    c: "v = 0 \<and> session_part cfg us PS shs (db_sessions db) \<or> v \<noteq> 0 \<and>
      (\<exists>r t'. session_hashtable_add_or_increase_flow_count cfg us (db_sessions db) ft v = Some (r, t') \<and>
         session_part cfg us PS shs t')" by blast
  show ?thesis
  proof (cases "v = 0")
    case True
    with a c D db assms(1) show ?thesis by (simp add: add_flow_tail_def db_inv_def)
  next
    case False
    with c obtain r t' where t': "session_hashtable_add_or_increase_flow_count cfg us (db_sessions db) ft v = Some (r, t')"
      "session_part cfg us PS shs t'" by blast
    from ring.put_accept [OF D(3), of "DP_ADD_FLOW ft x v"] obtain y ring' where
      p: "ringbuffer_put (DATAPLANE_RINGBUFFER_SIZE cfg) (DP_ADD_FLOW ft x v) (db_ring db) = Some (y, ring')"
        "rb_inv (DATAPLANE_RINGBUFFER_SIZE cfg) ring'" by blast
    note wp = wf_packet_pipe [OF w]
    from flow_undo [OF assms(1,2) wp(1), of ft] wp(3) obtain k hs' flows' where
      u: "flow_hashtable_remove_by_value cfg flows x ft = Some ((0, k), flows')"
        "push_id hs (ft_pipe ft) x = Some hs'" "flow_part cfg us PF PS hs' flows'" by auto
    show ?thesis
      using False a t' p u D db assms(1) by (cases "y = 0") (simp_all add: add_flow_tail_def Let_def db_inv_def)
  qed
qed

lemma add_flow_ok:
  assumes "db_inv cfg us PF PS db" "wf_packet us PF PS ft" "devmap_ok devmap"
  shows "\<exists>db'. add_flow cfg us devmap uuid ft db = Some db' \<and> db_inv cfg us PF PS db'"
proof -
  from assms(1) have D: "flow_part cfg us PF PS (flow_id_heap db) (db_flows db)"
    "session_part cfg us PS (session_id_heap db) (db_sessions db)" "bf_ok cfg (db_bloom db)"
    "rb_inv (DATAPLANE_RINGBUFFER_SIZE cfg) (db_ring db)" "length (uuid_mapping db) = FEATURE_SIZE cfg"
    by (auto simp: db_inv_def)
  obtain e where e: "aget devmap (uint (dev_port ft)) = Some e" using devmap_defined [OF assms(3,2)] by blast
  show ?thesis
  proof (cases "e = - 1")
    case True
    then show ?thesis using e assms(1) by (simp add: add_flow_def)
  next
    case False
    define ft' where "ft' = ft\<lparr> session_id_egress_offset := dev_port_to_pipe e - ft_pipe ft \<rparr>"
    have ft': "wf_packet us PF PS ft'" "ft_pipe ft' = ft_pipe ft" "ft_h ft' = ft_h ft"
      using assms(2) by (simp_all add: ft'_def)
    from egress_offset [OF assms(3,2) e False] obtain q where
      q: "int (PF (ft_h ft')) + session_id_egress_offset ft' = int q" "q < NUM_PIPES" by (auto simp: ft'_def)
    from flow_alloc [OF D(1) ft'(1)] obtain x hs where pop: "pop_id (flow_id_heap db) (ft_pipe ft) = Some (x, hs)" and
      c: "x = 0 \<and> hs = flow_id_heap db \<or> x \<noteq> 0 \<and>
      ((flow_hashtable_add cfg (db_flows db) ft' x = Some (1, db_flows db) \<and>
        (\<exists>hs'. push_id hs (ft_pipe ft') x = Some hs' \<and> flow_part cfg us PF PS hs' (db_flows db))) \<or>
       (\<exists>flows'. flow_hashtable_add cfg (db_flows db) ft' x = Some (0, flows') \<and> flow_part cfg us PF PS hs flows' \<and>
          flow_map flows' (ft_h ft') = Some x))"
      unfolding ft'(2) by blast
    from c consider (none) "x = 0" "hs = flow_id_heap db"
      | (dup) hs' where "x \<noteq> 0" "flow_hashtable_add cfg (db_flows db) ft' x = Some (1, db_flows db)"
          "push_id hs (ft_pipe ft) x = Some hs'" "flow_part cfg us PF PS hs' (db_flows db)"
      | (new) flows' where "x \<noteq> 0" "flow_hashtable_add cfg (db_flows db) ft' x = Some (0, flows')"
          "flow_part cfg us PF PS hs flows'" "flow_map flows' (ft_h ft') = Some x"
      unfolding ft'(2) by blast
    then show ?thesis
    proof cases
      case none
      then show ?thesis using e False pop assms(1) by (simp add: add_flow_def)
    next
      case dup
      then show ?thesis using e False pop D by (simp add: add_flow_def ft'_def [symmetric] Let_def db_inv_def)
    next
      case new
      let ?db = "db\<lparr> flow_id_heap := hs, db_flows := flows' \<rparr>"
      have "session_part cfg us PS (session_id_heap ?db) (db_sessions ?db)" "bf_ok cfg (db_bloom ?db)"
        "rb_inv (DATAPLANE_RINGBUFFER_SIZE cfg) (db_ring ?db)" "length (uuid_mapping ?db) = FEATURE_SIZE cfg" using D by simp_all
      from add_flow_tail_ok [OF new(3,4) this ft'(1) q, of uuid] new(1,2) e False pop show ?thesis
        unfolding ft'(2) by (simp add: add_flow_def ft'_def [symmetric] Let_def)
    qed
  qed
qed

lemma db_inv_remove:
  assumes "db_inv cfg us PF PS db" "flow_part cfg us PF PS hs flows'" "rb_inv (DATAPLANE_RINGBUFFER_SIZE cfg) ring'"
  shows "db_inv cfg us PF PS (db\<lparr> db_flows := flows', flow_id_heap := hs, db_ring := ring' \<rparr>)"
  using assms by (simp add: db_inv_def)

lemma remove_by_five_tuple_ok:
  assumes "db_inv cfg us PF PS db" "wf_packet us PF PS ft" "us \<Longrightarrow> 0 \<le> g \<and> g < int (FEATURE_SIZE cfg)"
  shows "\<exists>db'. remove_flow_by_five_tuple cfg us g ft db = Some db' \<and> db_inv cfg us PF PS db' \<and>
    flow_map (db_flows db') = (flow_map (db_flows db))(ft_h ft := None)"
proof -
  from assms(1) have D: "flow_part cfg us PF PS (flow_id_heap db) (db_flows db)"
    "rb_inv (DATAPLANE_RINGBUFFER_SIZE cfg) (db_ring db)" by (auto simp: db_inv_def)
  have T: "flow_table_inv cfg (db_flows db)" using D(1) by (simp add: flow_part_def)
  show ?thesis
  proof (cases "flow_map (db_flows db) (ft_h ft)")
    case None
    then have "(flow_map (db_flows db))(ft_h ft := None) = flow_map (db_flows db)" by auto
    with flow_remove_miss [OF T None flow.never_full [OF T], of 0] assms(1) show ?thesis
      by (simp add: remove_flow_by_five_tuple_def)
  next
    case (Some x)
    note w = wf_packet_pipe [OF assms(2)]
    from flow_remove_hit [OF T Some, of 0] obtain flows' where
      r: "flow_hashtable_remove cfg (db_flows db) ft 0 = Some ((0, x), flows')" "flow_table_inv cfg flows'"
        "flow_map flows' = (flow_map (db_flows db))(ft_h ft := None)"
        "flow_key_of flows' = (flow_key_of (db_flows db))(ft_h ft := None)" by blast
    from flow_remove_part [OF D(1) Some r(2,3,4) w(1)] w(3) obtain hs where
      h: "push_id (flow_id_heap db) (ft_pipe ft) x = Some hs" "flow_part cfg us PF PS hs flows'" by auto
    from ring.put_accept [OF D(2), of "DP_REMOVE_FLOW ft x"] obtain y ring' where
      p: "ringbuffer_put (DATAPLANE_RINGBUFFER_SIZE cfg) (DP_REMOVE_FLOW ft x) (db_ring db) = Some (y, ring')"
        "rb_inv (DATAPLANE_RINGBUFFER_SIZE cfg) ring'" by blast
    from session_cleanup_ok [OF db_inv_remove [OF assms(1) h(2) p(2)] assms(2,3)] r(1,3) h(1) p(1) show ?thesis
      by (auto simp: remove_flow_by_five_tuple_def)
  qed
qed

lemma ensure_put_room:
  "rb_inv sz rb \<Longrightarrow> length (rb_items sz rb) < sz \<Longrightarrow>
     \<exists>rb'. ringbuffer_ensure_put sz x rb = Some rb' \<and> rb_inv sz rb' \<and> rb_items sz rb' = rb_items sz rb @ [x]"
  using ringbuffer_store_spec [of sz rb x] rb_full_iff [of sz rb]
  by (simp add: ringbuffer_ensure_put.simps [of sz x rb])

lemma remove_by_flow_id_ok:
  assumes "db_inv cfg us PF PS db" "0 \<le> x" "x < int (FEATURE_SIZE cfg)" "us \<Longrightarrow> 0 \<le> g \<and> g < int (FEATURE_SIZE cfg)"
    and room: "length (rb_items (DATAPLANE_RINGBUFFER_SIZE cfg) (db_ring db)) < DATAPLANE_RINGBUFFER_SIZE cfg"
  shows "\<exists>db'. remove_flow_by_flow_id cfg us g x db = Some db' \<and> db_inv cfg us PF PS db' \<and>
    x \<notin> ran (flow_map (db_flows db'))"
proof -
  from assms(1) have D: "flow_part cfg us PF PS (flow_id_heap db) (db_flows db)"
    "rb_inv (DATAPLANE_RINGBUFFER_SIZE cfg) (db_ring db)" by (auto simp: db_inv_def)
  have T: "flow_table_inv cfg (db_flows db)" using D(1) by (simp add: flow_part_def)
  show ?thesis
  proof (cases "x \<in> ran (flow_map (db_flows db))")
    case False
    then have "flow_id_free cfg (flow_map (db_flows db)) x" using assms(2,3) by (simp add: flow_id_free_def)
    from flow_remove_by_value_miss [OF T this, of zero_five_tuple] assms(1) False show ?thesis
      by (simp add: remove_flow_by_flow_id_def)
  next
    case True
    then obtain h where h: "flow_map (db_flows db) h = Some x" by (auto simp: ran_def)
    from flow_remove_by_value_hit [OF T h, of zero_five_tuple] obtain flows' k where
      r: "flow_hashtable_remove_by_value cfg (db_flows db) x zero_five_tuple = Some ((0, k), flows')"
        "flow_key_of (db_flows db) h = Some k" "ft_h k = h" "flow_table_inv cfg flows'"
        "flow_map flows' = (flow_map (db_flows db))(h := None)" "flow_key_of flows' = (flow_key_of (db_flows db))(h := None)"
      by blast
    have k: "wf_packet us PF PS k" using D(1) r(2) by (simp add: flow_part_def)
    note w = wf_packet_pipe [OF k]
    from flow_remove_part [OF D(1) h r(4,5,6)] w r(3) obtain hs where
      p: "push_id (flow_id_heap db) (ft_pipe k) x = Some hs" "flow_part cfg us PF PS hs flows'" by auto
    from ensure_put_room [OF D(2) room, of "DP_REMOVE_FLOW k x"] obtain ring' where
      e: "ringbuffer_ensure_put (DATAPLANE_RINGBUFFER_SIZE cfg) (DP_REMOVE_FLOW k x) (db_ring db) = Some ring'"
        "rb_inv (DATAPLANE_RINGBUFFER_SIZE cfg) ring'" by blast
    have "ran (flow_map flows') = ran (flow_map (db_flows db)) - {x}"
      unfolding r(5) using h flow_map_inj [OF T _ h] by (rule ran_remove_inj)
    with session_cleanup_ok [OF db_inv_remove [OF assms(1) p(2) e(2)] k assms(4)] r(1) p(1) e(1) show ?thesis
      by (auto simp: remove_flow_by_flow_id_def)
  qed
qed

text \<open>
  What the environment of the thread guarantees about a command: packets of one flow and one session
  enter on one pipe and have a known protocol, and a time-out names an id in range; the garbage in
  \<open>session_id\<close> is in range (with sessions enabled it is used as an index), and a time-out finds room in
  the ring, for which the code waits.
\<close>

fun command_ok :: "config \<Rightarrow> bool \<Rightarrow> (five_tuple_for_hash_t \<Rightarrow> nat) \<Rightarrow> (session_key_t \<Rightarrow> nat) \<Rightarrow> int \<Rightarrow>
    packet_item_t \<Rightarrow> flow_db \<Rightarrow> bool" where
  "command_ok cfg us PF PS g (PKT_ADD_FLOW ft) db \<longleftrightarrow> wf_packet us PF PS ft"
| "command_ok cfg us PF PS g (PKT_REMOVE_FLOW ft) db \<longleftrightarrow> wf_packet us PF PS ft \<and> (us \<longrightarrow> 0 \<le> g \<and> g < int (FEATURE_SIZE cfg))"
| "command_ok cfg us PF PS g (PKT_ADD_BLOOM_FILTER_IRRELEVANT ft) db \<longleftrightarrow> bf_flow_ok ft"
| "command_ok cfg us PF PS g (PKT_FIX_BLOOM_FILTER_RELEVANT ft) db \<longleftrightarrow> bf_flow_ok ft"
| "command_ok cfg us PF PS g (PKT_TIMEOUT_FLOW x) db \<longleftrightarrow> 0 \<le> x \<and> x < int (FEATURE_SIZE cfg) \<and>
     (us \<longrightarrow> 0 \<le> g \<and> g < int (FEATURE_SIZE cfg)) \<and>
     length (rb_items (DATAPLANE_RINGBUFFER_SIZE cfg) (db_ring db)) < DATAPLANE_RINGBUFFER_SIZE cfg"
| "command_ok cfg us PF PS g (PKT_REMOVE_BLOOM_FILTER ft) db \<longleftrightarrow> True"

lemma db_inv_stat [simp]: "db_inv cfg us PF PS (db\<lparr> flowdb_stat := n \<rparr>) = db_inv cfg us PF PS db"
  by (simp add: db_inv_def)

lemma db_inv_cfg_ok: "db_inv cfg us PF PS db \<Longrightarrow> cfg_ok cfg"
  by (auto simp: db_inv_def flow_part_def dest: flow_table_invD(7))

lemma flowdb_command_ok:
  assumes "db_inv cfg us PF PS db" "devmap_ok devmap" "command_ok cfg us PF PS g command db"
  shows "\<exists>db'. flowdb_command cfg us devmap uuid junk g command db = Some db' \<and> db_inv cfg us PF PS db'"
proof -
  let ?db = "db\<lparr> flowdb_stat := flowdb_stat db + 1 \<rparr>"
  have inv: "db_inv cfg us PF PS ?db" using assms(1) by simp
  have b: "bf_ok cfg (db_bloom ?db)" "rb_inv (DATAPLANE_RINGBUFFER_SIZE cfg) (db_ring ?db)"
    using assms(1) by (auto simp: db_inv_def)
  show ?thesis
  proof (cases command)
    case (PKT_ADD_FLOW ft)
    with assms(3) add_flow_ok [OF inv _ assms(2), of ft uuid] show ?thesis by (simp add: flowdb_command_def)
  next
    case (PKT_REMOVE_FLOW ft)
    with assms(3) remove_by_five_tuple_ok [OF inv, of ft g] show ?thesis by (auto simp: flowdb_command_def)
  next
    case (PKT_ADD_BLOOM_FILTER_IRRELEVANT ft)
    with assms(3) set_irrelevant_ok [OF db_inv_cfg_ok [OF inv] b, of ft junk] inv show ?thesis
      by (auto simp: flowdb_command_def db_inv_def)
  next
    case (PKT_FIX_BLOOM_FILTER_RELEVANT ft)
    with assms(3) set_relevant_ok [OF db_inv_cfg_ok [OF inv] b, of ft junk] inv show ?thesis
      by (auto simp: flowdb_command_def db_inv_def)
  next
    case (PKT_REMOVE_BLOOM_FILTER ft)
    then show ?thesis using inv by (simp add: flowdb_command_def)
  next
    case (PKT_TIMEOUT_FLOW x)
    with assms(3) remove_by_flow_id_ok [OF inv, of x g] show ?thesis by (auto simp: flowdb_command_def)
  qed
qed

section \<open>Reachable states\<close>

lemma build_heaps_ok:
  assumes "HEAPSIZE cfg < 2 ^ 63"
  shows "\<exists>hs. build_heaps cfg ps = Some hs \<and> length hs = length ps \<and>
    (\<forall>j < length ps. heap_inv (HEAPSIZE cfg) (hs ! j) \<and> heap_mset (hs ! j) = mset_set (pipe_id_set cfg (ps ! j)))"
proof (induction ps)
  case (Cons p ps)
  then obtain hs where hs: "build_heaps cfg ps = Some hs" "length hs = length ps"
    "\<forall>j < length ps. heap_inv (HEAPSIZE cfg) (hs ! j) \<and> heap_mset (hs ! j) = mset_set (pipe_id_set cfg (ps ! j))" by blast
  from heap_build_spec [of "HEAPSIZE cfg" "\<lparr> curSize = 0, heap_data = pipe_ids cfg p \<rparr>"] assms obtain h where
    h: "heap_build \<lparr> curSize = 0, heap_data = pipe_ids cfg p \<rparr> (HEAPSIZE cfg) = Some h" "heap_inv (HEAPSIZE cfg) h"
      "heap_mset h = mset (pipe_ids cfg p)" by (auto simp: pipe_ids_props)
  have "heap_mset h = mset_set (pipe_id_set cfg p)"
    using h(3) by (simp add: pipe_id_set_def mset_set_set pipe_ids_props)
  with h hs show ?case by (auto simp: nth_Cons split: nat.split)
qed simp

definition boot_db :: "config \<Rightarrow> dp_ring \<Rightarrow> flow_db" where
  "boot_db cfg ring = \<lparr> flow_id_heap = [], session_id_heap = [], db_flows = flow_hashtable_init cfg,
     db_sessions = boot_session_table cfg, db_bloom = bloom_filter_init cfg, db_ring = ring,
     uuid_mapping = [], flowdb_stat = 0 \<rparr>"

lemma flowdb_start_ok:
  assumes "cfg_ok cfg" "rb_inv (DATAPLANE_RINGBUFFER_SIZE cfg) ring"
  shows "\<exists>db. flowdb_start cfg (boot_db cfg ring) = Some db \<and> db_inv cfg us PF PS db \<and>
    flow_map (db_flows db) = Map.empty \<and> session_map us (db_sessions db) = Map.empty \<and> db_ring db = ring"
proof -
  have "MAX_FLOWS cfg \<le> FLOW_HASHTABLE_SIZE cfg" using assms(1) by (simp add: cfg_ok_def FLOW_HASHTABLE_SIZE_def NUM_PIPES_def)
  moreover have "FLOW_HASHTABLE_SIZE cfg < 2147483648" using assms(1) by (simp add: cfg_ok_def)
  ultimately have "HEAPSIZE cfg < 2 ^ 63" by (simp add: HEAPSIZE_def)
  from build_heaps_ok [OF this, of "[0..<NUM_PIPES]"] obtain hs where
    hs: "build_heaps cfg [0..<NUM_PIPES] = Some hs" "length hs = NUM_PIPES"
      "\<forall>p < NUM_PIPES. heap_inv (HEAPSIZE cfg) (hs ! p) \<and> heap_mset (hs ! p) = mset_set (pipe_id_set cfg p)" by auto
  then have ids: "ids_ok cfg hs {}" by (simp add: ids_ok_def)
  have k: "flow_key_of (flow_hashtable_init cfg) = Map.empty"
    using flow_init_inv(2) [OF assms(1)] by (auto simp: flow_map_def flow_key_of_def fun_eq_iff)
  show ?thesis
    using hs(1) ids k flow_init_inv [OF assms(1)] boot_session_table_inv [OF assms(1), of us] bf_ok_init assms(2)
    by (simp add: flowdb_start_def boot_db_def db_inv_def flow_part_def session_part_def)
qed

text \<open>
  The steps that change the state: a command of the packet ring, the data plane thread taking a
  command, and one row of the Bloom filter maintenance thread.
\<close>

inductive db_step :: "config \<Rightarrow> bool \<Rightarrow> int list \<Rightarrow> (five_tuple_for_hash_t \<Rightarrow> nat) \<Rightarrow> (session_key_t \<Rightarrow> nat) \<Rightarrow>
    flow_db \<Rightarrow> flow_db \<Rightarrow> bool" for cfg us devmap PF PS where
  Command: "command_ok cfg us PF PS g command db \<Longrightarrow>
     flowdb_command cfg us devmap uuid junk g command db = Some db' \<Longrightarrow> db_step cfg us devmap PF PS db db'"
| Consume: "ringbuffer_get (DATAPLANE_RINGBUFFER_SIZE cfg) (db_ring db) = Some (r, ring') \<Longrightarrow>
     db_step cfg us devmap PF PS db (db\<lparr> db_ring := ring' \<rparr>)"
| Maintain: "cmd_ok cfg cmd \<Longrightarrow> in_filter cfg pipe 0 index \<Longrightarrow>
     maintenance_index cfg rnd pipe index (db_bloom db, cmd, db_ring db) = Some (bf', cmd', ring') \<Longrightarrow>
     db_step cfg us devmap PF PS db (db\<lparr> db_bloom := bf', db_ring := ring' \<rparr>)"

inductive_cases db_step_cases: "db_step cfg us devmap PF PS db db'"

inductive db_reachable :: "config \<Rightarrow> bool \<Rightarrow> int list \<Rightarrow> (five_tuple_for_hash_t \<Rightarrow> nat) \<Rightarrow> (session_key_t \<Rightarrow> nat) \<Rightarrow>
    flow_db \<Rightarrow> bool" for cfg us devmap PF PS where
  Start: "rb_inv (DATAPLANE_RINGBUFFER_SIZE cfg) ring \<Longrightarrow> flowdb_start cfg (boot_db cfg ring) = Some db \<Longrightarrow>
     db_reachable cfg us devmap PF PS db"
| Step: "db_reachable cfg us devmap PF PS db \<Longrightarrow> db_step cfg us devmap PF PS db db' \<Longrightarrow>
     db_reachable cfg us devmap PF PS db'"

lemma db_step_inv:
  assumes "db_step cfg us devmap PF PS db db'" "db_inv cfg us PF PS db" "devmap_ok devmap"
  shows "db_inv cfg us PF PS db'"
  using assms(1)
proof cases
  case (Command g command uuid junk)
  with flowdb_command_ok [OF assms(2,3) Command(1), of uuid junk] show ?thesis by simp
next
  case (Consume r ring')
  obtain s y where r: "r = (s, y)" by (cases r)
  have "rb_inv (DATAPLANE_RINGBUFFER_SIZE cfg) (db_ring db)" using assms(2) by (simp add: db_inv_def)
  from ring.get_cases [OF this Consume(2) [unfolded r]] assms(2) Consume(1) show ?thesis by (simp add: db_inv_def)
next
  case (Maintain cmd pipe index rnd bf' cmd' ring')
  have b: "bf_ok cfg (db_bloom db)" "rb_inv (DATAPLANE_RINGBUFFER_SIZE cfg) (db_ring db)"
    using assms(2) by (auto simp: db_inv_def)
  from maintenance_index_ok [OF b(1) Maintain(2,3) b(2), of rnd] Maintain(1,4) assms(2) show ?thesis
    by (auto simp: db_inv_def)
qed

lemma db_reachable_inv:
  "db_reachable cfg us devmap PF PS db \<Longrightarrow> cfg_ok cfg \<Longrightarrow> devmap_ok devmap \<Longrightarrow> db_inv cfg us PF PS db"
proof (induction rule: db_reachable.induct)
  case (Start ring db)
  with flowdb_start_ok [of cfg ring us PF PS] show ?case by auto
next
  case (Step db db')
  then show ?case using db_step_inv by blast
qed

section \<open>Properties\<close>

text \<open>
  C2. Conservation of ids. In every reachable state, with sessions enabled or disabled, the heap of
  each pipe holds each of the pipe's ids that no flow has exactly once, and nothing else; every id
  in the flow table is an id of its flow's own pipe and belongs to one flow only. The same holds
  for session ids. So no id is lost, duplicated or returned to a wrong pipe.
\<close>

theorem flow_ids_conserved:
  assumes "cfg_ok cfg" "devmap_ok devmap" "db_reachable cfg us devmap PF PS db"
  shows "(\<forall>p < NUM_PIPES. heap_mset (flow_id_heap db ! p) = mset_set (pipe_id_set cfg p - ran (flow_map (db_flows db)))) \<and>
    (\<forall>h v. flow_map (db_flows db) h = Some v \<longrightarrow>
       v \<in> pipe_id_set cfg (PF h) \<and> (\<forall>h'. flow_map (db_flows db) h' = Some v \<longrightarrow> h' = h)) \<and>
    (\<forall>p < NUM_PIPES. heap_mset (session_id_heap db ! p) =
       mset_set (pipe_id_set cfg p - ran (session_map us (db_sessions db)))) \<and>
    (\<forall>c v. session_map us (db_sessions db) c = Some v \<longrightarrow>
       v \<in> pipe_id_set cfg (PS c) \<and> (\<forall>c'. session_map us (db_sessions db) c' = Some v \<longrightarrow> c' = c))"
proof -
  have inv: "flow_part cfg us PF PS (flow_id_heap db) (db_flows db)" "session_part cfg us PS (session_id_heap db) (db_sessions db)"
    using db_reachable_inv [OF assms(3,1,2)] by (auto simp: db_inv_def)
  then have "flow_table_inv cfg (db_flows db)" "session_table_inv cfg us (db_sessions db)"
    by (auto simp: flow_part_def session_part_def)
  with inv show ?thesis
    using flow_map_inj [of cfg "db_flows db"] session_map_inj [of cfg us "db_sessions db"]
    unfolding flow_part_def session_part_def ids_ok_def by blast
qed

definition example_devmap :: "int list" where
  "example_devmap = replicate MAX_DEV_PORT_ID 300"

lemma example_devmap_ok: "devmap_ok example_devmap"
  by (auto simp: devmap_ok_def example_devmap_def MAX_DEV_PORT_ID_def)

lemma example_reachable:
  "\<exists>db. db_reachable small_config us example_devmap PF PS db \<and>
     flowdb_start small_config (boot_db small_config (empty_ring 3 (DP_ADD_BLOOM_FILTER [] 0))) = Some db"
proof -
  have r: "rb_inv (DATAPLANE_RINGBUFFER_SIZE small_config) (empty_ring 3 (DP_ADD_BLOOM_FILTER [] 0))"
    by (simp add: empty_ring_inv)
  from flowdb_start_ok [OF cfg_ok_small this] db_reachable.Start [OF r] show ?thesis by blast
qed

theorem flow_ids_conserved_witness:
  "\<exists>db. db_reachable small_config True example_devmap (\<lambda>_. 0) (\<lambda>_. 0) db \<and>
     heap_mset (flow_id_heap db ! 1) = mset_set (pipe_id_set small_config 1 - ran (flow_map (db_flows db)))"
proof -
  from example_reachable obtain db where db: "db_reachable small_config True example_devmap (\<lambda>_. 0) (\<lambda>_. 0) db" by blast
  from flow_ids_conserved [OF cfg_ok_small example_devmap_ok db] db show ?thesis
    by (intro exI [of _ db]) (simp add: NUM_PIPES_def)
qed

text \<open>
  C3. The thread never gets stuck: in every reachable state every well-formed command is executed
  without leaving an array (in particular no id heap overflows) and without an endless search, and
  leads to a reachable state again.
\<close>

theorem flowdb_thread_progress:
  assumes "cfg_ok cfg" "devmap_ok devmap" "db_reachable cfg us devmap PF PS db" "command_ok cfg us PF PS g command db"
  shows "\<exists>db'. flowdb_command cfg us devmap uuid junk g command db = Some db' \<and> db_reachable cfg us devmap PF PS db'"
  using flowdb_command_ok [OF db_reachable_inv [OF assms(3,1,2)] assms(2,4), of uuid junk] assms(3,4)
    db_step.Command [of cfg us PF PS g command db devmap uuid junk] db_reachable.Step by blast

theorem flowdb_thread_progress_witness:
  "\<exists>db db'. flowdb_start small_config (boot_db small_config (empty_ring 3 (DP_ADD_BLOOM_FILTER [] 0))) = Some db \<and>
     flowdb_command small_config True example_devmap ''u'' [] 0 (PKT_ADD_FLOW (example_key 1)) db = Some db'"
proof -
  from example_reachable obtain db where
    db: "db_reachable small_config True example_devmap (\<lambda>_. 0) (\<lambda>_. 0) db"
      "flowdb_start small_config (boot_db small_config (empty_ring 3 (DP_ADD_BLOOM_FILTER [] 0))) = Some db" by blast
  have "command_ok small_config True (\<lambda>_. 0) (\<lambda>_. 0) 0 (PKT_ADD_FLOW (example_key 1)) db"
    by (simp add: wf_packet_def MAX_DEV_PORT_ID_def dev_port_to_pipe_def example_key_def zero_five_tuple_def)
  from flowdb_thread_progress [OF cfg_ok_small example_devmap_ok db(1) this, of "''u''" "[]"] db(2) show ?thesis by blast
qed

text \<open>
  C12. Removal. In a reachable state the FIN of a flow removes this flow and no other from the flow
  table, and after a time-out of a flow id no flow holds the id.
\<close>

theorem flow_removal_exact:
  assumes "cfg_ok cfg" "devmap_ok devmap" "db_reachable cfg us devmap PF PS db"
  shows "(\<forall>ft. command_ok cfg us PF PS g (PKT_REMOVE_FLOW ft) db \<longrightarrow>
      (\<exists>db'. flowdb_command cfg us devmap uuid junk g (PKT_REMOVE_FLOW ft) db = Some db' \<and>
        flow_map (db_flows db') = (flow_map (db_flows db))(ft_h ft := None))) \<and>
    (\<forall>x. command_ok cfg us PF PS g (PKT_TIMEOUT_FLOW x) db \<longrightarrow>
      (\<exists>db'. flowdb_command cfg us devmap uuid junk g (PKT_TIMEOUT_FLOW x) db = Some db' \<and>
        x \<notin> ran (flow_map (db_flows db'))))"
proof -
  let ?db = "db\<lparr> flowdb_stat := flowdb_stat db + 1 \<rparr>"
  have inv: "db_inv cfg us PF PS ?db" using db_reachable_inv [OF assms(3,1,2)] by simp
  show ?thesis
    using remove_by_five_tuple_ok [OF inv, of _ g] remove_by_flow_id_ok [OF inv, of _ g]
    by (auto simp: flowdb_command_def)
qed

theorem flow_removal_exact_witness:
  "\<exists>db db'. db_reachable small_config True example_devmap (\<lambda>_. 0) (\<lambda>_. 0) db \<and>
     flowdb_command small_config True example_devmap ''u'' [] 0 (PKT_REMOVE_FLOW (example_key 1)) db = Some db' \<and>
     flow_map (db_flows db') (ft_h (example_key 1)) = None"
proof -
  from example_reachable obtain db where db: "db_reachable small_config True example_devmap (\<lambda>_. 0) (\<lambda>_. 0) db" by blast
  have "command_ok small_config True (\<lambda>_. 0) (\<lambda>_. 0) 0 (PKT_REMOVE_FLOW (example_key 1)) db"
    by (simp add: wf_packet_def MAX_DEV_PORT_ID_def dev_port_to_pipe_def example_key_def zero_five_tuple_def)
  with flow_removal_exact [OF cfg_ok_small example_devmap_ok db, of 0 "''u''" "[]"] db show ?thesis by fastforce
qed

lemma example_db:
  "\<exists>db. db_inv small_config us (\<lambda>_. 0) (\<lambda>_. 0) db \<and> flow_map (db_flows db) = Map.empty \<and>
     session_map us (db_sessions db) = Map.empty"
  using flowdb_start_ok [OF cfg_ok_small, of "empty_ring 3 (DP_ADD_BLOOM_FILTER [] 0)" us "\<lambda>_. 0" "\<lambda>_. 0"]
  by (auto simp: empty_ring_inv)

lemma example_wf: "wf_packet us (\<lambda>_. 0) (\<lambda>_. 0) (example_key n)"
  by (simp add: wf_packet_def MAX_DEV_PORT_ID_def dev_port_to_pipe_def example_key_def zero_five_tuple_def)

lemma pipe_id_set_small: "pipe_id_set small_config p = {4 + int p}"
  by (auto simp: in_pipe_id_set)

lemma example_db_one_flow:
  "\<exists>db. db_inv small_config False (\<lambda>_. 0) (\<lambda>_. 0) db \<and> flow_map (db_flows db) = [ft_h (example_key 1) \<mapsto> 4]"
proof -
  obtain db where db: "db_inv small_config False (\<lambda>_. 0) (\<lambda>_. 0) db" "flow_map (db_flows db) = Map.empty"
    using example_db by blast
  then have D: "flow_table_inv small_config (db_flows db)" "ids_ok small_config (flow_id_heap db) {}"
    "flow_key_of (db_flows db) = Map.empty"
    by (auto simp: db_inv_def flow_part_def flow_map_def flow_key_of_def fun_eq_iff)
  have "(0 :: nat) < NUM_PIPES" by (simp add: NUM_PIPES_def)
  from pop_id_ok [OF D(2) this] obtain hs where hs: "ids_ok small_config hs {4}"
    by (auto simp: pipe_id_set_small)
  have "flow_id_free small_config (flow_map (db_flows db)) 4" by (simp add: flow_id_free_def db(2))
  from flow_add_new [OF D(1) flow.never_full [OF D(1)] _ this, of "example_key 1"] db(2) D(3) obtain flows where
    f: "flow_table_inv small_config flows" "flow_map flows = [ft_h (example_key 1) \<mapsto> 4]"
      "flow_key_of flows = [ft_h (example_key 1) \<mapsto> example_key 1]" by auto
  have "flow_part small_config False (\<lambda>_. 0) (\<lambda>_. 0) hs flows"
    using f hs example_wf by (auto simp: flow_part_def pipe_id_set_small)
  with db(1) f(2) show ?thesis
    by (intro exI [of _ "db\<lparr> flow_id_heap := hs, db_flows := flows \<rparr>"]) (simp add: db_inv_def)
qed

text \<open>
  C31. The hypothesis on pipes is needed: the id of a removed flow goes to the heap of the pipe on which
  the FIN arrived, not to the pipe of the id. If that pipe has no flows, its heap is full, and
  \<open>heap_push\<close> writes past the end of its array.
\<close>

theorem remove_on_other_pipe_overflows:
  assumes "db_inv cfg us PF PS db" "flow_map (db_flows db) (ft_h ft) = Some x"
    and "ft_pipe ft = int p" "p < NUM_PIPES" "ran (flow_map (db_flows db)) \<inter> pipe_id_set cfg p = {}"
  shows "remove_flow_by_five_tuple cfg us g ft db = None"
proof -
  from assms(1) have D: "flow_table_inv cfg (db_flows db)" "ids_ok cfg (flow_id_heap db) (ran (flow_map (db_flows db)))"
    by (auto simp: db_inv_def flow_part_def)
  from flow_remove_hit [OF D(1) assms(2), of 0] obtain t' where
    r: "flow_hashtable_remove cfg (db_flows db) ft 0 = Some ((0, x), t')" by blast
  have h: "length (flow_id_heap db) = NUM_PIPES" "heap_inv (HEAPSIZE cfg) (flow_id_heap db ! p)"
    "heap_mset (flow_id_heap db ! p) = mset_set (pipe_id_set cfg p)"
    using D(2) assms(4,5) by (auto simp: ids_ok_def Diff_triv Int_commute)
  have "size (heap_mset (flow_id_heap db ! p)) = HEAPSIZE cfg" unfolding h(3) by (simp add: pipe_ids_props)
  moreover have "size (heap_mset (flow_id_heap db ! p)) = curSize (flow_id_heap db ! p)"
    using h(2) by (simp add: heap_mset_def heap_inv_def heap_wf_def)
  ultimately have "heap_push (flow_id_heap db ! p) x = None" using heap_push_at_capacity [OF h(2)] by simp
  then have "push_id (flow_id_heap db) (ft_pipe ft) x = None"
    using assms(3,4) h(1) by (simp add: push_id_def)
  with r show ?thesis by (simp add: remove_flow_by_five_tuple_def)
qed

theorem remove_on_other_pipe_overflows_witness:
  "\<exists>db. flow_map (db_flows db) (ft_h (example_key 1)) = Some 4 \<and>
     remove_flow_by_five_tuple small_config False 0 ((example_key 1)\<lparr> dev_port := 200 \<rparr>) db = None"
proof -
  obtain db where db: "db_inv small_config False (\<lambda>_. 0) (\<lambda>_. 0) db" "flow_map (db_flows db) = [ft_h (example_key 1) \<mapsto> 4]"
    using example_db_one_flow by blast
  have "remove_flow_by_five_tuple small_config False 0 ((example_key 1)\<lparr> dev_port := 200 \<rparr>) db = None"
    using db(2) by (intro remove_on_other_pipe_overflows [OF db(1), of _ 4 1])
      (simp_all add: dev_port_to_pipe_def NUM_PIPES_def pipe_id_set_small)
  with db(2) show ?thesis by (intro exI [of _ db]) simp
qed

text \<open>
  C32. When the session ids of a pipe are used up, \<open>add_flow\<close> gives up without undoing its first half:
  the flow stays in the flow table and keeps its flow id, but the data plane never hears of it.
\<close>

theorem session_exhaustion_strands_flow:
  assumes "db_inv cfg us PF PS db" "wf_packet us PF PS ft" "devmap_ok devmap"
    and "aget devmap (uint (dev_port ft)) = Some e" "e \<noteq> - 1"
    and "flow_map (db_flows db) (ft_h ft) = None" "\<not> pipe_id_set cfg (PF (ft_h ft)) \<subseteq> ran (flow_map (db_flows db))"
    and "session_map us (db_sessions db) (session_key us ft) = None"
    and "pipe_id_set cfg (PF (ft_h ft)) \<subseteq> ran (session_map us (db_sessions db))"
  shows "\<exists>db' x. add_flow cfg us devmap uuid ft db = Some db' \<and> x \<noteq> 0 \<and>
    flow_map (db_flows db') (ft_h ft) = Some x \<and> db_ring db' = db_ring db \<and> db_sessions db' = db_sessions db"
proof -
  from assms(1) have D: "flow_table_inv cfg (db_flows db)" "ids_ok cfg (flow_id_heap db) (ran (flow_map (db_flows db)))"
    "session_table_inv cfg us (db_sessions db)" "ids_ok cfg (session_id_heap db) (ran (session_map us (db_sessions db)))"
    "length (uuid_mapping db) = FEATURE_SIZE cfg"
    by (auto simp: db_inv_def flow_part_def session_part_def)
  note w = wf_packet_pipe [OF assms(2)]
  define ft' where "ft' = ft\<lparr> session_id_egress_offset := dev_port_to_pipe e - ft_pipe ft \<rparr>"
  have ft': "ft_h ft' = ft_h ft" "session_key us ft' = session_key us ft" by (simp_all add: ft'_def session_key_def)
  from pop_id_ok [OF D(2) w(1)] assms(7) w(3) obtain x hs where
    x: "pop_id (flow_id_heap db) (ft_pipe ft) = Some (x, hs)" "x \<in> pipe_id_set cfg (PF (ft_h ft))" "x \<notin> ran (flow_map (db_flows db))"
    by auto
  note b = pipe_id_set_bounds [OF x(2) w(1)]
  have "flow_id_free cfg (flow_map (db_flows db)) x" using b x(3) by (simp add: flow_id_free_def)
  from flow_add_new [OF D(1) flow.never_full [OF D(1)] _ this, of ft'] assms(6) ft'(1) obtain flows' where
    f: "flow_hashtable_add cfg (db_flows db) ft' x = Some (0, flows')" "flow_map flows' (ft_h ft) = Some x" by auto
  from pop_id_ok [OF D(4) w(1)] assms(9) w(3) have s: "pop_id (session_id_heap db) (ft_pipe ft) = Some (0, session_id_heap db)"
    by auto
  have g: "session_hashtable_get cfg us (db_sessions db) ft' 0 = Some (1, 0)"
    using session_get_miss [OF D(3) _ session_table_never_full [OF D(3)], of ft' 0] assms(8) ft'(2) by simp
  have F: "0 < FEATURE_SIZE cfg" using b by linarith
  let ?db = "db\<lparr> flow_id_heap := hs, db_flows := flows' \<rparr>"
  have "add_flow_tail cfg us uuid ft' x (ft_pipe ft) ?db = Some (?db\<lparr> uuid_mapping := (uuid_mapping db)[0 := uuid] \<rparr>)"
    using g s F D(5) by (auto simp: add_flow_tail_def add_flow_session_def mk_uuid_def)
  with assms(4,5) x(1) b(1) f show ?thesis
    by (simp add: add_flow_def ft'_def [symmetric] Let_def)
qed

theorem session_exhaustion_strands_flow_witness:
  "\<exists>db db'. add_flow small_config False example_devmap ''u'' (example_key 1) db = Some db' \<and>
     flow_map (db_flows db') (ft_h (example_key 1)) \<noteq> None \<and> db_ring db' = db_ring db"
proof -
  obtain db where db: "db_inv small_config False (\<lambda>_. 0) (\<lambda>_. 0) db" "flow_map (db_flows db) = Map.empty"
    "session_map False (db_sessions db) = Map.empty" using example_db by blast
  then have D: "session_table_inv small_config False (db_sessions db)" "ids_ok small_config (session_id_heap db) {}"
    by (auto simp: db_inv_def session_part_def)
  have "(0 :: nat) < NUM_PIPES" by (simp add: NUM_PIPES_def)
  from pop_id_ok [OF D(2) this] obtain hs where hs: "ids_ok small_config hs {4}" by (auto simp: pipe_id_set_small)
  have "session_id_free small_config (session_map False (db_sessions db)) (example_key 2) 4"
    by (simp add: session_id_free_def db(3))
  from session_add_new [OF D(1) session_table_never_full [OF D(1)] _ this] db(3) obtain t where
    t: "session_table_inv small_config False t" "session_map False t = [session_key False (example_key 2) \<mapsto> 4]" by auto
  let ?db = "db\<lparr> session_id_heap := hs, db_sessions := t \<rparr>"
  have inv: "db_inv small_config False (\<lambda>_. 0) (\<lambda>_. 0) ?db"
    using db(1) t hs by (auto simp: db_inv_def session_part_def pipe_id_set_small)
  have dev: "aget example_devmap (uint (dev_port (example_key 1))) = Some 300"
    by (simp add: example_devmap_def MAX_DEV_PORT_ID_def example_key_def zero_five_tuple_def)
  have "\<exists>db' x. add_flow small_config False example_devmap ''u'' (example_key 1) ?db = Some db' \<and> x \<noteq> 0 \<and>
      flow_map (db_flows db') (ft_h (example_key 1)) = Some x \<and> db_ring db' = db_ring ?db \<and> db_sessions db' = db_sessions ?db"
    using db(2) t(2)
    by (intro session_exhaustion_strands_flow [OF inv example_wf example_devmap_ok dev]) (simp_all add: pipe_id_set_small)
  then show ?thesis by blast
qed

end
