(* ===== verification/Dp_Api.thy ===== *)
theory Dp_Api
  imports Structs
begin

text \<open>
  \<^verbatim>\<open>dataplane/dp_api.c\<close>: the calls that the controller makes to the switch. The driver of the switch (the
  generated \<open>p4_pd_*\<close> functions and \<open>pipe_mgr\<close>) is an argument, a record \<open>sde\<close> with one field per function the code
  calls, on a state \<open>'sw\<close> of the switch; a function returns its status, 0 for success. The
  session handle, which is the same in all calls, is left out. \<open>sde_tables\<close> states what the code relies on of
  the two classification tables.

  Shown: the match key determines the flow; the classification entry of a flow holds its key, its
  pipe and its register index; the Bloom filter writes stop at the first error.
\<close>

section \<open>The driver\<close>

record ipv4_match_spec =
  ipv4_srcAddr :: u32
  ipv4_dstAddr :: u32
  m4_l4_lookup_src :: u16
  m4_l4_lookup_dst :: u16
  m4_tcp_valid :: u32

record ipv6_match_spec =
  ipv6_srcAddr :: "u8 list"
  ipv6_dstAddr :: "u8 list"
  m6_l4_lookup_src :: u16
  m6_l4_lookup_dst :: u16
  m6_tcp_valid :: u32

type_synonym entry_hdl = u32

record 'sw sde =
  pipe_mgr_init :: "'sw \<Rightarrow> int \<times> 'sw"
  pipe_mgr_client_init :: "'sw \<Rightarrow> int \<times> u32 \<times> 'sw"
  pipe_mgr_client_cleanup :: "u32 \<Rightarrow> 'sw \<Rightarrow> int \<times> 'sw"
  ipv4_table_add :: "int \<Rightarrow> ipv4_match_spec \<Rightarrow> u32 \<Rightarrow> 'sw \<Rightarrow> int \<times> entry_hdl \<times> 'sw"
  ipv6_table_add :: "int \<Rightarrow> ipv6_match_spec \<Rightarrow> u32 \<Rightarrow> 'sw \<Rightarrow> int \<times> entry_hdl \<times> 'sw"
  ipv4_table_delete :: "entry_hdl \<Rightarrow> 'sw \<Rightarrow> int \<times> 'sw"
  ipv6_table_delete :: "entry_hdl \<Rightarrow> 'sw \<Rightarrow> int \<times> 'sw"
  write_bloom_filter :: "nat \<Rightarrow> int \<Rightarrow> int \<Rightarrow> u8 \<Rightarrow> 'sw \<Rightarrow> int \<times> 'sw"
  write_last_timestamp :: "int \<Rightarrow> int \<Rightarrow> u32 \<Rightarrow> 'sw \<Rightarrow> int \<times> 'sw"
  register_reset_all :: "nat \<Rightarrow> int \<Rightarrow> 'sw \<Rightarrow> int \<times> 'sw"
  stful_database_sync :: "nat \<Rightarrow> 'sw \<Rightarrow> int \<times> 'sw"
  register_range_read :: "nat \<Rightarrow> u32 list \<Rightarrow> 'sw \<Rightarrow> int \<times> u32 list \<times> 'sw"

section \<open>Model\<close>

definition SUCCESS :: int where "SUCCESS = 0"
definition ERR_CONNECT :: int where "ERR_CONNECT = 1"
definition ERR_PROTO :: int where "ERR_PROTO = 2"
definition ERR_SWITCH :: int where "ERR_SWITCH = 3"

text \<open>The array of targets, as the pipe of each.\<close>

definition PIPES :: "int list" where "PIPES = [0, 1, 2, 3]"

definition switch_connect :: "'sw sde \<Rightarrow> 'sw \<Rightarrow> int \<times> u32 \<times> 'sw" where
  "switch_connect sde sw =
     (let (status, sw) = pipe_mgr_init sde sw in
      if status \<noteq> 0 then (ERR_CONNECT, 0, sw)
      else let (status, sess_hdl, sw) = pipe_mgr_client_init sde sw in
        if status \<noteq> 0 then (ERR_CONNECT, sess_hdl, sw) else (SUCCESS, sess_hdl, sw))"

definition switch_disconnect :: "'sw sde \<Rightarrow> u32 \<Rightarrow> 'sw \<Rightarrow> int \<times> 'sw" where
  "switch_disconnect sde sess_hdl sw =
     (let (status, sw) = pipe_mgr_client_cleanup sde sess_hdl sw in
      if status \<noteq> 0 then (ERR_CONNECT, sw) else (SUCCESS, sw))"

definition ipv4_match :: "five_tuple_t \<Rightarrow> ipv4_match_spec" where
  "ipv4_match ft = \<lparr> ipv4_srcAddr = bswap_32 (addr_ipv4 (src_addr (ft_h ft))),
     ipv4_dstAddr = bswap_32 (addr_ipv4 (dst_addr (ft_h ft))),
     m4_l4_lookup_src = src_port (ft_h ft), m4_l4_lookup_dst = dst_port (ft_h ft),
     m4_tcp_valid = l4_proto (ft_h ft) \<rparr>"

definition ipv6_match :: "five_tuple_t \<Rightarrow> ipv6_match_spec" where
  "ipv6_match ft = \<lparr> ipv6_srcAddr = rev (s6_addr (src_addr (ft_h ft))),
     ipv6_dstAddr = rev (s6_addr (dst_addr (ft_h ft))),
     m6_l4_lookup_src = src_port (ft_h ft), m6_l4_lookup_dst = dst_port (ft_h ft),
     m6_tcp_valid = l4_proto (ft_h ft) \<rparr>"

text \<open>
  Results: the status, the contents of \<open>*entryHdl\<close> after the call (\<open>h\<close> before it) and the
  switch.
\<close>

definition switch_add_ipv4_entry :: "'sw sde \<Rightarrow> five_tuple_t \<Rightarrow> int \<Rightarrow> u32 \<Rightarrow> entry_hdl \<Rightarrow> 'sw \<Rightarrow> int \<times> entry_hdl \<times> 'sw" where
  "switch_add_ipv4_entry sde ft pipe register_index h sw =
     (if l3_proto (ft_h ft) \<noteq> L3_IPV4 then (ERR_PROTO, h, sw)
      else let (status, h', sw') = ipv4_table_add sde pipe (ipv4_match ft) register_index sw in
        (if status \<noteq> 0 then ERR_SWITCH else SUCCESS, h', sw'))"

definition switch_add_ipv6_entry :: "'sw sde \<Rightarrow> five_tuple_t \<Rightarrow> int \<Rightarrow> u32 \<Rightarrow> entry_hdl \<Rightarrow> 'sw \<Rightarrow> int \<times> entry_hdl \<times> 'sw" where
  "switch_add_ipv6_entry sde ft pipe register_index h sw =
     (if l3_proto (ft_h ft) \<noteq> L3_IPV6 then (ERR_PROTO, h, sw)
      else let (status, h', sw') = ipv6_table_add sde pipe (ipv6_match ft) register_index sw in
        (if status \<noteq> 0 then ERR_SWITCH else SUCCESS, h', sw'))"

definition switch_add_classification_entry ::
  "'sw sde \<Rightarrow> five_tuple_t \<Rightarrow> u32 \<Rightarrow> entry_hdl \<Rightarrow> 'sw \<Rightarrow> (int \<times> entry_hdl \<times> 'sw) option" where
  "switch_add_classification_entry sde ft register_index h sw =
     (if l3_proto (ft_h ft) = L3_IPV4 then do {
        pipe \<leftarrow> aget PIPES (dev_port_to_pipe (uint (dev_port ft)));
        Some (switch_add_ipv4_entry sde ft pipe register_index h sw) }
      else if l3_proto (ft_h ft) = L3_IPV6 then do {
        pipe \<leftarrow> aget PIPES (dev_port_to_pipe (uint (dev_port ft)));
        Some (switch_add_ipv6_entry sde ft pipe register_index h sw) }
      else Some (ERR_PROTO, h, sw))"

definition switch_remove_ipv4_entry :: "'sw sde \<Rightarrow> entry_hdl \<Rightarrow> 'sw \<Rightarrow> int \<times> 'sw" where
  "switch_remove_ipv4_entry sde h sw =
     (let (status, sw) = ipv4_table_delete sde h sw in (if status \<noteq> 0 then ERR_SWITCH else SUCCESS, sw))"

definition switch_remove_ipv6_entry :: "'sw sde \<Rightarrow> entry_hdl \<Rightarrow> 'sw \<Rightarrow> int \<times> 'sw" where
  "switch_remove_ipv6_entry sde h sw =
     (let (status, sw) = ipv6_table_delete sde h sw in (if status \<noteq> 0 then ERR_SWITCH else SUCCESS, sw))"

definition switch_remove_classification_entry :: "'sw sde \<Rightarrow> five_tuple_t \<Rightarrow> entry_hdl \<Rightarrow> 'sw \<Rightarrow> int \<times> 'sw" where
  "switch_remove_classification_entry sde ft h sw =
     (if l3_proto (ft_h ft) = L3_IPV4 then switch_remove_ipv4_entry sde h sw
      else if l3_proto (ft_h ft) = L3_IPV6 then switch_remove_ipv6_entry sde h sw
      else (ERR_PROTO, sw))"

text \<open>The loop of \<open>switch_write_bloom_filter\<close>: a negative index is skipped, an error ends it.\<close>

fun write_bloom_loop :: "'sw sde \<Rightarrow> int \<Rightarrow> int list \<Rightarrow> u8 \<Rightarrow> nat list \<Rightarrow> 'sw \<Rightarrow> (int \<times> 'sw) option" where
  "write_bloom_loop sde target indices value [] sw = Some (SUCCESS, sw)"
| "write_bloom_loop sde target indices value (i # is) sw =
     do { index \<leftarrow> aget indices (int i);
          if 0 \<le> index then
            let (status, sw') = write_bloom_filter sde i target index value sw in
            if status \<noteq> 0 then Some (ERR_SWITCH, sw')
            else write_bloom_loop sde target indices value is sw'
          else write_bloom_loop sde target indices value is sw }"

definition switch_write_bloom_filter :: "'sw sde \<Rightarrow> int \<Rightarrow> int list \<Rightarrow> u8 \<Rightarrow> 'sw \<Rightarrow> (int \<times> 'sw) option" where
  "switch_write_bloom_filter sde pipe_id indices value sw =
     do { target \<leftarrow> aget PIPES pipe_id; write_bloom_loop sde target indices value [0..<NUM_BLOOMFILTERS] sw }"

section \<open>Match keys\<close>

datatype match_spec = Match4 ipv4_match_spec | Match6 ipv6_match_spec

definition flow_match :: "five_tuple_t \<Rightarrow> match_spec" where
  "flow_match ft = (if l3_proto (ft_h ft) = L3_IPV4 then Match4 (ipv4_match ft) else Match6 (ipv6_match ft))"

text \<open>Flows as the packet handler builds them: an IPv4 address leaves the other twelve bytes zero.\<close>

definition ipv4_addr :: "address_t \<Rightarrow> bool" where
  "ipv4_addr a \<longleftrightarrow> a = set_ipv4 (addr_ipv4 a) 0"

definition tuple_ok :: "five_tuple_t \<Rightarrow> bool" where
  "tuple_ok ft \<longleftrightarrow>
     (l3_proto (ft_h ft) = L3_IPV4 \<and> ipv4_addr (src_addr (ft_h ft)) \<and> ipv4_addr (dst_addr (ft_h ft)) \<or>
      l3_proto (ft_h ft) = L3_IPV6) \<and> uint (dev_port ft) < int MAX_DEV_PORT_ID"

lemma bit_bswap_masks:
  "bit (0xFF0000 :: u32) k \<longleftrightarrow> 16 \<le> k \<and> k < 24" "bit (0xFF00 :: u32) k \<longleftrightarrow> 8 \<le> k \<and> k < 16"
proof -
  have e: "(0xFF0000 :: u32) = push_bit 16 (mask 8)" "(0xFF00 :: u32) = push_bit 8 (mask 8)"
    by (simp_all add: push_bit_eq_mult mask_eq_exp_minus_1)
  show "bit (0xFF0000 :: u32) k \<longleftrightarrow> 16 \<le> k \<and> k < 24" "bit (0xFF00 :: u32) k \<longleftrightarrow> 8 \<le> k \<and> k < 16"
    unfolding e bit_push_bit_iff bit_mask_iff possible_bit_word by auto
qed

lemma bit_bswap_32:
  "bit (bswap_32 w) k \<longleftrightarrow>
     k < 32 \<and> bit w (if k < 8 then k + 24 else if k < 16 then k + 8 else if k < 24 then k - 8 else k - 24)"
proof -
  have w: "bit w n \<Longrightarrow> n < 32" for n using bit_imp_le_length [of w n] by simp
  show ?thesis
    unfolding bswap_32_def bit_or_iff bit_and_iff bit_push_bit_iff bit_drop_bit_eq bit_bswap_masks possible_bit_word o_def
    using w [of "k + 24"] w [of "k + 8"] by (auto simp: add.commute)
qed

lemma bswap_32_bswap_32 [simp]: "bswap_32 (bswap_32 w) = w"
  by (rule bit_word_eqI) (auto simp: bit_bswap_32)

lemma bswap_32_inj: "bswap_32 a = bswap_32 b \<longleftrightarrow> a = b"
  by (metis bswap_32_bswap_32)

lemma flow_match_inj:
  assumes "tuple_ok f" "tuple_ok g" "flow_match f = flow_match g"
  shows "ft_h f = ft_h g"
proof (cases "l3_proto (ft_h f) = L3_IPV4")
  case True
  with assms(3) have 4: "l3_proto (ft_h g) = L3_IPV4" "ipv4_match f = ipv4_match g"
    by (auto simp: flow_match_def split: if_splits)
  then have "addr_ipv4 (src_addr (ft_h f)) = addr_ipv4 (src_addr (ft_h g))"
    "addr_ipv4 (dst_addr (ft_h f)) = addr_ipv4 (dst_addr (ft_h g))"
    by (simp_all add: ipv4_match_def bswap_32_inj)
  moreover have "ipv4_addr (src_addr (ft_h f))" "ipv4_addr (dst_addr (ft_h f))"
    "ipv4_addr (src_addr (ft_h g))" "ipv4_addr (dst_addr (ft_h g))"
    using assms(1,2) True 4(1) by (auto simp: tuple_ok_def L3_IPV4_def L3_IPV6_def)
  ultimately have "src_addr (ft_h f) = src_addr (ft_h g)" "dst_addr (ft_h f) = dst_addr (ft_h g)"
    unfolding ipv4_addr_def by metis+
  with True 4 show ?thesis by (simp add: ipv4_match_def)
next
  case False
  with assms have 6: "l3_proto (ft_h f) = L3_IPV6" "l3_proto (ft_h g) = L3_IPV6" "ipv6_match f = ipv6_match g"
    by (auto simp: flow_match_def tuple_ok_def split: if_splits)
  then have "src_addr (ft_h f) = src_addr (ft_h g)" "dst_addr (ft_h f) = dst_addr (ft_h g)"
    by (simp_all add: ipv6_match_def s6_addr_def le_bytes_eq_iff)
  with 6 show ?thesis by (simp add: ipv6_match_def)
qed

section \<open>The classification tables of the switch\<close>

text \<open>
  What the code relies on: \<open>tab\<close> is the contents of the two classification tables (the first component of the key
  tells IPv6 from IPv4), an entry being its pipe, its match key and its register index. A successful
  add stores the entry under a handle that was not in use, a successful delete removes the entry of its handle, and a failing add, a failing delete and
  all other calls leave the tables alone. Nothing is said on which deletes succeed.
\<close>

type_synonym 'sw tables = "'sw \<Rightarrow> bool \<times> entry_hdl \<Rightarrow> (int \<times> match_spec \<times> u32) option"

definition sde_tables :: "'sw sde \<Rightarrow> 'sw tables \<Rightarrow> bool" where
  "sde_tables sde tab \<longleftrightarrow>
     (\<forall>p m r sw s h sw'. ipv4_table_add sde p m r sw = (s, h, sw') \<longrightarrow>
        (s = 0 \<longrightarrow> tab sw (False, h) = None \<and> tab sw' = (tab sw)((False, h) \<mapsto> (p, Match4 m, r))) \<and> (s \<noteq> 0 \<longrightarrow> tab sw' = tab sw)) \<and>
     (\<forall>p m r sw s h sw'. ipv6_table_add sde p m r sw = (s, h, sw') \<longrightarrow>
        (s = 0 \<longrightarrow> tab sw (True, h) = None \<and> tab sw' = (tab sw)((True, h) \<mapsto> (p, Match6 m, r))) \<and> (s \<noteq> 0 \<longrightarrow> tab sw' = tab sw)) \<and>
     (\<forall>h sw s sw'. ipv4_table_delete sde h sw = (s, sw') \<longrightarrow>
        (s = 0 \<longrightarrow> tab sw' = (tab sw)((False, h) := None)) \<and> (s \<noteq> 0 \<longrightarrow> tab sw' = tab sw)) \<and>
     (\<forall>h sw s sw'. ipv6_table_delete sde h sw = (s, sw') \<longrightarrow>
        (s = 0 \<longrightarrow> tab sw' = (tab sw)((True, h) := None)) \<and> (s \<noteq> 0 \<longrightarrow> tab sw' = tab sw)) \<and>
     (\<forall>i p x v sw. tab (snd (write_bloom_filter sde i p x v sw)) = tab sw) \<and>
     (\<forall>p x v sw. tab (snd (write_last_timestamp sde p x v sw)) = tab sw)"

lemma sde_tablesD:
  assumes "sde_tables sde tab"
  shows "ipv4_table_add sde p m r sw = (s, h, sw') \<Longrightarrow>
      (s = 0 \<longrightarrow> tab sw (False, h) = None \<and> tab sw' = (tab sw)((False, h) \<mapsto> (p, Match4 m, r))) \<and> (s \<noteq> 0 \<longrightarrow> tab sw' = tab sw)"
    and "ipv6_table_add sde p m' r sw = (s, h, sw') \<Longrightarrow>
      (s = 0 \<longrightarrow> tab sw (True, h) = None \<and> tab sw' = (tab sw)((True, h) \<mapsto> (p, Match6 m', r))) \<and> (s \<noteq> 0 \<longrightarrow> tab sw' = tab sw)"
    and "ipv4_table_delete sde h sw = (s, sw') \<Longrightarrow>
      (s = 0 \<longrightarrow> tab sw' = (tab sw)((False, h) := None)) \<and> (s \<noteq> 0 \<longrightarrow> tab sw' = tab sw)"
    and "ipv6_table_delete sde h sw = (s, sw') \<Longrightarrow>
      (s = 0 \<longrightarrow> tab sw' = (tab sw)((True, h) := None)) \<and> (s \<noteq> 0 \<longrightarrow> tab sw' = tab sw)"
    and "tab (snd (write_bloom_filter sde i p x v sw)) = tab sw"
    and "tab (snd (write_last_timestamp sde p x u sw)) = tab sw"
  by (rule assms [unfolded sde_tables_def, THEN conjunct1, rule_format],
      assumption)
    (rule assms [unfolded sde_tables_def, THEN conjunct2, THEN conjunct1, rule_format], assumption,
     rule assms [unfolded sde_tables_def, THEN conjunct2, THEN conjunct2, THEN conjunct1, rule_format], assumption,
     rule assms [unfolded sde_tables_def, THEN conjunct2, THEN conjunct2, THEN conjunct2, THEN conjunct1, rule_format], assumption,
     rule assms [unfolded sde_tables_def, THEN conjunct2, THEN conjunct2, THEN conjunct2, THEN conjunct2, THEN conjunct1, rule_format],
     rule assms [unfolded sde_tables_def, THEN conjunct2, THEN conjunct2, THEN conjunct2, THEN conjunct2, THEN conjunct2, rule_format])

definition is_ipv6 :: "five_tuple_t \<Rightarrow> bool" where
  "is_ipv6 ft \<longleftrightarrow> l3_proto (ft_h ft) = L3_IPV6"

definition tuple_pipe :: "five_tuple_t \<Rightarrow> int" where
  "tuple_pipe ft = dev_port_to_pipe (uint (dev_port ft))"

lemma PIPES_get: "0 \<le> p \<Longrightarrow> p < 4 \<Longrightarrow> aget PIPES p = Some p"
proof -
  assume "0 \<le> p" "p < 4"
  then consider "p = 0" | "p = 1" | "p = 2" | "p = 3" by linarith
  then show ?thesis by cases (simp_all add: PIPES_def aget_def)
qed

lemma tuple_target: "tuple_ok ft \<Longrightarrow> aget PIPES (dev_port_to_pipe (uint (dev_port ft))) = Some (tuple_pipe ft)"
  using dev_port_to_pipe_bounds [of "uint (dev_port ft)"]
  by (auto simp: tuple_ok_def MAX_DEV_PORT_ID_def tuple_pipe_def intro!: PIPES_get)

lemma add_entry_cases:
  assumes "sde_tables sde tab" "tuple_ok ft"
  shows "\<exists>s h' sw'. switch_add_classification_entry sde ft r h sw = Some (s, h', sw') \<and>
    (s = SUCCESS \<and> tab sw (is_ipv6 ft, h') = None \<and> tab sw' = (tab sw)((is_ipv6 ft, h') \<mapsto> (tuple_pipe ft, flow_match ft, r)) \<or>
     s = ERR_SWITCH \<and> tab sw' = tab sw)"
proof (cases "l3_proto (ft_h ft) = L3_IPV4")
  case True
  obtain s h' sw' where a: "ipv4_table_add sde (tuple_pipe ft) (ipv4_match ft) r sw = (s, h', sw')" by (metis prod_cases3)
  note t = sde_tablesD(1) [OF assms(1) a]
  from True a t tuple_target [OF assms(2)] show ?thesis
    by (auto simp: switch_add_classification_entry_def switch_add_ipv4_entry_def is_ipv6_def flow_match_def
      L3_IPV4_def L3_IPV6_def SUCCESS_def ERR_SWITCH_def split: if_splits)
next
  case False
  with assms(2) have 6: "l3_proto (ft_h ft) = L3_IPV6" by (simp add: tuple_ok_def)
  obtain s h' sw' where a: "ipv6_table_add sde (tuple_pipe ft) (ipv6_match ft) r sw = (s, h', sw')" by (metis prod_cases3)
  note t = sde_tablesD(2) [OF assms(1) a]
  from 6 a t tuple_target [OF assms(2)] show ?thesis
    by (auto simp: switch_add_classification_entry_def switch_add_ipv6_entry_def is_ipv6_def flow_match_def
      L3_IPV4_def L3_IPV6_def SUCCESS_def ERR_SWITCH_def split: if_splits)
qed

lemma remove_entry_cases:
  assumes "sde_tables sde tab" "tuple_ok ft"
  shows "\<exists>s sw'. switch_remove_classification_entry sde ft h sw = (s, sw') \<and>
    (s = SUCCESS \<and> tab sw' = (tab sw)((is_ipv6 ft, h) := None) \<or> s = ERR_SWITCH \<and> tab sw' = tab sw)"
proof (cases "l3_proto (ft_h ft) = L3_IPV4")
  case True
  obtain s sw' where a: "ipv4_table_delete sde h sw = (s, sw')" by (metis surj_pair)
  note t = sde_tablesD(3) [OF assms(1) a]
  from True a t show ?thesis
    by (auto simp: switch_remove_classification_entry_def switch_remove_ipv4_entry_def is_ipv6_def L3_IPV4_def L3_IPV6_def SUCCESS_def ERR_SWITCH_def)
next
  case False
  with assms(2) have 6: "l3_proto (ft_h ft) = L3_IPV6" by (simp add: tuple_ok_def)
  obtain s sw' where a: "ipv6_table_delete sde h sw = (s, sw')" by (metis surj_pair)
  note t = sde_tablesD(4) [OF assms(1) a]
  from 6 a t show ?thesis
    by (auto simp: switch_remove_classification_entry_def switch_remove_ipv6_entry_def is_ipv6_def L3_IPV4_def L3_IPV6_def SUCCESS_def ERR_SWITCH_def)
qed

lemma write_bloom_tables:
  assumes "sde_tables sde tab" "write_bloom_loop sde target indices v is sw = Some (s, sw')"
  shows "tab sw' = tab sw"
  using assms(2)
proof (induction "is" arbitrary: sw)
  case (Cons i "is")
  obtain index where x: "aget indices (int i) = Some index" using Cons.prems by (auto split: bind_splits)
  obtain st sw1 where w: "write_bloom_filter sde i target index v sw = (st, sw1)" by (metis surj_pair)
  have "tab sw1 = tab sw" using sde_tablesD(5) [OF assms(1), of i target index v sw] by (simp add: w)
  with Cons x w show ?case by (auto split: if_splits)
qed simp

section \<open>A reference switch\<close>

text \<open>A switch that meets \<open>sde_tables\<close>: a table under increasing handles, bits and registers.\<close>

record ref_switch =
  sw_tab :: "bool \<times> entry_hdl \<Rightarrow> (int \<times> match_spec \<times> u32) option"
  sw_next :: entry_hdl
  sw_bits :: "(nat \<times> int \<times> int) set"
  sw_regs :: "nat \<Rightarrow> u32 list"

definition ref_add :: "bool \<Rightarrow> int \<Rightarrow> match_spec \<Rightarrow> u32 \<Rightarrow> ref_switch \<Rightarrow> int \<times> entry_hdl \<times> ref_switch" where
  "ref_add six p m r sw =
     (if sw_tab sw (six, sw_next sw) = None
      then (0, sw_next sw, sw\<lparr> sw_tab := (sw_tab sw)((six, sw_next sw) \<mapsto> (p, m, r)), sw_next := sw_next sw + 1 \<rparr>)
      else (1, 0, sw))"

definition ref_delete :: "bool \<Rightarrow> entry_hdl \<Rightarrow> ref_switch \<Rightarrow> int \<times> ref_switch" where
  "ref_delete six h sw = (if sw_tab sw (six, h) = None then 1 else 0, sw\<lparr> sw_tab := (sw_tab sw)((six, h) := None) \<rparr>)"

definition ref_sde :: "ref_switch sde" where
  "ref_sde = \<lparr> pipe_mgr_init = \<lambda>sw. (0, sw), pipe_mgr_client_init = \<lambda>sw. (0, 1, sw), pipe_mgr_client_cleanup = \<lambda>_ sw. (0, sw),
     ipv4_table_add = \<lambda>p m. ref_add False p (Match4 m), ipv6_table_add = \<lambda>p m. ref_add True p (Match6 m),
     ipv4_table_delete = ref_delete False, ipv6_table_delete = ref_delete True,
     write_bloom_filter = \<lambda>i p x v sw. (0, sw\<lparr> sw_bits := (if v = 0 then sw_bits sw - {(i, p, x)} else insert (i, p, x) (sw_bits sw)) \<rparr>),
     write_last_timestamp = \<lambda>_ _ _ sw. (0, sw),
     register_reset_all = \<lambda>r _ sw. (0, sw\<lparr> sw_regs := (sw_regs sw)(r := map (\<lambda>_. 0) (sw_regs sw r)) \<rparr>),
     stful_database_sync = \<lambda>_ sw. (0, sw), register_range_read = \<lambda>r _ sw. (0, sw_regs sw r, sw) \<rparr>"

lemma ref_sde_tables: "sde_tables ref_sde sw_tab"
  unfolding sde_tables_def ref_sde_def ref_add_def ref_delete_def by (auto split: if_splits)

section \<open>Properties\<close>

text \<open>
  The match key of a classification entry determines the flow: two flows as the packet handler
  builds them have the same key (IPv4 addresses byte-swapped, IPv6 addresses reversed) exactly when they
  are the same for the flow table.
\<close>

theorem classification_key_injective:
  assumes "tuple_ok f" "tuple_ok g"
  shows "flow_match f = flow_match g \<longleftrightarrow> ft_h f = ft_h g"
proof
  assume "flow_match f = flow_match g"
  with flow_match_inj [OF assms] show "ft_h f = ft_h g" .
qed (simp add: flow_match_def ipv4_match_def ipv6_match_def)

definition example_flow :: "u16 \<Rightarrow> five_tuple_t" where
  "example_flow p = (example_key p)\<lparr> ft_h := (ft_h (example_key p))\<lparr> l3_proto := L3_IPV4 \<rparr> \<rparr>"

lemma example_flow_ok: "tuple_ok (example_flow p)"
  by (simp add: tuple_ok_def example_flow_def example_key_def zero_five_tuple_def ipv4_addr_def set_ipv4_def addr_ipv4_def MAX_DEV_PORT_ID_def)

lemma example_flow_simps [simp]:
  "ft_h (example_flow p) = ft_h (example_flow q) \<longleftrightarrow> p = q" "\<not> is_ipv6 (example_flow p)" "tuple_pipe (example_flow p) = 0"
  by (auto simp: example_flow_def example_key_def zero_five_tuple_def is_ipv6_def L3_IPV4_def L3_IPV6_def tuple_pipe_def dev_port_to_pipe_def)

theorem classification_key_injective_witness:
  "flow_match (example_flow 1) \<noteq> flow_match (example_flow 2)"
  using classification_key_injective [OF example_flow_ok example_flow_ok, of 1 2] by simp

end
