(* ===== verification/Features.thy ===== *)
theory Features
  imports Dp_Api Session_Hashtable Ring_Buffer
begin

text \<open>
  \<^verbatim>\<open>dataplane/features.c\<close>: the 32 bit feature registers of the switch are read about once per second and
  accumulated into 64 bit values per session; the packet counter also drives the ageing of
  sessions. \<open>sde\<close> is the driver of the switch, \<open>egress\<close> tells for each register whether it is an egress
  register (a generated constant), \<open>now\<close> is the clock in seconds. The \<open>exit(1)\<close> of a failing \<open>clock_gettime\<close> is not modelled: the monotonic clock is
  taken to be there.

  Shown: the accumulated values are the exact totals although the registers wrap around; which
  sessions the ageing reports; a failed read corrupts the values; the ageing threshold wraps around during the first seconds.
\<close>

section \<open>Model\<close>

datatype buffer = Buffer_A | Buffer_B
datatype process = Process | Process_And_Age

record feature_register_t =
  reg_id :: nat
  fr_name :: string
  on_egress :: int
  process_register :: process
  reset_reg :: nat \<comment> \<open>the register that \<open>reset_fn\<close> resets\<close>
  data_plane_ptr :: "buffer option" \<comment> \<open>\<open>None\<close> for the null pointer\<close>
  last_ptr :: "buffer option"
  buffer_a :: "u32 list"
  buffer_b :: "u32 list"
  fr_values :: "u64 list"

definition PACKET_COUNT_REG :: nat where "PACKET_COUNT_REG = 0"
definition SIZE_LOG_REG :: nat where "SIZE_LOG_REG = 1"
definition SIZE_LOG_SQUARE_REG :: nat where "SIZE_LOG_SQUARE_REG = 2"
definition SIZE_LOG_CUBE_REG :: nat where "SIZE_LOG_CUBE_REG = 3"
definition IAT_LOG_REG :: nat where "IAT_LOG_REG = 4"
definition IAT_LOG_SQUARE_REG :: nat where "IAT_LOG_SQUARE_REG = 5"
definition IAT_LOG_CUBE_REG :: nat where "IAT_LOG_CUBE_REG = 6"
definition NUM_FEATURES :: nat where "NUM_FEATURES = 7"

text \<open>A register as its initialiser leaves it: what it does not name is zero or null.\<close>

definition mk_register :: "config \<Rightarrow> (nat \<Rightarrow> int) \<Rightarrow> nat \<Rightarrow> string \<Rightarrow> process \<Rightarrow> nat \<Rightarrow> feature_register_t" where
  "mk_register cfg egress r name p reset =
     \<lparr> reg_id = r, fr_name = name, on_egress = egress r, process_register = p, reset_reg = reset,
       data_plane_ptr = None, last_ptr = None,
       buffer_a = replicate (FEATURE_SIZE cfg) 0, buffer_b = replicate (FEATURE_SIZE cfg) 0,
       fr_values = replicate (FEATURE_SIZE cfg) 0 \<rparr>"

definition features :: "config \<Rightarrow> (nat \<Rightarrow> int) \<Rightarrow> feature_register_t list" where
  "features cfg egress =
     [mk_register cfg egress PACKET_COUNT_REG ''count'' Process_And_Age PACKET_COUNT_REG,
      mk_register cfg egress SIZE_LOG_REG ''size_log'' Process SIZE_LOG_REG,
      mk_register cfg egress SIZE_LOG_SQUARE_REG ''size_log_square'' Process SIZE_LOG_SQUARE_REG,
      mk_register cfg egress SIZE_LOG_CUBE_REG ''size_log_cube'' Process SIZE_LOG_CUBE_REG,
      mk_register cfg egress IAT_LOG_REG ''iat_log'' Process IAT_LOG_SQUARE_REG,
      mk_register cfg egress IAT_LOG_SQUARE_REG ''iat_log_square'' Process IAT_LOG_SQUARE_REG,
      mk_register cfg egress IAT_LOG_CUBE_REG ''iat_log_cube'' Process IAT_LOG_CUBE_REG]"

text \<open>What the readers of the totals rely on: each feature has an array of \<open>FEATURE_SIZE\<close> totals, read on ingress or on egress.\<close>

definition registers_ok :: "config \<Rightarrow> feature_register_t list \<Rightarrow> bool" where
  [inv_defs]: "registers_ok cfg rs \<longleftrightarrow> (\<forall>r \<in> set rs. length (fr_values r) = FEATURE_SIZE cfg \<and> (on_egress r = 0 \<or> on_egress r = 1))"

text \<open>The arrays the two pointers refer to.\<close>

definition buffer_at :: "buffer option \<Rightarrow> feature_register_t \<Rightarrow> u32 list option" where
  "buffer_at p r = (case p of None \<Rightarrow> None | Some Buffer_A \<Rightarrow> Some (buffer_a r) | Some Buffer_B \<Rightarrow> Some (buffer_b r))"

definition set_buffer :: "buffer option \<Rightarrow> u32 list \<Rightarrow> feature_register_t \<Rightarrow> feature_register_t option" where
  "set_buffer p xs r = (case p of None \<Rightarrow> None
     | Some Buffer_A \<Rightarrow> Some (r\<lparr> buffer_a := xs \<rparr>) | Some Buffer_B \<Rightarrow> Some (r\<lparr> buffer_b := xs \<rparr>))"

definition data_plane_values :: "feature_register_t \<Rightarrow> u32 list option" where
  "data_plane_values r = buffer_at (data_plane_ptr r) r"

definition last_data_plane_value :: "feature_register_t \<Rightarrow> u32 list option" where
  "last_data_plane_value r = buffer_at (last_ptr r) r"

definition SWAP_DP_BUFFER :: "feature_register_t \<Rightarrow> feature_register_t" where
  "SWAP_DP_BUFFER r = r\<lparr> last_ptr := data_plane_ptr r, data_plane_ptr := last_ptr r \<rparr>"

definition prepare_feature :: "config \<Rightarrow> feature_register_t \<Rightarrow> feature_register_t \<times> u32 list" where
  "prepare_feature cfg r =
     (r\<lparr> data_plane_ptr := Some Buffer_A, last_ptr := Some Buffer_B,
         buffer_a := replicate (FEATURE_SIZE cfg) 0, buffer_b := replicate (FEATURE_SIZE cfg) 0,
         fr_values := replicate (FEATURE_SIZE cfg) 0 \<rparr>,
      replicate (FEATURE_SIZE cfg) 0)" \<comment> \<open>with the new \<open>last_flow_update\<close>\<close>

definition sync_feature :: "'sw sde \<Rightarrow> feature_register_t \<Rightarrow> 'sw \<Rightarrow> int \<times> 'sw" where
  "sync_feature sde r sw =
     (let (status, sw) = stful_database_sync sde (reg_id r) sw in
      (if status \<noteq> 0 then ERR_SWITCH else SUCCESS, sw))"

definition read_feature :: "'sw sde \<Rightarrow> feature_register_t \<Rightarrow> 'sw \<Rightarrow> (int \<times> feature_register_t \<times> 'sw) option" where
  "read_feature sde r sw =
     do { let r = SWAP_DP_BUFFER r;
          xs \<leftarrow> data_plane_values r;
          let (status, xs, sw) = register_range_read sde (reg_id r) xs sw;
          r \<leftarrow> set_buffer (data_plane_ptr r) xs r;
          Some (if status \<noteq> 0 then ERR_SWITCH else SUCCESS, r, sw) }"

text \<open>The two loops. \<open>dp\<close> and \<open>old\<close> are the arrays of the register; the difference is taken at 32 bits.\<close>

fun process_loop :: "u32 list \<Rightarrow> u32 list \<Rightarrow> nat list \<Rightarrow> u64 list \<Rightarrow> u64 list option" where
  "process_loop dp old [] vs = Some vs"
| "process_loop dp old (i # is) vs =
     do { d \<leftarrow> aget dp (int i); l \<leftarrow> aget old (int i); v \<leftarrow> aget vs (int i);
          vs \<leftarrow> aset vs (int i) (v + ucast (d - l));
          process_loop dp old is vs }"

definition process_feature :: "config \<Rightarrow> feature_register_t \<Rightarrow> feature_register_t option" where
  "process_feature cfg r =
     do { dp \<leftarrow> data_plane_values r;
          old \<leftarrow> last_data_plane_value r;
          vs \<leftarrow> process_loop dp old [MIN_SESSION_ID..<FEATURE_SIZE cfg] (fr_values r);
          Some (r\<lparr> fr_values := vs \<rparr>) }"

type_synonym packet_ring = "packet_item_t ringbuffer"

fun age_loop :: "config \<Rightarrow> u32 \<Rightarrow> u32 \<Rightarrow> int list \<Rightarrow> u32 list \<Rightarrow> u32 list \<Rightarrow> nat list \<Rightarrow>
    u64 list \<times> u32 list \<times> packet_ring \<Rightarrow> (u64 list \<times> u32 list \<times> packet_ring) option" where
  "age_loop cfg now timeout sids dp old [] st = Some st"
| "age_loop cfg now timeout sids dp old (i # is) (vs, upd, ring) =
     do { d \<leftarrow> aget dp (int i); l \<leftarrow> aget old (int i); v \<leftarrow> aget vs (int i);
          vs \<leftarrow> aset vs (int i) (v + ucast (d - l));
          u \<leftarrow> aget upd (int i); session_id \<leftarrow> aget sids (int i);
          if d \<noteq> l \<or> u = 0 \<and> session_id \<noteq> - 1 then do {
            upd \<leftarrow> aset upd (int i) now;
            age_loop cfg now timeout sids dp old is (vs, upd, ring) }
          else if u < timeout \<and> session_id \<noteq> - 1 then do {
            (r, ring) \<leftarrow> ringbuffer_put (PACKET_RINGBUFFER_SIZE cfg) (PKT_TIMEOUT_FLOW session_id) ring;
            upd \<leftarrow> (if r = 0 then aset upd (int i) 0 else Some upd);
            age_loop cfg now timeout sids dp old is (vs, upd, ring) }
          else age_loop cfg now timeout sids dp old is (vs, upd, ring) }"

definition process_and_age_feature :: "config \<Rightarrow> u32 \<Rightarrow> session_hashtable_t \<Rightarrow> feature_register_t \<Rightarrow> u32 list \<Rightarrow> packet_ring \<Rightarrow>
    (feature_register_t \<times> u32 list \<times> packet_ring) option" where
  "process_and_age_feature cfg now sessions r upd ring =
     do { let timeout = now - FLOW_TIMEOUT;
          dp \<leftarrow> data_plane_values r;
          old \<leftarrow> last_data_plane_value r;
          (vs, upd, ring) \<leftarrow> age_loop cfg now timeout (egress_feature_to_session_id sessions)
            dp old [MIN_SESSION_ID..<FEATURE_SIZE cfg] (fr_values r, upd, ring);
          Some (r\<lparr> fr_values := vs \<rparr>, upd, ring) }"

definition set_new_flow_initial_timeout :: "u32 \<Rightarrow> u32 \<Rightarrow> u32 list \<Rightarrow> u32 list option" where
  "set_new_flow_initial_timeout now flow_id upd = aset upd (uint flow_id) now"

text \<open>The loops over all registers.\<close>

record feature_state =
  fs_features :: "feature_register_t list"
  last_flow_update :: "u32 list"

definition reset_on_pipe :: "'sw sde \<Rightarrow> feature_register_t \<Rightarrow> nat \<Rightarrow> 'sw \<Rightarrow> 'sw option" where
  "reset_on_pipe sde r pipe sw =
     do { target \<leftarrow> aget PIPES (int pipe); Some (snd (register_reset_all sde (reset_reg r) target sw)) }"

fun prepare_pipes :: "config \<Rightarrow> 'sw sde \<Rightarrow> nat list \<Rightarrow> feature_register_t \<Rightarrow> u32 list \<Rightarrow> 'sw \<Rightarrow>
    (feature_register_t \<times> u32 list \<times> 'sw) option" where
  "prepare_pipes cfg sde [] r upd sw = Some (r, upd, sw)"
| "prepare_pipes cfg sde (pipe # pipes) r upd sw =
     do { sw \<leftarrow> reset_on_pipe sde r pipe sw;
          let (r, upd) = prepare_feature cfg r;
          prepare_pipes cfg sde pipes r upd sw }"

fun prepare_all :: "config \<Rightarrow> 'sw sde \<Rightarrow> feature_register_t list \<Rightarrow> u32 list \<Rightarrow> 'sw \<Rightarrow>
    (feature_register_t list \<times> u32 list \<times> 'sw) option" where
  "prepare_all cfg sde [] upd sw = Some ([], upd, sw)"
| "prepare_all cfg sde (r # rs) upd sw =
     do { (r, upd, sw) \<leftarrow> prepare_pipes cfg sde [0..<NUM_PIPES] r upd sw;
          (rs, upd, sw) \<leftarrow> prepare_all cfg sde rs upd sw;
          Some (r # rs, upd, sw) }"

definition prepare_features :: "config \<Rightarrow> 'sw sde \<Rightarrow> feature_state \<Rightarrow> 'sw \<Rightarrow> (feature_state \<times> 'sw) option" where
  "prepare_features cfg sde fs sw =
     do { (rs, upd, sw) \<leftarrow> prepare_all cfg sde (fs_features fs) (last_flow_update fs) sw;
          Some (fs\<lparr> fs_features := rs, last_flow_update := upd \<rparr>, sw) }"

fun sync_all :: "'sw sde \<Rightarrow> feature_register_t list \<Rightarrow> 'sw \<Rightarrow> 'sw" where
  "sync_all sde [] sw = sw"
| "sync_all sde (r # rs) sw = sync_all sde rs (snd (sync_feature sde r sw))"

fun read_all :: "'sw sde \<Rightarrow> feature_register_t list \<Rightarrow> 'sw \<Rightarrow> (feature_register_t list \<times> 'sw) option" where
  "read_all sde [] sw = Some ([], sw)"
| "read_all sde (r # rs) sw =
     do { (_, r, sw) \<leftarrow> read_feature sde r sw; (rs, sw) \<leftarrow> read_all sde rs sw; Some (r # rs, sw) }"

fun process_all :: "config \<Rightarrow> u32 \<Rightarrow> session_hashtable_t \<Rightarrow> feature_register_t list \<Rightarrow> u32 list \<Rightarrow> packet_ring \<Rightarrow>
    (feature_register_t list \<times> u32 list \<times> packet_ring) option" where
  "process_all cfg now sessions [] upd ring = Some ([], upd, ring)"
| "process_all cfg now sessions (r # rs) upd ring =
     do { (r, upd, ring) \<leftarrow> (case process_register r of
            Process \<Rightarrow> do { r \<leftarrow> process_feature cfg r; Some (r, upd, ring) }
          | Process_And_Age \<Rightarrow> process_and_age_feature cfg now sessions r upd ring);
          (rs, upd, ring) \<leftarrow> process_all cfg now sessions rs upd ring;
          Some (r # rs, upd, ring) }"

definition read_features :: "config \<Rightarrow> 'sw sde \<Rightarrow> u32 \<Rightarrow> session_hashtable_t \<Rightarrow> feature_state \<Rightarrow> packet_ring \<Rightarrow> 'sw \<Rightarrow>
    (feature_state \<times> packet_ring \<times> 'sw) option" where
  "read_features cfg sde now sessions fs ring sw =
     do { let sw = sync_all sde (fs_features fs) sw;
          (rs, sw) \<leftarrow> read_all sde (fs_features fs) sw;
          (rs, upd, ring) \<leftarrow> process_all cfg now sessions rs (last_flow_update fs) ring;
          Some (fs\<lparr> fs_features := rs, last_flow_update := upd \<rparr>, ring, sw) }"

section \<open>One register\<close>

definition feature_ok :: "config \<Rightarrow> feature_register_t \<Rightarrow> bool" where
  [inv_defs]: "feature_ok cfg r \<longleftrightarrow>
     (data_plane_ptr r = Some Buffer_A \<and> last_ptr r = Some Buffer_B \<or>
      data_plane_ptr r = Some Buffer_B \<and> last_ptr r = Some Buffer_A) \<and>
     length (buffer_a r) = FEATURE_SIZE cfg \<and> length (buffer_b r) = FEATURE_SIZE cfg \<and>
     length (fr_values r) = FEATURE_SIZE cfg"

definition cur :: "feature_register_t \<Rightarrow> u32 list" where
  "cur r = the (data_plane_values r)"

definition old :: "feature_register_t \<Rightarrow> u32 list" where
  "old r = the (last_data_plane_value r)"

lemma feature_ok_buffers:
  assumes "feature_ok cfg r"
  shows "data_plane_values r = Some (cur r)" "last_data_plane_value r = Some (old r)"
    "length (cur r) = FEATURE_SIZE cfg" "length (old r) = FEATURE_SIZE cfg" "length (fr_values r) = FEATURE_SIZE cfg"
  using assms by (auto simp: feature_ok_def cur_def old_def data_plane_values_def last_data_plane_value_def buffer_at_def)

lemma feature_ok_values [simp]:
  "cur (r\<lparr> fr_values := vs \<rparr>) = cur r" "old (r\<lparr> fr_values := vs \<rparr>) = old r"
  "length vs = FEATURE_SIZE cfg \<Longrightarrow> feature_ok cfg r \<Longrightarrow> feature_ok cfg (r\<lparr> fr_values := vs \<rparr>)"
  by (auto simp: cur_def old_def data_plane_values_def last_data_plane_value_def buffer_at_def feature_ok_def
      split: option.split buffer.split)

lemma read_feature_ok:
  assumes "feature_ok cfg r" "register_range_read sde (reg_id r) (old r) sw = (s, xs, sw')" "length xs = FEATURE_SIZE cfg"
  shows "\<exists>r'. read_feature sde r sw = Some (if s \<noteq> 0 then ERR_SWITCH else SUCCESS, r', sw') \<and> feature_ok cfg r' \<and>
    cur r' = xs \<and> old r' = cur r \<and> fr_values r' = fr_values r \<and> reg_id r' = reg_id r \<and> process_register r' = process_register r \<and>
    on_egress r' = on_egress r"
  using assms
  by (auto simp: feature_ok_def read_feature_def SWAP_DP_BUFFER_def cur_def old_def data_plane_values_def
      last_data_plane_value_def buffer_at_def set_buffer_def)

text \<open>The accumulation, as a function of the arrays.\<close>

definition accumulate :: "nat set \<Rightarrow> u32 list \<Rightarrow> u32 list \<Rightarrow> u64 list \<Rightarrow> u64 list \<Rightarrow> bool" where
  "accumulate S dp l vs vs' \<longleftrightarrow> length vs' = length vs \<and>
     (\<forall>i < length vs. vs' ! i = (if i \<in> S then vs ! i + ucast (dp ! i - l ! i) else vs ! i))"

lemma accumulate_step:
  assumes "accumulate S dp l (vs[i := vs ! i + ucast (dp ! i - l ! i)]) vs'" "i \<notin> S" "i < length vs"
  shows "accumulate (insert i S) dp l vs vs'"
  using assms by (auto simp: accumulate_def nth_list_update)

lemma process_loop_ok:
  assumes "length dp = n" "length l = n"
  shows "length vs = n \<Longrightarrow> distinct is \<Longrightarrow> set is \<subseteq> {..<n} \<Longrightarrow>
    \<exists>vs'. process_loop dp l is vs = Some vs' \<and> accumulate (set is) dp l vs vs'"
proof (induction "is" arbitrary: vs)
  case Nil
  then show ?case by (simp add: accumulate_def)
next
  case (Cons i "is")
  let ?vs = "vs[i := vs ! i + ucast (dp ! i - l ! i)]"
  from Cons.IH [of ?vs] Cons.prems obtain vs' where
    "process_loop dp l is ?vs = Some vs'" "accumulate (set is) dp l ?vs vs'" by auto
  with Cons.prems assms accumulate_step [of "set is" dp l vs i vs'] show ?case by auto
qed

definition sessions_range :: "config \<Rightarrow> nat set" where
  "sessions_range cfg = {MIN_SESSION_ID..<FEATURE_SIZE cfg}"

lemma process_feature_ok:
  assumes "feature_ok cfg r"
  shows "\<exists>vs. process_feature cfg r = Some (r\<lparr> fr_values := vs \<rparr>) \<and>
    accumulate (sessions_range cfg) (cur r) (old r) (fr_values r) vs"
proof -
  note b = feature_ok_buffers [OF assms]
  have "set [MIN_SESSION_ID..<FEATURE_SIZE cfg] \<subseteq> {..<FEATURE_SIZE cfg}" by auto
  from process_loop_ok [OF b(3,4,5) _ this] obtain vs where
    "process_loop (cur r) (old r) [MIN_SESSION_ID..<FEATURE_SIZE cfg] (fr_values r) = Some vs"
    "accumulate (sessions_range cfg) (cur r) (old r) (fr_values r) vs" by (auto simp: sessions_range_def)
  with b show ?thesis by (auto simp: process_feature_def)
qed

text \<open>Reading and processing one register, \<open>n\<close> times.\<close>

fun feature_rounds :: "config \<Rightarrow> 'sw sde \<Rightarrow> nat \<Rightarrow> feature_register_t \<Rightarrow> 'sw \<Rightarrow> (feature_register_t \<times> 'sw) option" where
  "feature_rounds cfg sde 0 r sw = Some (r, sw)"
| "feature_rounds cfg sde (Suc n) r sw =
     do { (_, r, sw) \<leftarrow> read_feature sde r sw;
          r \<leftarrow> process_feature cfg r;
          feature_rounds cfg sde n r sw }"

lemma feature_round_ok:
  assumes "feature_ok cfg r" "register_range_read sde (reg_id r) (old r) sw = (s, xs, sw')" "length xs = FEATURE_SIZE cfg"
  shows "\<exists>r'. feature_rounds cfg sde (Suc n) r sw = feature_rounds cfg sde n r' sw' \<and> feature_ok cfg r' \<and> reg_id r' = reg_id r \<and>
    cur r' = xs \<and> old r' = cur r \<and> accumulate (sessions_range cfg) xs (cur r) (fr_values r) (fr_values r')"
proof -
  from read_feature_ok [OF assms] obtain st r1 where
    r1: "read_feature sde r sw = Some (st, r1, sw')" "feature_ok cfg r1" "cur r1 = xs" "old r1 = cur r"
      "fr_values r1 = fr_values r" "reg_id r1 = reg_id r" by blast
  from process_feature_ok [OF r1(2)] obtain vs where
    vs: "process_feature cfg r1 = Some (r1\<lparr> fr_values := vs \<rparr>)" "accumulate (sessions_range cfg) xs (cur r) (fr_values r) vs"
    using r1 by auto
  moreover have "length vs = FEATURE_SIZE cfg" using vs(2) feature_ok_buffers(5) [OF assms(1)] by (simp add: accumulate_def)
  ultimately show ?thesis using r1 by (intro exI [of _ "r1\<lparr> fr_values := vs \<rparr>"]) simp
qed

text \<open>The difference of two 32 bit readings of a counter is its increase, if it grew by less than a full turn.\<close>

lemma ucast_of_nat_u32: "n < 2 ^ 32 \<Longrightarrow> (ucast (of_nat n :: u32) :: u64) = of_nat n"
  by (simp add: unsigned_of_nat take_bit_nat_eq_self)

lemma delta_exact:
  assumes "a \<le> b" "b - a < 2 ^ 32"
  shows "(ucast (of_nat b - of_nat a :: u32) :: u64) = of_nat (b - a)"
proof -
  have "(of_nat b - of_nat a :: u32) = of_nat (b - a)" using assms(1) by simp
  then show ?thesis using ucast_of_nat_u32 [OF assms(2)] by simp
qed

definition readings :: "config \<Rightarrow> (nat \<Rightarrow> nat) \<Rightarrow> u32 list" where
  "readings cfg T = map (\<lambda>i. of_nat (T i)) [0..<FEATURE_SIZE cfg]"

lemma readings_simps [simp]:
  "length (readings cfg T) = FEATURE_SIZE cfg" "i < FEATURE_SIZE cfg \<Longrightarrow> readings cfg T ! i = of_nat (T i)"
  by (simp_all add: readings_def)

lemma feature_rounds_exact:
  assumes "i \<in> sessions_range cfg"
  shows "feature_ok cfg r \<Longrightarrow> cur r = readings cfg (T 0) \<Longrightarrow>
    (\<And>k b. k < n \<Longrightarrow> register_range_read sde (reg_id r) b (S k) = (0, readings cfg (T (Suc k)), S (Suc k))) \<Longrightarrow>
    (\<And>k. k < n \<Longrightarrow> T k i \<le> T (Suc k) i \<and> T (Suc k) i - T k i < 2 ^ 32) \<Longrightarrow>
    \<exists>r'. feature_rounds cfg sde n r (S 0) = Some (r', S n) \<and> T 0 i \<le> T n i \<and>
      fr_values r' ! i = fr_values r ! i + of_nat (T n i - T 0 i)"
proof (induction n arbitrary: r S T)
  case 0
  then show ?case by simp
next
  case (Suc n)
  from Suc.prems(3) [of 0 "old r"] have rd: "register_range_read sde (reg_id r) (old r) (S 0) = (0, readings cfg (T 1), S 1)" by simp
  from feature_round_ok [OF Suc.prems(1) rd, of n] obtain r1 where
    r1: "feature_rounds cfg sde (Suc n) r (S 0) = feature_rounds cfg sde n r1 (S 1)" "feature_ok cfg r1" "reg_id r1 = reg_id r"
      "cur r1 = readings cfg (T 1)" "accumulate (sessions_range cfg) (readings cfg (T 1)) (cur r) (fr_values r) (fr_values r1)"
    by auto
  have i: "i < FEATURE_SIZE cfg" using assms by (simp add: sessions_range_def)
  have t: "T 0 i \<le> T 1 i" "T 1 i - T 0 i < 2 ^ 32" using Suc.prems(4) [of 0] by simp_all
  have v: "fr_values r1 ! i = fr_values r ! i + of_nat (T 1 i - T 0 i)"
    using r1(5) i assms feature_ok_buffers(5) [OF Suc.prems(1)] Suc.prems(2) delta_exact [OF t]
    by (simp add: accumulate_def)
  have "\<exists>r'. feature_rounds cfg sde n r1 (S (Suc 0)) = Some (r', S (Suc n)) \<and> T (Suc 0) i \<le> T (Suc n) i \<and>
      fr_values r' ! i = fr_values r1 ! i + of_nat (T (Suc n) i - T (Suc 0) i)"
    using Suc.IH [of r1 "\<lambda>k. T (Suc k)" "\<lambda>k. S (Suc k)"] r1 Suc.prems(3,4) by simp
  then obtain r' where r': "feature_rounds cfg sde n r1 (S 1) = Some (r', S (Suc n))" "T 1 i \<le> T (Suc n) i"
      "fr_values r' ! i = fr_values r1 ! i + of_nat (T (Suc n) i - T 1 i)" by auto
  have "of_nat (T 1 i - T 0 i) + of_nat (T (Suc n) i - T 1 i) = (of_nat (T (Suc n) i - T 0 i) :: u64)"
    using t(1) r'(2) by (simp flip: of_nat_add)
  with r' r1(1) v t(1) show ?case by (auto simp: add.assoc)
qed

section \<open>Ageing\<close>

text \<open>
  What one pass does with a session slot: it is active when its packet counter changed, or when a session
  has just appeared there; it is expired when it is not active, has a session, and was last seen before the threshold.
\<close>

definition active :: "int list \<Rightarrow> u32 list \<Rightarrow> u32 list \<Rightarrow> u32 list \<Rightarrow> nat \<Rightarrow> bool" where
  "active sids dp l upd i \<longleftrightarrow> dp ! i \<noteq> l ! i \<or> upd ! i = 0 \<and> sids ! i \<noteq> - 1"

definition expired :: "u32 \<Rightarrow> int list \<Rightarrow> u32 list \<Rightarrow> u32 list \<Rightarrow> u32 list \<Rightarrow> nat \<Rightarrow> bool" where
  "expired timeout sids dp l upd i \<longleftrightarrow> \<not> active sids dp l upd i \<and> upd ! i < timeout \<and> sids ! i \<noteq> - 1"

text \<open>The marks of the slots in \<open>S\<close> after a pass that reported the slots in \<open>Z\<close>.\<close>

definition aged :: "u32 \<Rightarrow> int list \<Rightarrow> u32 list \<Rightarrow> u32 list \<Rightarrow> nat set \<Rightarrow> nat set \<Rightarrow> u32 list \<Rightarrow> u32 list \<Rightarrow> bool" where
  "aged now sids dp l S Z upd upd' \<longleftrightarrow> length upd' = length upd \<and>
     (\<forall>i < length upd. upd' ! i = (if i \<notin> S then upd ! i else if active sids dp l upd i then now
        else if i \<in> Z then 0 else upd ! i))"

lemma aged_step:
  assumes "aged now sids dp l S Z (upd[i := x]) upd'" "i \<notin> S" "i < length upd" "Z' - {i} = Z - {i}"
    and "x = (if active sids dp l upd i then now else if i \<in> Z' then 0 else upd ! i)"
  shows "aged now sids dp l (insert i S) Z' upd upd'"
proof -
  have "j \<noteq> i \<Longrightarrow> j \<in> Z' \<longleftrightarrow> j \<in> Z" for j using assms(4) by blast
  with assms(1-3,5) show ?thesis by (auto simp: aged_def nth_list_update active_def)
qed

text \<open>The slots that are reported: the expired ones for which the ring has room.\<close>

definition reported :: "config \<Rightarrow> packet_ring \<Rightarrow> nat list \<Rightarrow> nat list" where
  "reported cfg ring E = take (PACKET_RINGBUFFER_SIZE cfg - length (rb_items (PACKET_RINGBUFFER_SIZE cfg) ring)) E"

lemma report_step:
  assumes "rb_inv (PACKET_RINGBUFFER_SIZE cfg) ring" "length dp = n" "length l = n" "length sids = n" "length vs = n" "length upd = n" "i < n"
    and "R = (expired timeout sids dp l upd i \<and> length (rb_items (PACKET_RINGBUFFER_SIZE cfg) ring) < PACKET_RINGBUFFER_SIZE cfg)"
  obtains ring1 where "rb_inv (PACKET_RINGBUFFER_SIZE cfg) ring1"
    "rb_items (PACKET_RINGBUFFER_SIZE cfg) ring1 = rb_items (PACKET_RINGBUFFER_SIZE cfg) ring @ (if R then [PKT_TIMEOUT_FLOW (sids ! i)] else [])"
    "age_loop cfg now timeout sids dp l (i # is) (vs, upd, ring) = age_loop cfg now timeout sids dp l is
      (vs[i := vs ! i + ucast (dp ! i - l ! i)], upd[i := if active sids dp l upd i then now else if R then 0 else upd ! i], ring1)"
proof (cases "expired timeout sids dp l upd i")
  case True
  let ?N = "PACKET_RINGBUFFER_SIZE cfg"
  from ring.put_accept [OF assms(1), of "PKT_TIMEOUT_FLOW (sids ! i)"] obtain q where
    "ringbuffer_put ?N (PKT_TIMEOUT_FLOW (sids ! i)) ring = Some (if length (rb_items ?N ring) < ?N then 0 else 1, q)" "rb_inv ?N q"
    "rb_items ?N q = q_accept ?N (PKT_TIMEOUT_FLOW (sids ! i)) (rb_items ?N ring)" by blast
  with True assms(2-8) that [of q] show ?thesis
    by (cases "length (rb_items ?N ring) < ?N") (auto simp: expired_def active_def q_accept_def list_update_id)
next
  case False
  with assms(8) have R: "\<not> R" by simp
  show ?thesis
  proof (rule that [of ring, OF assms(1)])
    show "age_loop cfg now timeout sids dp l (i # is) (vs, upd, ring) = age_loop cfg now timeout sids dp l is
      (vs[i := vs ! i + ucast (dp ! i - l ! i)], upd[i := if active sids dp l upd i then now else if R then 0 else upd ! i], ring)"
      using False R assms(2-7) by (auto simp: expired_def active_def list_update_id)
  qed (simp add: R)
qed

lemma age_loop_ok:
  fixes upd :: "u32 list"
  assumes "length dp = n" "length l = n" "length sids = n"
  shows "length vs = n \<Longrightarrow> length upd = n \<Longrightarrow> distinct is \<Longrightarrow> set is \<subseteq> {..<n} \<Longrightarrow> rb_inv (PACKET_RINGBUFFER_SIZE cfg) ring \<Longrightarrow>
    Z = reported cfg ring (filter (expired timeout sids dp l upd) is) \<Longrightarrow>
    \<exists>vs' upd' ring'. age_loop cfg now timeout sids dp l is (vs, upd, ring) = Some (vs', upd', ring') \<and>
      accumulate (set is) dp l vs vs' \<and> aged now sids dp l (set is) (set Z) upd upd' \<and> rb_inv (PACKET_RINGBUFFER_SIZE cfg) ring' \<and>
      rb_items (PACKET_RINGBUFFER_SIZE cfg) ring' = rb_items (PACKET_RINGBUFFER_SIZE cfg) ring @ map (\<lambda>i. PKT_TIMEOUT_FLOW (sids ! i)) Z"
proof (induction "is" arbitrary: vs upd ring Z)
  case Nil
  then show ?case by (simp add: accumulate_def aged_def reported_def)
next
  case (Cons i "is")
  let ?N = "PACKET_RINGBUFFER_SIZE cfg" and ?E = "expired timeout sids dp l upd"
  let ?R = "?E i \<and> length (rb_items ?N ring) < ?N"
  let ?x = "if active sids dp l upd i then now else if ?R then 0 else upd ! i"
  let ?vs = "vs[i := vs ! i + ucast (dp ! i - l ! i)]" and ?upd = "upd[i := ?x]"
  have i: "i < n" "i \<notin> set is" using Cons.prems by auto
  have E: "filter (expired timeout sids dp l ?upd) is = filter ?E is"
  proof (rule filter_cong [OF refl])
    fix x assume "x \<in> set is"
    with i(2) have "i \<noteq> x" by blast
    then show "expired timeout sids dp l ?upd x = ?E x" by (simp add: expired_def active_def)
  qed
  obtain ring1 where ring1: "rb_inv ?N ring1" "rb_items ?N ring1 = rb_items ?N ring @ (if ?R then [PKT_TIMEOUT_FLOW (sids ! i)] else [])"
      "age_loop cfg now timeout sids dp l (i # is) (vs, upd, ring) = age_loop cfg now timeout sids dp l is (?vs, ?upd, ring1)"
    using report_step [OF Cons.prems(5) assms Cons.prems(1,2) i(1) refl] by blast
  have p: "length ?vs = n" "length ?upd = n" "distinct is" "set is \<subseteq> {..<n}" using Cons.prems by simp_all
  let ?Z = "reported cfg ring1 (filter ?E is)"
  from Cons.IH [OF p ring1(1), of ?Z] obtain vs' upd' ring' where
    r: "age_loop cfg now timeout sids dp l is (?vs, ?upd, ring1) = Some (vs', upd', ring')"
      "accumulate (set is) dp l ?vs vs'" "aged now sids dp l (set is) (set ?Z) ?upd upd'" "rb_inv ?N ring'"
      "rb_items ?N ring' = rb_items ?N ring1 @ map (\<lambda>i. PKT_TIMEOUT_FLOW (sids ! i)) ?Z"
    unfolding E by blast
  have Z: "Z = (if ?R then [i] else []) @ ?Z"
    unfolding Cons.prems(6) reported_def ring1(2) by (auto simp: take_Cons')
  have "i \<notin> set ?Z" using i(2) set_take_subset [of _ "filter ?E is"] by (auto simp: reported_def)
  then have "set Z - {i} = set ?Z - {i}" "?x = (if active sids dp l upd i then now else if i \<in> set Z then 0 else upd ! i)" using Z by auto
  from aged_step [OF r(3) i(2) _ this] have "aged now sids dp l (set (i # is)) (set Z) upd upd'" using i(1) Cons.prems(2) by simp
  moreover have "accumulate (set (i # is)) dp l vs vs'" using accumulate_step [OF r(2) i(2)] i(1) Cons.prems(1) by simp
  moreover have "rb_items ?N ring' = rb_items ?N ring @ map (\<lambda>i. PKT_TIMEOUT_FLOW (sids ! i)) Z" unfolding r(5) ring1(2) Z by simp
  ultimately show ?case unfolding ring1(3) r(1) using r(4) by blast
qed

lemma process_and_age_ok:
  assumes "feature_ok cfg r" "length (egress_feature_to_session_id sessions) = FEATURE_SIZE cfg" "length upd = FEATURE_SIZE cfg"
    and "rb_inv (PACKET_RINGBUFFER_SIZE cfg) ring"
    and "Z = reported cfg ring
      (filter (expired (now - FLOW_TIMEOUT) (egress_feature_to_session_id sessions) (cur r) (old r) upd) [MIN_SESSION_ID..<FEATURE_SIZE cfg])"
  shows "\<exists>vs upd' ring'. process_and_age_feature cfg now sessions r upd ring = Some (r\<lparr> fr_values := vs \<rparr>, upd', ring') \<and>
    accumulate (sessions_range cfg) (cur r) (old r) (fr_values r) vs \<and>
    aged now (egress_feature_to_session_id sessions) (cur r) (old r) (sessions_range cfg) (set Z) upd upd' \<and>
    rb_inv (PACKET_RINGBUFFER_SIZE cfg) ring' \<and>
    rb_items (PACKET_RINGBUFFER_SIZE cfg) ring' = rb_items (PACKET_RINGBUFFER_SIZE cfg) ring @
      map (\<lambda>i. PKT_TIMEOUT_FLOW (egress_feature_to_session_id sessions ! i)) Z"
proof -
  note b = feature_ok_buffers [OF assms(1)]
  have S: "set [MIN_SESSION_ID..<FEATURE_SIZE cfg] \<subseteq> {..<FEATURE_SIZE cfg}" by auto
  have e: "set [MIN_SESSION_ID..<FEATURE_SIZE cfg] = sessions_range cfg" by (auto simp: sessions_range_def)
  from age_loop_ok [OF b(3,4) assms(2) b(5) assms(3) distinct_upt S assms(4,5), of now]
  obtain vs upd' ring' where r:
    "age_loop cfg now (now - FLOW_TIMEOUT) (egress_feature_to_session_id sessions) (cur r) (old r) [MIN_SESSION_ID..<FEATURE_SIZE cfg]
        (fr_values r, upd, ring) = Some (vs, upd', ring')"
    "accumulate (sessions_range cfg) (cur r) (old r) (fr_values r) vs"
    "aged now (egress_feature_to_session_id sessions) (cur r) (old r) (sessions_range cfg) (set Z) upd upd'"
    "rb_inv (PACKET_RINGBUFFER_SIZE cfg) ring'"
    "rb_items (PACKET_RINGBUFFER_SIZE cfg) ring' = rb_items (PACKET_RINGBUFFER_SIZE cfg) ring @
      map (\<lambda>i. PKT_TIMEOUT_FLOW (egress_feature_to_session_id sessions ! i)) Z"
    unfolding e by blast
  have "process_and_age_feature cfg now sessions r upd ring = Some (r\<lparr> fr_values := vs \<rparr>, upd', ring')"
    using b(1,2) r(1) by (simp add: process_and_age_feature_def Let_def)
  with r(2-5) show ?thesis by blast
qed

text \<open>\<open>round_ok\<close> relates a register before and after a pass of \<open>read_features\<close>.\<close>

definition round_ok :: "config \<Rightarrow> feature_register_t \<Rightarrow> feature_register_t \<Rightarrow> bool" where
  "round_ok cfg r r' \<longleftrightarrow> feature_ok cfg r' \<and> reg_id r' = reg_id r \<and> on_egress r' = on_egress r \<and> old r' = cur r \<and>
     accumulate (sessions_range cfg) (cur r') (cur r) (fr_values r) (fr_values r')"

definition driver_reads :: "config \<Rightarrow> 'sw sde \<Rightarrow> bool" where
  "driver_reads cfg sde \<longleftrightarrow> (\<forall>i b sw. length b = FEATURE_SIZE cfg \<longrightarrow>
     length (fst (snd (register_range_read sde i b sw))) = FEATURE_SIZE cfg)"

definition half_round :: "config \<Rightarrow> feature_register_t \<Rightarrow> feature_register_t \<Rightarrow> bool" where
  "half_round cfg r r' \<longleftrightarrow> feature_ok cfg r' \<and> reg_id r' = reg_id r \<and> old r' = cur r \<and> fr_values r' = fr_values r \<and>
     process_register r' = process_register r \<and> on_egress r' = on_egress r"

lemma read_all_ok:
  assumes "driver_reads cfg sde"
  shows "\<forall>r \<in> set rs. feature_ok cfg r \<Longrightarrow> \<exists>rs' sw'. read_all sde rs sw = Some (rs', sw') \<and> list_all2 (half_round cfg) rs rs'"
proof (induction rs arbitrary: sw)
  case (Cons r rs)
  obtain s xs sw1 where d: "register_range_read sde (reg_id r) (old r) sw = (s, xs, sw1)" by (metis prod_cases3)
  have ok: "feature_ok cfg r" using Cons.prems by simp
  have "length xs = FEATURE_SIZE cfg"
    using assms d feature_ok_buffers(4) [OF ok] unfolding driver_reads_def by (metis fst_conv snd_conv)
  from read_feature_ok [OF ok d this] obtain st r' where
    "read_feature sde r sw = Some (st, r', sw1)" "half_round cfg r r'" unfolding half_round_def by blast
  moreover from Cons.IH [of sw1] Cons.prems obtain rs' sw' where
    "read_all sde rs sw1 = Some (rs', sw')" "list_all2 (half_round cfg) rs rs'" by auto
  ultimately show ?case by auto
qed simp

lemma half_round_full:
  assumes "half_round cfg r r1" "accumulate (sessions_range cfg) (cur r1) (old r1) (fr_values r1) vs"
  shows "round_ok cfg r (r1\<lparr> fr_values := vs \<rparr>)"
proof -
  have "length vs = FEATURE_SIZE cfg"
    using assms feature_ok_buffers(5) [of cfg r1] by (simp add: half_round_def accumulate_def)
  with assms show ?thesis by (simp add: half_round_def round_ok_def)
qed

lemma process_all_plain:
  "list_all2 (half_round cfg) rs rs1 \<Longrightarrow> \<forall>r \<in> set rs. process_register r = Process \<Longrightarrow>
     \<exists>rs'. process_all cfg now sessions rs1 upd ring = Some (rs', upd, ring) \<and> list_all2 (round_ok cfg) rs rs'"
proof (induction rs rs1 rule: list_all2_induct)
  case (Cons r rs r1 rs1)
  then have p: "process_register r1 = Process" "feature_ok cfg r1" by (auto simp: half_round_def)
  from process_feature_ok [OF p(2)] half_round_full [OF Cons(1)] obtain r' where
    "process_feature cfg r1 = Some r'" "round_ok cfg r r'" by blast
  with Cons p show ?case by auto
qed simp

text \<open>Preparing the registers; \<open>P\<close> is what the resets of the registers leave unchanged.\<close>

definition prepared :: "config \<Rightarrow> feature_register_t \<Rightarrow> bool" where
  "prepared cfg r \<longleftrightarrow> feature_ok cfg r \<and> cur r = replicate (FEATURE_SIZE cfg) 0 \<and> old r = replicate (FEATURE_SIZE cfg) 0 \<and>
     fr_values r = replicate (FEATURE_SIZE cfg) 0"

lemma prepare_feature_prepared:
  "prepared cfg (fst (prepare_feature cfg r))" "snd (prepare_feature cfg r) = replicate (FEATURE_SIZE cfg) 0"
  "reset_reg (fst (prepare_feature cfg r)) = reset_reg r" "process_register (fst (prepare_feature cfg r)) = process_register r"
  "on_egress (fst (prepare_feature cfg r)) = on_egress r"
  by (simp_all add: prepare_feature_def prepared_def feature_ok_def cur_def old_def data_plane_values_def
      last_data_plane_value_def buffer_at_def)

lemma prepare_pipes_ok:
  assumes "\<And>p sw. content (snd (register_reset_all sde (reset_reg r) p sw)) = content sw"
  shows "set pipes \<subseteq> {..<4} \<Longrightarrow> \<exists>r' upd' sw'. prepare_pipes cfg sde pipes r upd sw = Some (r', upd', sw') \<and> content sw' = content sw \<and>
    process_register r' = process_register r \<and> on_egress r' = on_egress r \<and> (if pipes = [] then r' = r \<and> upd' = upd else prepared cfg r' \<and> upd' = replicate (FEATURE_SIZE cfg) 0)"
  using assms
proof (induction pipes arbitrary: r upd sw)
  case (Cons p pipes)
  obtain r1 u where p: "prepare_feature cfg r = (r1, u)" by (metis surj_pair)
  with prepare_feature_prepared [of cfg r] have r1: "prepared cfg r1" "u = replicate (FEATURE_SIZE cfg) 0" "reset_reg r1 = reset_reg r"
    "process_register r1 = process_register r" "on_egress r1 = on_egress r" by simp_all
  have "aget PIPES (int p) = Some (int p)" using Cons.prems(1) by (intro PIPES_get) auto
  then have s: "prepare_pipes cfg sde (p # pipes) r upd sw =
      prepare_pipes cfg sde pipes r1 u (snd (register_reset_all sde (reset_reg r) (int p) sw))"
    by (simp add: reset_on_pipe_def p)
  from Cons.IH [of r1 u "snd (register_reset_all sde (reset_reg r) (int p) sw)"] Cons.prems r1 show ?case
    unfolding s by (auto split: if_splits)
qed simp

lemma prepare_all_ok:
  assumes "\<And>r p sw. r \<in> set rs \<Longrightarrow> content (snd (register_reset_all sde (reset_reg r) p sw)) = content sw"
  shows "\<exists>rs' upd' sw'. prepare_all cfg sde rs upd sw = Some (rs', upd', sw') \<and> content sw' = content sw \<and>
    map process_register rs' = map process_register rs \<and> map on_egress rs' = map on_egress rs \<and> (\<forall>r \<in> set rs'. prepared cfg r) \<and>
    (rs \<noteq> [] \<longrightarrow> upd' = replicate (FEATURE_SIZE cfg) 0)"
  using assms
proof (induction rs arbitrary: upd sw)
  case (Cons r rs)
  have n: "[0..<NUM_PIPES] \<noteq> []" "set [0..<NUM_PIPES] \<subseteq> {..<4}" by (auto simp: NUM_PIPES_def)
  from prepare_pipes_ok [of content sde r, OF Cons.prems [of r] n(2), of cfg upd sw] n(1) obtain r' sw1 where
    r': "prepare_pipes cfg sde [0..<NUM_PIPES] r upd sw = Some (r', replicate (FEATURE_SIZE cfg) 0, sw1)" "content sw1 = content sw"
      "process_register r' = process_register r" "on_egress r' = on_egress r" "prepared cfg r'" by fastforce
  from Cons.IH [of "replicate (FEATURE_SIZE cfg) 0" sw1] Cons.prems obtain rs' upd' sw' where
    "prepare_all cfg sde rs (replicate (FEATURE_SIZE cfg) 0) sw1 = Some (rs', upd', sw')" "content sw' = content sw1"
    "map process_register rs' = map process_register rs" "map on_egress rs' = map on_egress rs" "\<forall>r \<in> set rs'. prepared cfg r"
    "rs \<noteq> [] \<longrightarrow> upd' = replicate (FEATURE_SIZE cfg) 0" by auto
  moreover from this(1,6) have "upd' = replicate (FEATURE_SIZE cfg) 0" by (cases rs) auto
  ultimately show ?case using r' by auto
qed simp

section \<open>Properties\<close>

text \<open>
  C9. Totals. Let \<open>T k i\<close> be the number that register slot \<open>i\<close> has counted in total at the \<open>k\<close>-th reading, of which
  the switch only keeps the lower 32 bits. If the slot counts less than \<open>2 ^ 32\<close> between two readings, then after any number
  of readings the accumulated 64 bit value has grown by exactly what was counted.
\<close>

theorem feature_totals_exact:
  assumes "feature_ok cfg r" "cur r = readings cfg (T 0)" "i \<in> sessions_range cfg"
    and "\<And>k b. k < n \<Longrightarrow> register_range_read sde (reg_id r) b (S k) = (0, readings cfg (T (Suc k)), S (Suc k))"
    and "\<And>k. k < n \<Longrightarrow> T k i \<le> T (Suc k) i \<and> T (Suc k) i - T k i < 2 ^ 32"
  shows "\<exists>r'. feature_rounds cfg sde n r (S 0) = Some (r', S n) \<and>
    fr_values r' ! i = fr_values r ! i + of_nat (T n i - T 0 i)"
  using feature_rounds_exact [OF assms(3,1,2) assms(4,5)] by blast

definition counter_sde :: "(nat \<Rightarrow> u32 list) \<Rightarrow> nat sde" where
  "counter_sde f = \<lparr> pipe_mgr_init = \<lambda>sw. (0, sw), pipe_mgr_client_init = \<lambda>sw. (0, 1, sw), pipe_mgr_client_cleanup = \<lambda>_ sw. (0, sw),
     ipv4_table_add = \<lambda>_ _ _ sw. (1, 0, sw), ipv6_table_add = \<lambda>_ _ _ sw. (1, 0, sw),
     ipv4_table_delete = \<lambda>_ sw. (0, sw), ipv6_table_delete = \<lambda>_ sw. (0, sw),
     write_bloom_filter = \<lambda>_ _ _ _ sw. (0, sw), write_last_timestamp = \<lambda>_ _ _ sw. (0, sw),
     register_reset_all = \<lambda>_ _ sw. (0, sw), stful_database_sync = \<lambda>_ sw. (0, sw),
     register_range_read = \<lambda>_ _ k. (0, f (Suc k), Suc k) \<rparr>"

definition example_register :: feature_register_t where
  "example_register = fst (prepare_feature small_config (mk_register small_config (\<lambda>_. 0) PACKET_COUNT_REG ''count'' Process_And_Age PACKET_COUNT_REG))"

lemma example_register_simps:
  "feature_ok small_config example_register" "cur example_register = replicate 8 0" "old example_register = replicate 8 0"
  "fr_values example_register = replicate 8 0" "reg_id example_register = 0" "process_register example_register = Process_And_Age"
  by (simp_all add: example_register_def prepare_feature_def mk_register_def feature_ok_def cur_def old_def data_plane_values_def
      last_data_plane_value_def buffer_at_def PACKET_COUNT_REG_def)

theorem feature_totals_exact_witness:
  "\<exists>r'. feature_rounds small_config (counter_sde (\<lambda>k. readings small_config (\<lambda>_. k * 3000000000))) 3 example_register 0 = Some (r', 3) \<and>
     fr_values r' ! 5 = 9000000000"
proof -
  have "cur example_register = readings small_config (\<lambda>_. 0 * 3000000000)"
    by (simp add: example_register_simps readings_def map_replicate_const)
  moreover have "5 \<in> sessions_range small_config" by (simp add: sessions_range_def MIN_SESSION_ID_def)
  ultimately show ?thesis
    using feature_totals_exact [of small_config example_register "\<lambda>k _. k * 3000000000" 5 3
        "counter_sde (\<lambda>k. readings small_config (\<lambda>_. k * 3000000000))" "\<lambda>k. k"] example_register_simps
    by (simp add: counter_sde_def)
qed

text \<open>
  C40. A failed reading. The buffers are swapped before the read and its status is ignored: if a read fails and leaves the buffer
  as it was, and the slot had counted anything between the two readings before, then after the next successful
  reading the accumulated value is \<open>2 ^ 32\<close> too high.
\<close>

theorem failed_read_corrupts_total:
  assumes "feature_ok cfg r" "old r = readings cfg A" "cur r = readings cfg B" "i \<in> sessions_range cfg"
    and "A i < B i" "B i \<le> C i" "C i - A i < 2 ^ 32"
    and "register_range_read sde (reg_id r) (old r) sw = (s, old r, sw1)" "s \<noteq> 0"
    and "\<And>b. register_range_read sde (reg_id r) b sw1 = (0, readings cfg C, sw2)"
  shows "\<exists>r'. feature_rounds cfg sde 2 r sw = Some (r', sw2) \<and>
    fr_values r' ! i = fr_values r ! i + of_nat (C i - B i) + 2 ^ 32"
proof -
  have i: "i < FEATURE_SIZE cfg" using assms(4) by (simp add: sessions_range_def)
  have lo: "length (old r) = FEATURE_SIZE cfg" "length (fr_values r) = FEATURE_SIZE cfg"
    using feature_ok_buffers [OF assms(1)] by simp_all
  from feature_round_ok [OF assms(1,8) lo(1), of 1] obtain r1 where
    r1: "feature_rounds cfg sde 2 r sw = feature_rounds cfg sde 1 r1 sw1" "feature_ok cfg r1" "reg_id r1 = reg_id r"
      "cur r1 = readings cfg A" "accumulate (sessions_range cfg) (readings cfg A) (readings cfg B) (fr_values r) (fr_values r1)"
    unfolding assms(2,3) by (auto simp: numeral_2_eq_2)
  have rd: "register_range_read sde (reg_id r1) (old r1) sw1 = (0, readings cfg C, sw2)" using assms(10) r1(3) by simp
  from feature_round_ok [OF r1(2) rd, of 0] obtain r2 where
    r2: "feature_rounds cfg sde 1 r1 sw1 = Some (r2, sw2)"
      "accumulate (sessions_range cfg) (readings cfg C) (readings cfg A) (fr_values r1) (fr_values r2)"
    unfolding r1(4) by auto
  have l1: "length (fr_values r1) = FEATURE_SIZE cfg" using feature_ok_buffers [OF r1(2)] by simp
  have v: "fr_values r2 ! i = fr_values r ! i + ucast (of_nat (A i) - of_nat (B i) :: u32) + ucast (of_nat (C i) - of_nat (A i) :: u32)"
    using r1(5) r2(2) i assms(4) lo l1 by (simp add: accumulate_def)
  have c: "(ucast (of_nat (C i) - of_nat (A i) :: u32) :: u64) = of_nat (C i - A i)"
    using assms(5,6,7) by (intro delta_exact) simp_all
  have w: "(of_nat (A i) - of_nat (B i) :: u32) = of_nat (2 ^ 32 + A i - B i)"
    using assms(5-7) by (simp add: of_nat_diff)
  have a: "(ucast (of_nat (A i) - of_nat (B i) :: u32) :: u64) = of_nat (2 ^ 32 + A i - B i)"
    unfolding w using assms(5-7) by (intro ucast_of_nat_u32) linarith
  have n: "2 ^ 32 + A i - B i + (C i - A i) = C i - B i + 2 ^ 32" using assms(5-7) by simp
  have "(of_nat (2 ^ 32 + A i - B i) + of_nat (C i - A i) :: u64) = of_nat (C i - B i) + 2 ^ 32"
    unfolding of_nat_add [symmetric] n by simp
  with v a c r1(1) r2(1) show ?thesis by (auto simp: add.assoc)
qed

theorem failed_read_corrupts_total_witness:
  "\<exists>r r'. feature_rounds small_config ((counter_sde (\<lambda>k. readings small_config (\<lambda>_. 7)))
       \<lparr> register_range_read := \<lambda>_ b k. if k = 0 then (1, b, 1) else (0, readings small_config (\<lambda>_. 7), Suc k) \<rparr>) 2 r 0 = Some (r', 2) \<and>
     fr_values r ! 5 = 0 \<and> fr_values r' ! 5 = 2 + 2 ^ 32"
proof -
  let ?sde = "(counter_sde (\<lambda>k. readings small_config (\<lambda>_. 7)))
       \<lparr> register_range_read := \<lambda>_ b k. if k = 0 then (1, b, 1) else (0, readings small_config (\<lambda>_. 7), Suc k) \<rparr>"
  let ?r = "example_register\<lparr> buffer_a := replicate 8 5 \<rparr>"
  have r: "feature_ok small_config ?r" "old ?r = readings small_config (\<lambda>_. 0)" "cur ?r = readings small_config (\<lambda>_. 5)"
    "fr_values ?r ! 5 = 0"
    by (simp_all add: example_register_def prepare_feature_def mk_register_def feature_ok_def cur_def old_def data_plane_values_def
      last_data_plane_value_def buffer_at_def readings_def map_replicate_const)
  have "5 \<in> sessions_range small_config" by (simp add: sessions_range_def MIN_SESSION_ID_def)
  from failed_read_corrupts_total [OF r(1-3) this, of "\<lambda>_. 7" ?sde 0 1 1 2] r(4) obtain r' where
    "feature_rounds small_config ?sde 2 ?r 0 = Some (r', 2)" "fr_values r' ! 5 = 2 + 2 ^ 32" by auto
  with r(4) show ?thesis by (intro exI [of _ ?r] exI [of _ r']) simp
qed

text \<open>
  C23. Ageing. One pass over the packet counters accumulates them, marks the slots that were active with the current time, and sends a
  time-out command for each slot with a session that was not active and was last seen before the threshold, in the order
  of the slots, as long as the ring has room, and for no other slot; the reported slots are marked as never seen. All other slots keep their mark, so that
  an expired slot that finds the ring full is expired again in the next pass.
\<close>

theorem ageing_reports_expired:
  assumes "feature_ok cfg r" "length (egress_feature_to_session_id sessions) = FEATURE_SIZE cfg" "length upd = FEATURE_SIZE cfg"
    and "rb_inv (PACKET_RINGBUFFER_SIZE cfg) ring"
    and "E = filter (expired (now - FLOW_TIMEOUT) (egress_feature_to_session_id sessions) (cur r) (old r) upd) [MIN_SESSION_ID..<FEATURE_SIZE cfg]"
  shows "\<exists>vs upd' ring'. process_and_age_feature cfg now sessions r upd ring = Some (r\<lparr> fr_values := vs \<rparr>, upd', ring') \<and>
    accumulate (sessions_range cfg) (cur r) (old r) (fr_values r) vs \<and>
    (\<forall>i \<in> sessions_range cfg. upd' ! i =
       (if active (egress_feature_to_session_id sessions) (cur r) (old r) upd i then now
        else if i \<in> set (take (PACKET_RINGBUFFER_SIZE cfg - length (rb_items (PACKET_RINGBUFFER_SIZE cfg) ring)) E) then 0 else upd ! i)) \<and>
    rb_items (PACKET_RINGBUFFER_SIZE cfg) ring' = rb_items (PACKET_RINGBUFFER_SIZE cfg) ring @
      map (\<lambda>i. PKT_TIMEOUT_FLOW (egress_feature_to_session_id sessions ! i))
        (take (PACKET_RINGBUFFER_SIZE cfg - length (rb_items (PACKET_RINGBUFFER_SIZE cfg) ring)) E)"
proof -
  have "i < length upd" if "i \<in> sessions_range cfg" for i using that assms(3) by (simp add: sessions_range_def)
  with process_and_age_ok [OF assms(1-4) refl, of now] show ?thesis unfolding aged_def reported_def assms(5) by fastforce
qed

lemma example_expired:
  "filter (expired (100 - FLOW_TIMEOUT) [-1, -1, -1, -1, -1, 5, -1, 7] (replicate 8 0) (replicate 8 0) [0, 0, 0, 0, 0, 60, 0, 80])
     [MIN_SESSION_ID..<FEATURE_SIZE small_config] = [5]"
proof -
  have "[4..<8] = [4, 5, 6, 7 :: nat]" by (simp add: upt_rec)
  then show ?thesis by (simp add: MIN_SESSION_ID_def expired_def active_def FLOW_TIMEOUT_def)
qed

theorem ageing_reports_expired_witness:
  "\<exists>r' upd' ring'. process_and_age_feature small_config 100
      ((boot_session_table small_config)\<lparr> egress_feature_to_session_id := [-1, -1, -1, -1, -1, 5, -1, 7] \<rparr>)
      example_register [0, 0, 0, 0, 0, 60, 0, 80] (empty_ring 4 (PKT_TIMEOUT_FLOW 0)) = Some (r', upd', ring') \<and>
    rb_items 4 ring' = [PKT_TIMEOUT_FLOW 5] \<and> upd' ! 7 = 80"
proof -
  let ?t = "(boot_session_table small_config)\<lparr> egress_feature_to_session_id := [-1, -1, -1, -1, -1, 5, -1, 7] \<rparr>"
  let ?u = "[0, 0, 0, 0, 0, 60, 0, 80]"
  have E: "[5] = filter (expired (100 - FLOW_TIMEOUT) (egress_feature_to_session_id ?t) (cur example_register) (old example_register) ?u)
      [MIN_SESSION_ID..<FEATURE_SIZE small_config]"
    using example_expired by (simp add: example_register_simps)
  have "7 \<in> sessions_range small_config" "\<not> active (egress_feature_to_session_id ?t) (cur example_register) (old example_register) ?u 7"
    by (simp_all add: sessions_range_def MIN_SESSION_ID_def active_def example_register_simps)
  moreover have "length (egress_feature_to_session_id ?t) = FEATURE_SIZE small_config" "length ?u = FEATURE_SIZE small_config"
    "rb_inv (PACKET_RINGBUFFER_SIZE small_config) (empty_ring 4 (PKT_TIMEOUT_FLOW 0))"
    by (simp_all add: empty_ring_inv)
  note ageing_reports_expired [OF example_register_simps(1) this E]
  ultimately show ?thesis by (fastforce simp: empty_ring_inv)
qed

text \<open>
  The threshold is computed at 32 bits. From the 30th second of the clock on, a slot is before the threshold exactly when it was
  last seen more than \<open>FLOW_TIMEOUT\<close> seconds ago; earlier, the subtraction wraps around and every slot seen up to now is
  before the threshold, so that every inactive session is timed out.
\<close>

theorem ageing_threshold:
  "(30 \<le> now \<longrightarrow> (upd ! i < now - FLOW_TIMEOUT \<longleftrightarrow> unat (upd ! i) + 30 < unat now)) \<and>
   (now < 30 \<longrightarrow> upd ! i \<le> now \<longrightarrow> \<not> active sids dp l upd i \<longrightarrow> sids ! i \<noteq> - 1 \<longrightarrow> expired (now - FLOW_TIMEOUT) sids dp l upd i)"
proof (intro conjI impI)
  assume "30 \<le> now"
  then have "unat (now - FLOW_TIMEOUT) = unat now - 30" "30 \<le> unat now"
    by (simp_all add: FLOW_TIMEOUT_def unat_sub word_le_nat_alt)
  then show "upd ! i < now - FLOW_TIMEOUT \<longleftrightarrow> unat (upd ! i) + 30 < unat now" by (auto simp: word_less_nat_alt)
next
  assume a: "now < 30" "upd ! i \<le> now" "\<not> active sids dp l upd i" "sids ! i \<noteq> - 1"
  have "unat now < 30" using a(1) by (simp add: word_less_nat_alt)
  have "unat (now - 30) = unat now + (2 ^ 32 - 30)"
    using \<open>unat now < 30\<close> by (simp add: unat_sub_if_size word_size)
  with a \<open>unat now < 30\<close> show "expired (now - FLOW_TIMEOUT) sids dp l upd i"
    by (simp add: expired_def FLOW_TIMEOUT_def word_less_nat_alt word_le_nat_alt)
qed

theorem ageing_threshold_witness:
  "expired (10 - FLOW_TIMEOUT) [5] [0] [0] [9] 0"
  using ageing_threshold [of 10 "[9]" 0 "[5]" "[0]" "[0]"] by (simp add: active_def)

text \<open>
  Preparation sets up and zeroes all registers on the controller's side, but on the switch the register \<open>iat_log\<close> keeps its contents:
  its descriptor names the reset function of \<open>iat_log_square\<close>. \<open>content\<close> is what the switch holds in \<open>iat_log\<close>, which no reset of
  another register changes.
\<close>

theorem prepare_leaves_iat_log:
  assumes "\<And>reg p sw. reg \<noteq> IAT_LOG_REG \<Longrightarrow> content (snd (register_reset_all sde reg p sw)) = content sw"
  shows "\<exists>fs' sw'. prepare_features cfg sde \<lparr> fs_features = features cfg egress, last_flow_update = upd \<rparr> sw = Some (fs', sw') \<and>
    content sw' = content sw \<and> last_flow_update fs' = replicate (FEATURE_SIZE cfg) 0 \<and> (\<forall>r \<in> set (fs_features fs'). prepared cfg r) \<and>
    map process_register (fs_features fs') = Process_And_Age # replicate 6 Process"
proof -
  have f: "reset_reg r \<noteq> IAT_LOG_REG" if "r \<in> set (features cfg egress)" for r
    using that by (auto simp: features_def mk_register_def PACKET_COUNT_REG_def SIZE_LOG_REG_def SIZE_LOG_SQUARE_REG_def
      SIZE_LOG_CUBE_REG_def IAT_LOG_REG_def IAT_LOG_SQUARE_REG_def IAT_LOG_CUBE_REG_def)
  have "map process_register (features cfg egress) = Process_And_Age # replicate 6 Process" "features cfg egress \<noteq> []"
    by (simp_all add: features_def mk_register_def numeral_eq_Suc)
  with prepare_all_ok [of "features cfg egress" content sde cfg upd sw] assms f show ?thesis
    by (auto simp: prepare_features_def)
qed

theorem prepare_leaves_iat_log_witness:
  "\<exists>fs' sw'. prepare_features small_config ref_sde \<lparr> fs_features = features small_config (\<lambda>_. 0), last_flow_update = [] \<rparr>
      \<lparr> sw_tab = Map.empty, sw_next = 0, sw_bits = {}, sw_regs = \<lambda>_. replicate 8 3 \<rparr> = Some (fs', sw') \<and>
     sw_regs sw' IAT_LOG_REG = replicate 8 3"
  using prepare_leaves_iat_log [of "\<lambda>sw. sw_regs sw IAT_LOG_REG" ref_sde small_config "\<lambda>_. 0" "[]"
      "\<lparr> sw_tab = Map.empty, sw_next = 0, sw_bits = {}, sw_regs = \<lambda>_. replicate 8 3 \<rparr>"]
  by (fastforce simp: ref_sde_def)

lemma read_features_ok:
  assumes "fs_features fs = r # rs" "\<forall>r \<in> set (fs_features fs). feature_ok cfg r" "driver_reads cfg sde"
    and "process_register r = Process_And_Age" "\<forall>r \<in> set rs. process_register r = Process"
    and "session_table_inv cfg us sessions" "length (last_flow_update fs) = FEATURE_SIZE cfg"
    and "rb_inv (PACKET_RINGBUFFER_SIZE cfg) ring"
  shows "\<exists>fs' ring' sw'. read_features cfg sde now sessions fs ring sw = Some (fs', ring', sw') \<and>
    list_all2 (round_ok cfg) (fs_features fs) (fs_features fs') \<and> length (last_flow_update fs') = FEATURE_SIZE cfg \<and>
    rb_inv (PACKET_RINGBUFFER_SIZE cfg) ring'"
proof -
  let ?sw = "sync_all sde (fs_features fs) sw" and ?N = "PACKET_RINGBUFFER_SIZE cfg"
  from read_all_ok [OF assms(3,2), of ?sw] assms(1) obtain r1 rs1 sw1 where
    r1: "read_all sde (fs_features fs) ?sw = Some (r1 # rs1, sw1)" "half_round cfg r r1" "list_all2 (half_round cfg) rs rs1"
    by (auto simp: list_all2_Cons1)
  have l: "length (egress_feature_to_session_id sessions) = FEATURE_SIZE cfg"
    using assms(6) by (simp add: session_table_inv_def session_maps_ok_def egress_ok_def)
  have ok1: "feature_ok cfg r1" "process_register r1 = Process_And_Age" using r1(2) assms(4) by (simp_all add: half_round_def)
  from process_and_age_ok [OF ok1(1) l assms(7,8) refl, of now] obtain vs upd' ring' where
    a: "process_and_age_feature cfg now sessions r1 (last_flow_update fs) ring = Some (r1\<lparr> fr_values := vs \<rparr>, upd', ring')"
      "accumulate (sessions_range cfg) (cur r1) (old r1) (fr_values r1) vs" "length upd' = FEATURE_SIZE cfg" "rb_inv ?N ring'"
    using assms(7) by (auto simp: aged_def)
  from process_all_plain [OF r1(3) assms(5)] obtain rs' where
    "process_all cfg now sessions rs1 upd' ring' = Some (rs', upd', ring')" "list_all2 (round_ok cfg) rs rs'" by blast
  then have "process_all cfg now sessions (r1 # rs1) (last_flow_update fs) ring = Some (r1\<lparr> fr_values := vs \<rparr> # rs', upd', ring')"
    "list_all2 (round_ok cfg) (fs_features fs) (r1\<lparr> fr_values := vs \<rparr> # rs')"
    using ok1(2) a(1) half_round_full [OF r1(2) a(2)] assms(1) by simp_all
  with a(3,4) show ?thesis unfolding read_features_def Let_def r1(1) by simp
qed

text \<open>
  C19. A pass of \<open>read_features\<close> over prepared registers, the first of which drives the ageing, returns and advances every register:
  its previous reading becomes the old one, and its values grow by the difference of the readings.
\<close>

theorem read_features_advances:
  assumes "fs_features fs = r # rs" "\<forall>r \<in> set (fs_features fs). feature_ok cfg r" "driver_reads cfg sde"
    and "process_register r = Process_And_Age" "\<forall>r \<in> set rs. process_register r = Process"
    and "session_table_inv cfg us sessions" "length (last_flow_update fs) = FEATURE_SIZE cfg"
    and "rb_inv (PACKET_RINGBUFFER_SIZE cfg) ring"
  shows "\<exists>fs' ring' sw'. read_features cfg sde now sessions fs ring sw = Some (fs', ring', sw') \<and>
    list_all2 (round_ok cfg) (fs_features fs) (fs_features fs') \<and> length (last_flow_update fs') = FEATURE_SIZE cfg \<and>
    rb_inv (PACKET_RINGBUFFER_SIZE cfg) ring'"
  by (rule read_features_ok [OF assms])

theorem read_features_advances_witness:
  "\<exists>fs' ring' sw'. read_features (small_config\<lparr> PACKET_RINGBUFFER_SIZE := 16 \<rparr>) (counter_sde (\<lambda>k. replicate 8 1)) 100
     (boot_session_table (small_config\<lparr> PACKET_RINGBUFFER_SIZE := 16 \<rparr>))
     \<lparr> fs_features = [example_register], last_flow_update = replicate 8 0 \<rparr> (empty_ring 16 (PKT_TIMEOUT_FLOW 0)) 0 = Some (fs', ring', sw')"
proof -
  let ?cfg = "small_config\<lparr> PACKET_RINGBUFFER_SIZE := 16 \<rparr>"
  let ?fs = "\<lparr> fs_features = [example_register], last_flow_update = replicate 8 0 \<rparr>"
  have F: "FEATURE_SIZE ?cfg = 8" by (simp add: FEATURE_SIZE_def NUM_PIPES_def)
  have "cfg_ok ?cfg" using cfg_ok_small by (simp add: cfg_ok_def FLOW_HASHTABLE_SIZE_def)
  then have t: "session_table_inv ?cfg True (boot_session_table ?cfg)" by (rule boot_session_table_inv)
  have d: "driver_reads ?cfg (counter_sde (\<lambda>k. replicate 8 1))" by (simp add: driver_reads_def counter_sde_def F)
  have r: "\<forall>r \<in> set (fs_features ?fs). feature_ok ?cfg r" using example_register_simps(1) by (simp add: feature_ok_def F)
  have q: "rb_inv (PACKET_RINGBUFFER_SIZE ?cfg) (empty_ring 16 (PKT_TIMEOUT_FLOW 0))" by (simp add: empty_ring_inv)
  from read_features_advances [of ?fs example_register "[]" ?cfg, OF _ r d _ _ t _ q] show ?thesis
    by (simp add: example_register_simps F) blast
qed

end
