(* ===== verification/Dataplane.thy ===== *)
theory Dataplane
  imports Dp_Api Features Bloom_Filter
begin

text \<open>
  \<^verbatim>\<open>dataplane/dataplane.c\<close>: the thread that executes the commands of the data plane ring on the switch. It
  remembers the handle of each classification entry under the flow id. \<open>dp_errors\<close> collects the statuses
  that the thread prints.

  Shown: as long as no error is printed, the classification tables of the switch hold exactly one entry per
  installed flow, with its key, its pipe and the register index of its session; the Bloom filter bits of
  the switch.
\<close>

section \<open>Model\<close>

record 'sw dataplane =
  dp_switch :: 'sw
  entry_hdls :: "entry_hdl list"
  dp_features :: "feature_register_t list"
  dp_status :: int
  dp_errors :: "int list"
  dataplane_commands_stat :: u32
  dataplane_add_stat :: u32
  dataplane_remove_stat :: u32
  dataplane_reset_stat :: u32
  dataplane_bloom_add_stat :: u32
  dataplane_bloom_remove_stat :: u32

text \<open>\<open>clear_registers\<close> of this file: the values of the session, then its last timestamp on the switch.\<close>

fun clear_values :: "int \<Rightarrow> int \<Rightarrow> feature_register_t list \<Rightarrow> feature_register_t list option" where
  "clear_values session_id offset [] = Some []"
| "clear_values session_id offset (r # rs) =
     do { vs \<leftarrow> aset (fr_values r) (session_id + on_egress r * offset) 0;
          rs \<leftarrow> clear_values session_id offset rs;
          Some (r\<lparr> fr_values := vs \<rparr> # rs) }"

definition dp_clear_registers :: "'sw sde \<Rightarrow> int \<Rightarrow> five_tuple_t \<Rightarrow> 'sw dataplane \<Rightarrow> 'sw dataplane option" where
  "dp_clear_registers sde session_id ft dp =
     do { rs \<leftarrow> clear_values session_id (session_id_egress_offset ft) (dp_features dp);
          target \<leftarrow> aget PIPES (flow_id_to_pipe session_id);
          let (_, sw) = write_last_timestamp sde target (flow_id_to_register_index session_id) 0 (dp_switch dp);
          Some (dp\<lparr> dp_features := rs, dp_switch := sw \<rparr>) }"

definition report_status :: "'sw dataplane \<Rightarrow> 'sw dataplane" where
  "report_status dp = (if dp_status dp \<noteq> SUCCESS then dp\<lparr> dp_errors := dp_errors dp @ [dp_status dp] \<rparr> else dp)"

text \<open>One iteration of the inner loop of \<open>dataplane_thread\<close>.\<close>

fun execute_command :: "'sw sde \<Rightarrow> dataplane_command_t \<Rightarrow> 'sw dataplane \<Rightarrow> 'sw dataplane option" where
  "execute_command sde (DP_ADD_FLOW ft flow_id session_id) dp =
     do { h \<leftarrow> aget (entry_hdls dp) flow_id;
          (status, h, sw) \<leftarrow> switch_add_classification_entry sde ft (of_int (flow_id_to_register_index session_id)) h (dp_switch dp);
          hs \<leftarrow> aset (entry_hdls dp) flow_id h;
          Some (dp\<lparr> dp_status := status, entry_hdls := hs, dp_switch := sw, dataplane_add_stat := dataplane_add_stat dp + 1 \<rparr>) }"
| "execute_command sde (DP_REMOVE_FLOW ft flow_id) dp =
     do { h \<leftarrow> aget (entry_hdls dp) flow_id;
          let (status, sw) = switch_remove_classification_entry sde ft h (dp_switch dp);
          Some (dp\<lparr> dp_status := status, dp_switch := sw, dataplane_remove_stat := dataplane_remove_stat dp + 1 \<rparr>) }"
| "execute_command sde (DP_CLEAR_REGISTERS ft session_id) dp =
     dp_clear_registers sde session_id ft (dp\<lparr> dataplane_reset_stat := dataplane_reset_stat dp + 1 \<rparr>)"
| "execute_command sde (DP_ADD_BLOOM_FILTER indices pipe) dp =
     do { (status, sw) \<leftarrow> switch_write_bloom_filter sde pipe indices 1 (dp_switch dp);
          Some (dp\<lparr> dp_status := status, dp_switch := sw, dataplane_bloom_add_stat := dataplane_bloom_add_stat dp + 1 \<rparr>) }"
| "execute_command sde (DP_REMOVE_BLOOM_FILTER indices pipe) dp =
     Some (dp\<lparr> dataplane_bloom_remove_stat := dataplane_bloom_remove_stat dp + 1 \<rparr>)"

definition dataplane_command :: "'sw sde \<Rightarrow> dataplane_command_t \<Rightarrow> 'sw dataplane \<Rightarrow> 'sw dataplane option" where
  "dataplane_command sde c dp =
     do { dp \<leftarrow> execute_command sde c (dp\<lparr> dataplane_commands_stat := dataplane_commands_stat dp + 1 \<rparr>);
          Some (report_status dp) }"

fun dataplane_run :: "'sw sde \<Rightarrow> dataplane_command_t list \<Rightarrow> 'sw dataplane \<Rightarrow> 'sw dataplane option" where
  "dataplane_run sde [] dp = Some dp"
| "dataplane_run sde (c # cs) dp = do { dp \<leftarrow> dataplane_command sde c dp; dataplane_run sde cs dp }"

section \<open>Installed flows\<close>

text \<open>
  The flows that a sequence of commands installs, and what the commands have to respect: a flow id is added only
  while it is free, and removed with the protocol of its flow; indices are in range.
\<close>

type_synonym installed = "int \<Rightarrow> (five_tuple_t \<times> int) option"

fun dp_effect :: "dataplane_command_t \<Rightarrow> installed \<Rightarrow> installed" where
  "dp_effect (DP_ADD_FLOW ft flow_id session_id) m = m(flow_id \<mapsto> (ft, session_id))"
| "dp_effect (DP_REMOVE_FLOW ft flow_id) m = m(flow_id := None)"
| "dp_effect _ m = m"

definition clear_index_ok :: "config \<Rightarrow> feature_register_t list \<Rightarrow> int \<Rightarrow> five_tuple_t \<Rightarrow> bool" where
  "clear_index_ok cfg rs session_id ft \<longleftrightarrow> 0 \<le> session_id \<and> session_id < int (FEATURE_SIZE cfg) \<and>
     (\<forall>r \<in> set rs. length (fr_values r) = FEATURE_SIZE cfg \<and>
        0 \<le> session_id + on_egress r * session_id_egress_offset ft \<and>
        session_id + on_egress r * session_id_egress_offset ft < int (FEATURE_SIZE cfg))"

fun dp_admissible :: "config \<Rightarrow> dataplane_command_t \<Rightarrow> installed \<Rightarrow> feature_register_t list \<Rightarrow> bool" where
  "dp_admissible cfg (DP_ADD_FLOW ft flow_id session_id) m rs \<longleftrightarrow>
     0 \<le> flow_id \<and> flow_id < int (FEATURE_SIZE cfg) \<and> m flow_id = None \<and> tuple_ok ft"
| "dp_admissible cfg (DP_REMOVE_FLOW ft flow_id) m rs \<longleftrightarrow>
     0 \<le> flow_id \<and> flow_id < int (FEATURE_SIZE cfg) \<and> tuple_ok ft \<and>
     (\<exists>ft' s. m flow_id = Some (ft', s) \<and> is_ipv6 ft = is_ipv6 ft')"
| "dp_admissible cfg (DP_CLEAR_REGISTERS ft session_id) m rs \<longleftrightarrow> clear_index_ok cfg rs session_id ft"
| "dp_admissible cfg (DP_ADD_BLOOM_FILTER indices pipe) m rs \<longleftrightarrow>
     length indices = NUM_BLOOMFILTERS \<and> 0 \<le> pipe \<and> pipe < int NUM_PIPES"
| "dp_admissible cfg (DP_REMOVE_BLOOM_FILTER indices pipe) m rs \<longleftrightarrow> True"

fun dp_admissible_run :: "config \<Rightarrow> dataplane_command_t list \<Rightarrow> installed \<Rightarrow> feature_register_t list \<Rightarrow> bool" where
  "dp_admissible_run cfg [] m rs \<longleftrightarrow> True"
| "dp_admissible_run cfg (c # cs) m rs \<longleftrightarrow> dp_admissible cfg c m rs \<and> dp_admissible_run cfg cs (dp_effect c m) rs"

text \<open>\<open>mirrored\<close>: the entries of the switch are exactly the installed flows, each under its remembered handle.\<close>

definition flow_slot :: "'sw dataplane \<Rightarrow> int \<Rightarrow> five_tuple_t \<Rightarrow> bool \<times> entry_hdl" where
  "flow_slot dp x ft = (is_ipv6 ft, entry_hdls dp ! nat x)"

definition flow_entry :: "five_tuple_t \<Rightarrow> int \<Rightarrow> int \<times> match_spec \<times> u32" where
  "flow_entry ft s = (tuple_pipe ft, flow_match ft, of_int (flow_id_to_register_index s))"

definition mirrored :: "config \<Rightarrow> 'sw tables \<Rightarrow> installed \<Rightarrow> 'sw dataplane \<Rightarrow> bool" where
  "mirrored cfg tab m dp \<longleftrightarrow>
     (\<forall>x ft s. m x = Some (ft, s) \<longrightarrow> 0 \<le> x \<and> x < int (FEATURE_SIZE cfg) \<and> tab (dp_switch dp) (flow_slot dp x ft) = Some (flow_entry ft s)) \<and>
     (\<forall>k e. tab (dp_switch dp) k = Some e \<longrightarrow> (\<exists>x ft s. m x = Some (ft, s) \<and> k = flow_slot dp x ft)) \<and>
     (\<forall>x ft s y ft' s'. m x = Some (ft, s) \<longrightarrow> m y = Some (ft', s') \<longrightarrow> flow_slot dp x ft = flow_slot dp y ft' \<longrightarrow> x = y)"

lemma mirroredD:
  assumes "mirrored cfg tab m dp"
  shows "m x = Some (ft, s) \<Longrightarrow> 0 \<le> x \<and> x < int (FEATURE_SIZE cfg) \<and> tab (dp_switch dp) (flow_slot dp x ft) = Some (flow_entry ft s)"
    and "tab (dp_switch dp) k = Some e \<Longrightarrow> \<exists>x ft s. m x = Some (ft, s) \<and> k = flow_slot dp x ft"
    and "m x = Some (ft, s) \<Longrightarrow> m y = Some (ft', s') \<Longrightarrow> flow_slot dp x ft = flow_slot dp y ft' \<Longrightarrow> x = y"
  using assms unfolding mirrored_def by blast+

lemma mirrored_cong:
  "tab (dp_switch dp') = tab (dp_switch dp) \<Longrightarrow> entry_hdls dp' = entry_hdls dp \<Longrightarrow> mirrored cfg tab m dp' = mirrored cfg tab m dp"
  by (simp add: mirrored_def flow_slot_def)

lemma mirrored_add:
  assumes m: "mirrored cfg tab m dp" and x: "m x = None" "0 \<le> x" "x < int (FEATURE_SIZE cfg)"
    and len: "length (entry_hdls dp) = FEATURE_SIZE cfg"
    and fresh: "tab (dp_switch dp) (is_ipv6 ft, h) = None"
    and t': "tab (dp_switch dp') = (tab (dp_switch dp))((is_ipv6 ft, h) \<mapsto> flow_entry ft s)"
    and h': "entry_hdls dp' = (entry_hdls dp)[nat x := h]"
  shows "mirrored cfg tab (m(x \<mapsto> (ft, s))) dp'"
proof -
  have slot: "flow_slot dp' x f = (is_ipv6 f, h)" for f using x len by (simp add: flow_slot_def h')
  have other: "flow_slot dp' y f = flow_slot dp y f" if "m y = Some (f, r)" for y f r
  proof -
    have "y \<noteq> x" "0 \<le> y" using that x(1) mirroredD(1) [OF m that] by auto
    then show ?thesis using x(2) by (simp add: flow_slot_def h')
  qed
  have old: "flow_slot dp y f \<noteq> (is_ipv6 ft, h)" if "m y = Some (f, r)" for y f r
    using mirroredD(1) [OF m that] fresh by auto
  have upd: "(m(x \<mapsto> (ft, s))) y = Some (f, r) \<Longrightarrow> y = x \<and> f = ft \<and> r = s \<or> y \<noteq> x \<and> m y = Some (f, r)" for y f r
    by (auto split: if_splits)
  show ?thesis unfolding mirrored_def
  proof (intro conjI allI impI)
    fix y f r assume y: "(m(x \<mapsto> (ft, s))) y = Some (f, r)"
    from upd [OF y] show "0 \<le> y" "y < int (FEATURE_SIZE cfg)" using x mirroredD(1) [OF m] by blast+
    from upd [OF y] show "tab (dp_switch dp') (flow_slot dp' y f) = Some (flow_entry f r)"
      using mirroredD(1) [OF m, of y f r] other [of y f r] old [of y f r] slot [of ft] by (auto simp: t')
  next
    fix k e assume k: "tab (dp_switch dp') k = Some e"
    show "\<exists>y f r. (m(x \<mapsto> (ft, s))) y = Some (f, r) \<and> k = flow_slot dp' y f"
    proof (cases "k = (is_ipv6 ft, h)")
      case True
      with slot show ?thesis by (intro exI [of _ x] exI [of _ ft] exI [of _ s]) simp
    next
      case False
      with k t' have "tab (dp_switch dp) k = Some e" by simp
      from mirroredD(2) [OF m this] obtain y f r where y: "m y = Some (f, r)" "k = flow_slot dp y f" by blast
      moreover from y(1) x(1) have "y \<noteq> x" by auto
      ultimately show ?thesis using other [OF y(1)] by (intro exI [of _ y] exI [of _ f] exI [of _ r]) simp
    qed
  next
    fix y f r z f' r'
    assume y: "(m(x \<mapsto> (ft, s))) y = Some (f, r)" and z: "(m(x \<mapsto> (ft, s))) z = Some (f', r')"
      and eq: "flow_slot dp' y f = flow_slot dp' z f'"
    from upd [OF y] upd [OF z] eq show "y = z"
      using other [of y f r] other [of z f' r'] old [of y f r] old [of z f' r'] slot mirroredD(3) [OF m, of y f r z f' r'] by auto
  qed
qed

lemma mirrored_remove:
  assumes m: "mirrored cfg tab m dp" and x: "m x = Some (ft', s)" "is_ipv6 ft = is_ipv6 ft'"
    and t': "tab (dp_switch dp') = (tab (dp_switch dp))(flow_slot dp x ft := None)"
    and h': "entry_hdls dp' = entry_hdls dp"
  shows "mirrored cfg tab (m(x := None)) dp'"
proof -
  have slot: "flow_slot dp' y f = flow_slot dp y f" for y f by (simp add: flow_slot_def h')
  have sx: "flow_slot dp x ft = flow_slot dp x ft'" using x(2) by (simp add: flow_slot_def)
  have upd: "(m(x := None)) y = Some (f, r) \<longleftrightarrow> y \<noteq> x \<and> m y = Some (f, r)" for y f r by auto
  have ne: "flow_slot dp y f \<noteq> flow_slot dp x ft" if "m y = Some (f, r)" "y \<noteq> x" for y f r
    using mirroredD(3) [OF m that(1) x(1)] that(2) sx by auto
  show ?thesis unfolding mirrored_def slot upd t'
  proof (intro conjI allI impI)
    fix y f r assume "y \<noteq> x \<and> m y = Some (f, r)"
    then show "0 \<le> y" "y < int (FEATURE_SIZE cfg)" "((tab (dp_switch dp))(flow_slot dp x ft := None)) (flow_slot dp y f) = Some (flow_entry f r)"
      using mirroredD(1) [OF m, of y f r] ne [of y f r] by auto
  next
    fix k e assume k: "((tab (dp_switch dp))(flow_slot dp x ft := None)) k = Some e"
    then have k: "k \<noteq> flow_slot dp x ft" "tab (dp_switch dp) k = Some e" by (auto split: if_splits)
    from mirroredD(2) [OF m k(2)] obtain y f r where "m y = Some (f, r)" "k = flow_slot dp y f" by blast
    moreover from this have "y \<noteq> x" using k(1) x(1) sx by auto
    ultimately show "\<exists>y f r. (y \<noteq> x \<and> m y = Some (f, r)) \<and> k = flow_slot dp y f" by blast
  next
    fix y f r z f' r' assume "y \<noteq> x \<and> m y = Some (f, r)" "z \<noteq> x \<and> m z = Some (f', r')" "flow_slot dp y f = flow_slot dp z f'"
    then show "y = z" using mirroredD(3) [OF m] by blast
  qed
qed

section \<open>Executing commands\<close>

definition same_shape :: "feature_register_t list \<Rightarrow> feature_register_t list \<Rightarrow> bool" where
  "same_shape rs rs' \<longleftrightarrow> list_all2 (\<lambda>r r'. length (fr_values r) = length (fr_values r') \<and> on_egress r = on_egress r') rs rs'"

definition dp_ok :: "config \<Rightarrow> feature_register_t list \<Rightarrow> 'sw dataplane \<Rightarrow> bool" where
  [inv_defs]: "dp_ok cfg rs dp \<longleftrightarrow> length (entry_hdls dp) = FEATURE_SIZE cfg \<and> same_shape rs (dp_features dp)"

lemma clear_values_ok:
  "same_shape rs rs1 \<Longrightarrow> clear_index_ok cfg rs session_id ft \<Longrightarrow>
     \<exists>rs'. clear_values session_id (session_id_egress_offset ft) rs1 = Some rs' \<and> same_shape rs rs'"
  unfolding same_shape_def
proof (induction rs rs1 rule: list_all2_induct)
  case (Cons r rs r1 rs1)
  have "clear_index_ok cfg rs session_id ft" using Cons.prems by (simp add: clear_index_ok_def)
  with Cons.IH obtain rs' where "clear_values session_id (session_id_egress_offset ft) rs1 = Some rs'"
    "list_all2 (\<lambda>r r'. length (fr_values r) = length (fr_values r') \<and> on_egress r = on_egress r') rs rs'" by blast
  moreover have "aset (fr_values r1) (session_id + on_egress r1 * session_id_egress_offset ft) 0 =
      Some ((fr_values r1)[nat (session_id + on_egress r1 * session_id_egress_offset ft) := 0])"
    using Cons.prems Cons.hyps(1) by (intro aset_Some) (auto simp: clear_index_ok_def)
  ultimately show ?case using Cons.hyps(1) by simp
qed simp

lemma flow_id_to_pipe_bounds: "0 \<le> x \<Longrightarrow> aget PIPES (flow_id_to_pipe x) = Some (flow_id_to_pipe x)"
  by (intro PIPES_get) (simp_all add: flow_id_to_pipe_def smod_int_alt_def sgn_if)

text \<open>The driver succeeds or the thread reports it; a command never leaves an array.\<close>

lemma write_bloom_total:
  "length indices = NUM_BLOOMFILTERS \<Longrightarrow> set is \<subseteq> {..<NUM_BLOOMFILTERS} \<Longrightarrow>
     \<exists>s sw'. write_bloom_loop sde target indices v is sw = Some (s, sw')"
proof (induction "is" arbitrary: sw)
  case (Cons i "is")
  obtain st sw1 where "write_bloom_filter sde i target (indices ! i) v sw = (st, sw1)" by (metis surj_pair)
  with Cons show ?case by (auto simp: Let_def)
qed simp

lemma execute_cases:
  assumes T: "sde_tables sde tab" and ok: "dp_ok cfg rs dp" and a: "dp_admissible cfg c m rs"
  shows "\<exists>dp'. execute_command sde c dp = Some dp' \<and> dp_ok cfg rs dp' \<and> dp_errors dp' = dp_errors dp \<and>
    (mirrored cfg tab m dp \<and> dp_status dp = SUCCESS \<and> dp_status dp' = SUCCESS \<longrightarrow> mirrored cfg tab (dp_effect c m) dp')"
proof (cases c)
  case (DP_ADD_FLOW ft x s)
  with a have x: "0 \<le> x" "x < int (FEATURE_SIZE cfg)" "m x = None" "tuple_ok ft" by auto
  from ok have len: "length (entry_hdls dp) = FEATURE_SIZE cfg" by (simp add: dp_ok_def)
  let ?reg = "of_int (flow_id_to_register_index s)"
  from add_entry_cases [OF T x(4), of ?reg "entry_hdls dp ! nat x" "dp_switch dp"] obtain st h sw where
    e: "switch_add_classification_entry sde ft ?reg (entry_hdls dp ! nat x) (dp_switch dp) = Some (st, h, sw)"
    and r: "st = SUCCESS \<and> tab (dp_switch dp) (is_ipv6 ft, h) = None \<and> tab sw = (tab (dp_switch dp))((is_ipv6 ft, h) \<mapsto> (tuple_pipe ft, flow_match ft, ?reg)) \<or>
      st = ERR_SWITCH \<and> tab sw = tab (dp_switch dp)" by blast
  let ?dp = "dp\<lparr> dp_status := st, entry_hdls := (entry_hdls dp)[nat x := h], dp_switch := sw, dataplane_add_stat := dataplane_add_stat dp + 1 \<rparr>"
  have "execute_command sde c dp = Some ?dp"
    using DP_ADD_FLOW x len e by (simp add: aget_Some aset_Some)
  moreover have "dp_ok cfg rs ?dp" using ok by (simp add: dp_ok_def)
  moreover have "mirrored cfg tab m dp \<and> st = SUCCESS \<longrightarrow> mirrored cfg tab (m(x \<mapsto> (ft, s))) ?dp"
    using mirrored_add [of cfg tab m dp x ft h ?dp s] r x len by (auto simp: flow_entry_def SUCCESS_def ERR_SWITCH_def)
  ultimately show ?thesis using DP_ADD_FLOW by auto
next
  case (DP_REMOVE_FLOW ft x)
  with a obtain ft' s where x: "0 \<le> x" "x < int (FEATURE_SIZE cfg)" "tuple_ok ft" "m x = Some (ft', s)" "is_ipv6 ft = is_ipv6 ft'" by auto
  from ok have len: "length (entry_hdls dp) = FEATURE_SIZE cfg" by (simp add: dp_ok_def)
  from remove_entry_cases [OF T x(3), of "entry_hdls dp ! nat x" "dp_switch dp"] obtain st sw where
    r: "switch_remove_classification_entry sde ft (entry_hdls dp ! nat x) (dp_switch dp) = (st, sw)"
      "st = SUCCESS \<Longrightarrow> tab sw = (tab (dp_switch dp))((is_ipv6 ft, entry_hdls dp ! nat x) := None)"
    by (auto simp: SUCCESS_def ERR_SWITCH_def)
  let ?dp = "dp\<lparr> dp_status := st, dp_switch := sw, dataplane_remove_stat := dataplane_remove_stat dp + 1 \<rparr>"
  have "execute_command sde c dp = Some ?dp" using DP_REMOVE_FLOW x len r(1) by (simp add: aget_Some)
  moreover have "dp_ok cfg rs ?dp" using ok by (simp add: dp_ok_def)
  moreover have "mirrored cfg tab m dp \<and> st = SUCCESS \<longrightarrow> mirrored cfg tab (m(x := None)) ?dp"
    using mirrored_remove [of cfg tab m dp x ft' s ft ?dp] x(4,5) r(2) by (auto simp: flow_slot_def)
  ultimately show ?thesis using DP_REMOVE_FLOW by auto
next
  case (DP_CLEAR_REGISTERS ft s)
  with a have c: "clear_index_ok cfg rs s ft" by simp
  let ?dp = "dp\<lparr> dataplane_reset_stat := dataplane_reset_stat dp + 1 \<rparr>"
  from clear_values_ok [OF _ c, of "dp_features dp"] ok obtain rs' where
    r: "clear_values s (session_id_egress_offset ft) (dp_features dp) = Some rs'" "same_shape rs rs'" by (auto simp: dp_ok_def)
  have p: "aget PIPES (flow_id_to_pipe s) = Some (flow_id_to_pipe s)" using c by (intro flow_id_to_pipe_bounds) (simp add: clear_index_ok_def)
  obtain st sw where w: "write_last_timestamp sde (flow_id_to_pipe s) (flow_id_to_register_index s) 0 (dp_switch dp) = (st, sw)" by (metis surj_pair)
  have "tab sw = tab (dp_switch dp)"
    using sde_tablesD(6) [OF T, of "flow_id_to_pipe s" "flow_id_to_register_index s" 0 "dp_switch dp"] w by simp
  with DP_CLEAR_REGISTERS r p w ok show ?thesis
    by (auto simp: dp_clear_registers_def dp_ok_def mirrored_def flow_slot_def)
next
  case (DP_ADD_BLOOM_FILTER indices pipe)
  with a have c: "length indices = NUM_BLOOMFILTERS" "aget PIPES pipe = Some pipe"
    by (auto simp: NUM_PIPES_def intro!: PIPES_get)
  have "set [0..<NUM_BLOOMFILTERS] \<subseteq> {..<NUM_BLOOMFILTERS}" by auto
  from write_bloom_total [OF c(1) this] obtain st sw where
    w: "write_bloom_loop sde pipe indices 1 [0..<NUM_BLOOMFILTERS] (dp_switch dp) = Some (st, sw)" by metis
  from write_bloom_tables [OF T w] DP_ADD_BLOOM_FILTER c w ok show ?thesis
    by (auto simp: switch_write_bloom_filter_def dp_ok_def mirrored_def flow_slot_def)
next
  case (DP_REMOVE_BLOOM_FILTER indices pipe)
  with ok show ?thesis by (auto simp: dp_ok_def mirrored_def flow_slot_def)
qed

lemma dataplane_command_ok:
  assumes "sde_tables sde tab" "dp_ok cfg rs dp" "dp_admissible cfg c m rs"
  shows "\<exists>dp' es. dataplane_command sde c dp = Some dp' \<and> dp_ok cfg rs dp' \<and> dp_errors dp' = dp_errors dp @ es \<and>
    (mirrored cfg tab m dp \<and> dp_status dp = SUCCESS \<and> es = [] \<longrightarrow> dp_status dp' = SUCCESS \<and> mirrored cfg tab (dp_effect c m) dp')"
proof -
  let ?dp = "dp\<lparr> dataplane_commands_stat := dataplane_commands_stat dp + 1 \<rparr>"
  have "dp_ok cfg rs ?dp" "mirrored cfg tab m ?dp = mirrored cfg tab m dp"
    using assms(2) by (simp_all add: dp_ok_def mirrored_def flow_slot_def)
  with execute_cases [OF assms(1) _ assms(3), of ?dp] obtain dp1 where
    d: "execute_command sde c ?dp = Some dp1" "dp_ok cfg rs dp1" "dp_errors dp1 = dp_errors dp"
      "mirrored cfg tab m dp \<and> dp_status dp = SUCCESS \<and> dp_status dp1 = SUCCESS \<longrightarrow> mirrored cfg tab (dp_effect c m) dp1" by auto
  have "dp_ok cfg rs (report_status dp1)" using d(2) by (simp add: report_status_def dp_ok_def)
  with d show ?thesis
    by (intro exI [of _ "report_status dp1"] exI [of _ "if dp_status dp1 = SUCCESS then [] else [dp_status dp1]"])
      (simp add: dataplane_command_def report_status_def)
qed

lemma dataplane_run_ok:
  assumes "sde_tables sde tab"
  shows "dp_ok cfg rs dp \<Longrightarrow> dp_admissible_run cfg cs m rs \<Longrightarrow>
    \<exists>dp' es. dataplane_run sde cs dp = Some dp' \<and> dp_ok cfg rs dp' \<and> dp_errors dp' = dp_errors dp @ es \<and>
      (mirrored cfg tab m dp \<and> dp_status dp = SUCCESS \<and> es = [] \<longrightarrow> mirrored cfg tab (fold dp_effect cs m) dp')"
proof (induction cs arbitrary: dp m)
  case (Cons c cs)
  then have a: "dp_admissible cfg c m rs" "dp_admissible_run cfg cs (dp_effect c m) rs" by auto
  from dataplane_command_ok [OF assms Cons.prems(1) a(1)] obtain dp1 es1 where
    1: "dataplane_command sde c dp = Some dp1" "dp_ok cfg rs dp1" "dp_errors dp1 = dp_errors dp @ es1"
      "mirrored cfg tab m dp \<and> dp_status dp = SUCCESS \<and> es1 = [] \<longrightarrow> dp_status dp1 = SUCCESS \<and> mirrored cfg tab (dp_effect c m) dp1" by blast
  from Cons.IH [OF 1(2) a(2)] obtain dp' es2 where
    2: "dataplane_run sde cs dp1 = Some dp'" "dp_ok cfg rs dp'" "dp_errors dp' = dp_errors dp1 @ es2"
      "mirrored cfg tab (dp_effect c m) dp1 \<and> dp_status dp1 = SUCCESS \<and> es2 = [] \<longrightarrow> mirrored cfg tab (fold dp_effect cs (dp_effect c m)) dp'" by blast
  with 1 show ?case by (intro exI [of _ dp'] exI [of _ "es1 @ es2"]) auto
qed auto

section \<open>Bloom filter bits\<close>

text \<open>
  What the code relies on: \<open>bits\<close> are the Bloom filter bits of the switch (filter, pipe, index). A successful write of a non-zero value sets the bit,
  and nothing but a write of zero clears one.
\<close>

type_synonym bits = "(nat \<times> int \<times> int) set"

definition sde_bits :: "'sw sde \<Rightarrow> ('sw \<Rightarrow> bits) \<Rightarrow> bool" where
  "sde_bits sde bits \<longleftrightarrow>
     (\<forall>i p x v sw s sw'. write_bloom_filter sde i p x v sw = (s, sw') \<longrightarrow> v \<noteq> 0 \<longrightarrow>
        bits sw \<subseteq> bits sw' \<and> (s = 0 \<longrightarrow> (i, p, x) \<in> bits sw')) \<and>
     (\<forall>p m r sw. bits (snd (snd (ipv4_table_add sde p m r sw))) = bits sw) \<and>
     (\<forall>p m r sw. bits (snd (snd (ipv6_table_add sde p m r sw))) = bits sw) \<and>
     (\<forall>h sw. bits (snd (ipv4_table_delete sde h sw)) = bits sw) \<and>
     (\<forall>h sw. bits (snd (ipv6_table_delete sde h sw)) = bits sw) \<and>
     (\<forall>p x v sw. bits (snd (write_last_timestamp sde p x v sw)) = bits sw)"

lemma sde_bitsD:
  assumes "sde_bits sde bits"
  shows "write_bloom_filter sde i p x v sw = (s, sw') \<Longrightarrow> v \<noteq> 0 \<Longrightarrow> bits sw \<subseteq> bits sw' \<and> (s = 0 \<longrightarrow> (i, p, x) \<in> bits sw')"
    and "bits (snd (snd (ipv4_table_add sde p m r sw))) = bits sw" "bits (snd (snd (ipv6_table_add sde p m' r sw))) = bits sw"
    and "bits (snd (ipv4_table_delete sde h sw)) = bits sw" "bits (snd (ipv6_table_delete sde h sw)) = bits sw"
    and "bits (snd (write_last_timestamp sde p x u sw)) = bits sw"
  by (rule assms [unfolded sde_bits_def, THEN conjunct1, rule_format], assumption, assumption)
    (simp_all add: assms [unfolded sde_bits_def])

lemma add_entry_bits:
  "sde_bits sde bits \<Longrightarrow> switch_add_classification_entry sde ft r h sw = Some x \<Longrightarrow> bits (snd (snd x)) = bits sw"
  by (auto simp: switch_add_classification_entry_def switch_add_ipv4_entry_def switch_add_ipv6_entry_def case_prod_beta Let_def
      sde_bitsD(2,3) split: bind_splits if_splits)

lemma remove_entry_bits:
  "sde_bits sde bits \<Longrightarrow> bits (snd (switch_remove_classification_entry sde ft h sw)) = bits sw"
  by (simp add: switch_remove_classification_entry_def switch_remove_ipv4_entry_def switch_remove_ipv6_entry_def case_prod_beta Let_def
      sde_bitsD(4,5))

lemma write_bloom_bits:
  assumes "sde_bits sde bits" "v \<noteq> 0"
  shows "write_bloom_loop sde target indices v is sw = Some (s, sw') \<Longrightarrow>
    bits sw \<subseteq> bits sw' \<and> (s = SUCCESS \<longrightarrow> (\<forall>i \<in> set is. 0 \<le> indices ! i \<longrightarrow> (i, target, indices ! i) \<in> bits sw'))"
proof (induction "is" arbitrary: sw)
  case (Cons i "is")
  have x: "aget indices (int i) = Some (indices ! i)" using Cons.prems by (auto split: if_splits)
  show ?case
  proof (cases "0 \<le> indices ! i")
    case True
    obtain st sw1 where w: "write_bloom_filter sde i target (indices ! i) v sw = (st, sw1)" by (metis surj_pair)
    then have b: "bits sw \<subseteq> bits sw1" "st = 0 \<longrightarrow> (i, target, indices ! i) \<in> bits sw1"
      using sde_bitsD(1) [OF assms(1) _ assms(2)] by auto
    show ?thesis
    proof (cases "st = 0")
      case True
      with Cons.prems x w \<open>0 \<le> indices ! i\<close> have "write_bloom_loop sde target indices v is sw1 = Some (s, sw')" by simp
      from Cons.IH [OF this] b True show ?thesis by auto
    next
      case False
      with Cons.prems x w \<open>0 \<le> indices ! i\<close> have "s = ERR_SWITCH" "sw' = sw1" by auto
      with b show ?thesis by (simp add: SUCCESS_def ERR_SWITCH_def)
    qed
  next
    case False
    with Cons.prems x have "write_bloom_loop sde target indices v is sw = Some (s, sw')" by simp
    from Cons.IH [OF this] False show ?thesis by auto
  qed
qed simp

lemma execute_bits:
  assumes B: "sde_bits sde bits" and e: "execute_command sde c dp = Some dp'"
  shows "bits (dp_switch dp) \<subseteq> bits (dp_switch dp')"
    and "c = DP_ADD_BLOOM_FILTER indices pipe \<Longrightarrow> dp_status dp' = SUCCESS \<Longrightarrow> i < NUM_BLOOMFILTERS \<Longrightarrow> 0 \<le> indices ! i \<Longrightarrow>
      0 \<le> pipe \<Longrightarrow> pipe < int NUM_PIPES \<Longrightarrow> (i, pipe, indices ! i) \<in> bits (dp_switch dp')"
proof -
  show "bits (dp_switch dp) \<subseteq> bits (dp_switch dp')"
  proof (cases c)
    case (DP_ADD_FLOW ft x s)
    obtain st h sw where "switch_add_classification_entry sde ft (of_int (flow_id_to_register_index s)) (entry_hdls dp ! nat x) (dp_switch dp) = Some (st, h, sw)"
      "dp_switch dp' = sw"
      using e DP_ADD_FLOW by (auto simp: aget_def split: bind_splits if_splits)
    then show ?thesis using add_entry_bits [OF B] by fastforce
  next
    case (DP_REMOVE_FLOW ft x)
    from e DP_REMOVE_FLOW have "dp_switch dp' = snd (switch_remove_classification_entry sde ft (entry_hdls dp ! nat x) (dp_switch dp))"
      by (auto simp: aget_def split: bind_splits if_splits prod.splits)
    then show ?thesis using remove_entry_bits [OF B] by simp
  next
    case (DP_CLEAR_REGISTERS ft s)
    from e DP_CLEAR_REGISTERS obtain p where
      "dp_switch dp' = snd (write_last_timestamp sde p (flow_id_to_register_index s) 0 (dp_switch dp))"
      by (auto simp: dp_clear_registers_def Let_def case_prod_beta split: bind_splits)
    then show ?thesis using sde_bitsD(6) [OF B] by simp
  next
    case (DP_ADD_BLOOM_FILTER indices pipe)
    with e obtain t st where "write_bloom_loop sde t indices 1 [0..<NUM_BLOOMFILTERS] (dp_switch dp) = Some (st, dp_switch dp')"
      by (auto simp: switch_write_bloom_filter_def split: bind_splits)
    from write_bloom_bits [OF B _ this] show ?thesis by simp
  next
    case (DP_REMOVE_BLOOM_FILTER indices pipe)
    with e show ?thesis by auto
  qed
  assume c: "c = DP_ADD_BLOOM_FILTER indices pipe" and st: "dp_status dp' = SUCCESS" and i: "i < NUM_BLOOMFILTERS" "0 \<le> indices ! i"
    and p: "0 \<le> pipe" "pipe < int NUM_PIPES"
  have "aget PIPES pipe = Some pipe" using p by (intro PIPES_get) (simp_all add: NUM_PIPES_def)
  with c e st have "write_bloom_loop sde pipe indices 1 [0..<NUM_BLOOMFILTERS] (dp_switch dp) = Some (SUCCESS, dp_switch dp')"
    by (auto simp: switch_write_bloom_filter_def split: bind_splits)
  from write_bloom_bits [OF B _ this] i show "(i, pipe, indices ! i) \<in> bits (dp_switch dp')" by simp
qed

text \<open>
  The life of the filters: the flow database marks flows, the maintenance thread ages one row, any thread sends other commands, and
  the data plane thread executes the next command. The ring may be full at every put and the driver may fail at every call. A
  step is labelled with the bits it loses: neither \<open>bloom_filter_set_irrelevant\<close> nor the undo of the maintenance notices that its command was
  refused, and the data plane thread reports an error of the driver and goes on. What is lost at a full ring are the counters that rise from zero,
  what is lost at an error are the bits of the command.
\<close>

type_synonym 'sw bloom_sys = "bloom_filter_t \<times> int list \<times> dp_ring \<times> 'sw dataplane"

definition refused_bits :: "config \<Rightarrow> bloom_filter_t \<Rightarrow> bloom_filter_t \<Rightarrow> dp_ring \<Rightarrow> bits" where
  "refused_bits cfg bf bf' ring =
     (if length (rb_items (DATAPLANE_RINGBUFFER_SIZE cfg) ring) < DATAPLANE_RINGBUFFER_SIZE cfg then {}
      else {(i, p, x). in_filter cfg p i x \<and> counter bf p i x = 0 \<and> counter bf' p i x \<noteq> 0})"

fun command_bits :: "dataplane_command_t \<Rightarrow> bits" where
  "command_bits (DP_ADD_BLOOM_FILTER indices pipe) = {(i, pipe, indices ! i) | i. i < NUM_BLOOMFILTERS}"
| "command_bits _ = {}"

inductive bloom_step :: "config \<Rightarrow> 'sw sde \<Rightarrow> 'sw bloom_sys \<Rightarrow> bits \<Rightarrow> 'sw bloom_sys \<Rightarrow> bool" for cfg sde where
  Mark: "bf_flow_ok ft \<Longrightarrow> bloom_filter_set_irrelevant cfg junk ft (bf, ring) = Some (bf', ring') \<Longrightarrow>
     bloom_step cfg sde (bf, cmd, ring, dp) (refused_bits cfg bf bf' ring) (bf', cmd, ring', dp)"
| Maintain: "in_filter cfg pipe 0 index \<Longrightarrow> maintenance_index cfg rnd pipe index (bf, cmd, ring) = Some (bf', cmd', ring') \<Longrightarrow>
     bloom_step cfg sde (bf, cmd, ring, dp) (refused_bits cfg bf bf' ring) (bf', cmd', ring', dp)"
| Send: "ringbuffer_put (DATAPLANE_RINGBUFFER_SIZE cfg) c ring = Some (r, ring') \<Longrightarrow>
     bloom_step cfg sde (bf, cmd, ring, dp) {} (bf, cmd, ring', dp)"
| Execute: "ringbuffer_get (DATAPLANE_RINGBUFFER_SIZE cfg) ring = Some ((0, Some c), ring') \<Longrightarrow>
     dataplane_command sde c dp = Some dp' \<Longrightarrow>
     bloom_step cfg sde (bf, cmd, ring, dp) (if dp_errors dp' = dp_errors dp then {} else command_bits c) (bf, cmd, ring', dp')"

text \<open>The states that can be reached, with all the bits lost on the way.\<close>

inductive bloom_reachable :: "config \<Rightarrow> 'sw sde \<Rightarrow> bits \<Rightarrow> 'sw bloom_sys \<Rightarrow> bool" for cfg sde where
  Start: "rb_inv (DATAPLANE_RINGBUFFER_SIZE cfg) ring \<Longrightarrow>
     bloom_reachable cfg sde {} (bloom_filter_init cfg, replicate NUM_BLOOMFILTERS 0, ring, dp)"
| Step: "bloom_reachable cfg sde lost st \<Longrightarrow> bloom_step cfg sde st new st' \<Longrightarrow> bloom_reachable cfg sde (lost \<union> new) st'"

definition bit_known :: "('sw \<Rightarrow> bits) \<Rightarrow> bits \<Rightarrow> dataplane_command_t list \<Rightarrow> 'sw \<Rightarrow> nat \<Rightarrow> int \<Rightarrow> int \<Rightarrow> bool" where
  "bit_known bits lost items sw i p x \<longleftrightarrow> (i, p, x) \<in> bits sw \<or>
     (\<exists>indices. DP_ADD_BLOOM_FILTER indices p \<in> set items \<and> indices ! i = x) \<or> (i, p, x) \<in> lost"

fun bloom_inv :: "config \<Rightarrow> ('sw \<Rightarrow> bits) \<Rightarrow> bits \<Rightarrow> 'sw bloom_sys \<Rightarrow> bool" where
  "bloom_inv cfg bits lost (bf, cmd, ring, dp) \<longleftrightarrow>
     bf_ok cfg bf \<and> cmd_ok cfg cmd \<and> rb_inv (DATAPLANE_RINGBUFFER_SIZE cfg) ring \<and>
     (\<forall>p i x. in_filter cfg p i x \<longrightarrow> counter bf p i x \<noteq> 0 \<longrightarrow>
        bit_known bits lost (rb_items (DATAPLANE_RINGBUFFER_SIZE cfg) ring) (dp_switch dp) i p x)"

lemma bit_known_mono:
  "bit_known bits lost items sw i p x \<Longrightarrow> set items \<subseteq> set items' \<Longrightarrow> lost \<subseteq> lost' \<Longrightarrow> bit_known bits lost' items' sw i p x"
  unfolding bit_known_def by blast

text \<open>
  Marking and ageing have this in common: items are only added to the ring, and when there is room, a counter that rises from zero has its
  command among the new items.
\<close>

lemma bloom_inv_counters:
  assumes "bloom_inv cfg bits lost (bf, cmd, ring, dp)" "bf_ok cfg bf'" "cmd_ok cfg cmd'" "rb_inv (DATAPLANE_RINGBUFFER_SIZE cfg) ring'"
    and sub: "set (rb_items (DATAPLANE_RINGBUFFER_SIZE cfg) ring) \<subseteq> set (rb_items (DATAPLANE_RINGBUFFER_SIZE cfg) ring')"
    and rise: "\<And>p i x. length (rb_items (DATAPLANE_RINGBUFFER_SIZE cfg) ring) < DATAPLANE_RINGBUFFER_SIZE cfg \<Longrightarrow> in_filter cfg p i x \<Longrightarrow>
      counter bf p i x = 0 \<Longrightarrow> counter bf' p i x \<noteq> 0 \<Longrightarrow>
      \<exists>indices. DP_ADD_BLOOM_FILTER indices p \<in> set (rb_items (DATAPLANE_RINGBUFFER_SIZE cfg) ring') \<and> indices ! i = x"
  shows "bloom_inv cfg bits (lost \<union> refused_bits cfg bf bf' ring) (bf', cmd', ring', dp)"
proof -
  let ?N = "DATAPLANE_RINGBUFFER_SIZE cfg" and ?lost = "lost \<union> refused_bits cfg bf bf' ring"
  have "bit_known bits ?lost (rb_items ?N ring') (dp_switch dp) i p x" if f: "in_filter cfg p i x" "counter bf' p i x \<noteq> 0" for p i x
  proof (cases "counter bf p i x = 0")
    case False
    with assms(1) f have "bit_known bits lost (rb_items ?N ring) (dp_switch dp) i p x" by simp
    from bit_known_mono [OF this sub, of ?lost] show ?thesis by blast
  next
    case True
    with rise f show ?thesis unfolding bit_known_def refused_bits_def by auto
  qed
  with assms(2-4) show ?thesis by simp
qed

lemma bloom_inv_mark:
  assumes "cfg_ok cfg" "bloom_inv cfg bits lost (bf, cmd, ring, dp)" "bf_flow_ok ft"
    and s: "bloom_filter_set_irrelevant cfg junk ft (bf, ring) = Some (bf', ring')"
  shows "bloom_inv cfg bits (lost \<union> refused_bits cfg bf bf' ring) (bf', cmd, ring', dp)"
proof -
  let ?N = "DATAPLANE_RINGBUFFER_SIZE cfg" and ?c = "DP_ADD_BLOOM_FILTER (bf_cmd cfg junk ft bf) (ft_pipe ft)"
  from assms(2) have i: "bf_ok cfg bf" "cmd_ok cfg cmd" "rb_inv ?N ring" by auto
  from set_irrelevant_ok [OF assms(1) i(1,3) assms(3), of junk] s have
    r: "bf_ok cfg bf'" "rb_inv ?N ring'"
      "\<And>p i x. in_filter cfg p i x \<Longrightarrow> counter bf' p i x = counter bf p i x + (if p = ft_pipe ft \<and> x = get_hashes cfg junk ft ! i then 1 else 0)"
      "rb_items ?N ring' = (if bf_send cfg junk ft bf then q_accept ?N ?c (rb_items ?N ring) else rb_items ?N ring)" by auto
  have sub: "set (rb_items ?N ring) \<subseteq> set (rb_items ?N ring')" unfolding r(4) by (auto simp: q_accept_def)
  show ?thesis
  proof (rule bloom_inv_counters [OF assms(2) r(1) i(2) r(2) sub])
    fix p i x assume room: "length (rb_items ?N ring) < ?N" and f: "in_filter cfg p i x" and n: "counter bf p i x = 0" "counter bf' p i x \<noteq> 0"
    from r(3) [OF f] n have h: "p = ft_pipe ft" "x = get_hashes cfg junk ft ! i" by (auto split: if_splits)
    have l: "i < NUM_BLOOMFILTERS" using f by (simp add: in_filter_def)
    with n(1) h have "bf_send cfg junk ft bf" "bf_cmd cfg junk ft bf ! i = x" by (auto simp: bf_send_def bf_cmd_def)
    with r(4) room h(1) show "\<exists>indices. DP_ADD_BLOOM_FILTER indices p \<in> set (rb_items ?N ring') \<and> indices ! i = x" by (auto simp: q_accept_def)
  qed
qed

lemma bloom_inv_maintain:
  assumes "bloom_inv cfg bits lost (bf, cmd, ring, dp)" "in_filter cfg pipe 0 index"
    and s: "maintenance_index cfg rnd pipe index (bf, cmd, ring) = Some (bf', cmd', ring')"
  shows "bloom_inv cfg bits (lost \<union> refused_bits cfg bf bf' ring) (bf', cmd', ring', dp)"
proof -
  let ?N = "DATAPLANE_RINGBUFFER_SIZE cfg"
  from assms(1) have i: "bf_ok cfg bf" "cmd_ok cfg cmd" "rb_inv ?N ring" by auto
  from maintenance_index_ok [OF i(1,2) assms(2) i(3), of rnd] s have
    r: "bf_ok cfg bf'" "cmd_ok cfg cmd'" "rb_inv ?N ring'"
      "rb_items ?N ring' = (if row_hit bf rnd pipe index then q_accept ?N (DP_REMOVE_BLOOM_FILTER cmd' pipe) (rb_items ?N ring) else rb_items ?N ring)"
      "\<And>p i x. length (rb_items ?N ring) < ?N \<Longrightarrow> in_filter cfg p i x \<Longrightarrow> counter bf' p i x = counter bf p i x - row_dec bf rnd pipe index p i x" by auto
  have sub: "set (rb_items ?N ring) \<subseteq> set (rb_items ?N ring')" unfolding r(4) by (auto simp: q_accept_def)
  show ?thesis
    by (rule bloom_inv_counters [OF assms(1) r(1-3) sub]) (use r(5) in \<open>auto simp: row_dec_def\<close>)
qed

lemma bloom_inv_execute:
  assumes "sde_bits sde bits" "bloom_inv cfg bits lost (bf, cmd, ring, dp)"
    and g: "ringbuffer_get (DATAPLANE_RINGBUFFER_SIZE cfg) ring = Some ((0, Some c), ring')"
    and e: "dataplane_command sde c dp = Some dp'"
  shows "bloom_inv cfg bits (lost \<union> (if dp_errors dp' = dp_errors dp then {} else command_bits c)) (bf, cmd, ring', dp')"
proof -
  let ?N = "DATAPLANE_RINGBUFFER_SIZE cfg" and ?new = "if dp_errors dp' = dp_errors dp then {} else command_bits c"
  from assms(2) have i: "bf_ok cfg bf" "cmd_ok cfg cmd" "rb_inv ?N ring"
    "\<And>p i x. in_filter cfg p i x \<Longrightarrow> counter bf p i x \<noteq> 0 \<Longrightarrow> bit_known bits lost (rb_items ?N ring) (dp_switch dp) i p x" by auto
  from ring.get_cases [OF i(3) g] have r: "rb_inv ?N ring'" "rb_items ?N ring = c # rb_items ?N ring'" by auto
  let ?dp = "dp\<lparr> dataplane_commands_stat := dataplane_commands_stat dp + 1 \<rparr>"
  from e obtain dp1 where d: "execute_command sde c ?dp = Some dp1" "dp' = report_status dp1"
    by (auto simp: dataplane_command_def split: bind_splits)
  have errs: "dp_errors dp1 = dp_errors dp"
    using d(1) by (cases c) (auto simp: dp_clear_registers_def Let_def case_prod_beta split: bind_splits)
  with d(2) have sw: "dp_switch dp' = dp_switch dp1" and ok: "dp_errors dp' = dp_errors dp \<Longrightarrow> dp_status dp1 = SUCCESS"
    by (auto simp: report_status_def split: if_splits)
  have b: "bits (dp_switch dp) \<subseteq> bits (dp_switch dp')" using execute_bits(1) [OF assms(1) d(1)] sw by simp
  have "bit_known bits (lost \<union> ?new) (rb_items ?N ring') (dp_switch dp') i p x" if f: "in_filter cfg p i x" and n: "counter bf p i x \<noteq> 0" for p i x
  proof -
    from i(4) [OF f n] consider "(i, p, x) \<in> bits (dp_switch dp) \<union> lost" | indices where "c = DP_ADD_BLOOM_FILTER indices p" "indices ! i = x"
      | indices where "DP_ADD_BLOOM_FILTER indices p \<in> set (rb_items ?N ring')" "indices ! i = x"
      unfolding bit_known_def r(2) by auto
    then show ?thesis
    proof cases
      case (2 indices)
      then show ?thesis
        using execute_bits(2) [OF assms(1) d(1) 2(1) ok, of i] f sw by (auto simp: in_filter_def bit_known_def)
    qed (use b in \<open>auto simp: bit_known_def\<close>)
  qed
  with i(1,2) r(1) show ?thesis by simp
qed

lemma bloom_inv_send:
  assumes "bloom_inv cfg bits lost (bf, cmd, ring, dp)" "ringbuffer_put (DATAPLANE_RINGBUFFER_SIZE cfg) c ring = Some (r, ring')"
  shows "bloom_inv cfg bits lost (bf, cmd, ring', dp)"
proof -
  from assms(1) have "rb_inv (DATAPLANE_RINGBUFFER_SIZE cfg) ring" by simp
  from ring.put_cases [OF this assms(2)] have r: "rb_inv (DATAPLANE_RINGBUFFER_SIZE cfg) ring'"
    "set (rb_items (DATAPLANE_RINGBUFFER_SIZE cfg) ring) \<subseteq> set (rb_items (DATAPLANE_RINGBUFFER_SIZE cfg) ring')" by auto
  have "bit_known bits lost (rb_items (DATAPLANE_RINGBUFFER_SIZE cfg) ring') (dp_switch dp) i p x"
    if "in_filter cfg p i x" "counter bf p i x \<noteq> 0" for p i x
    by (rule bit_known_mono [OF _ r(2) subset_refl]) (use that assms(1) in simp)
  with r(1) assms(1) show ?thesis by simp
qed

lemma bloom_reachable_inv:
  assumes "cfg_ok cfg" "sde_bits sde bits"
  shows "bloom_reachable cfg sde lost st \<Longrightarrow> bloom_inv cfg bits lost st"
proof (induction rule: bloom_reachable.induct)
  case (Start ring dp)
  have "counter (bloom_filter_init cfg) p i x = 0" if "in_filter cfg p i x" for p i x
    using that by (auto simp: counter_def bloom_filter_init_def in_filter_def)
  with Start bf_ok_init [of cfg] assms(1) show ?case by (auto simp: cmd_ok_def cfg_ok_def)
next
  case (Step lost st new st')
  from Step(2,3) show ?case
  proof cases
    case (Execute ring c ring' dp dp' bf cmd)
    with bloom_inv_execute [OF assms(2)] Step.IH show ?thesis by blast
  qed (auto simp del: bloom_inv.simps intro: bloom_inv_mark [OF assms(1)] bloom_inv_maintain bloom_inv_send)
qed

section \<open>Properties\<close>

text \<open>
  C5. The switch mirrors the commands: an admissible sequence of commands never leaves an array. If the classification
  tables held exactly the installed flows before and the thread reports no error, they hold afterwards exactly
  the flows that the commands leave installed, each under the handle remembered for its flow id, with its key,
  its pipe and the register index of its session.
\<close>

theorem dataplane_mirrors_flows:
  assumes "sde_tables sde tab" "dp_ok cfg rs dp" "dp_admissible_run cfg cs m rs" "mirrored cfg tab m dp" "dp_status dp = SUCCESS"
  shows "\<exists>dp'. dataplane_run sde cs dp = Some dp' \<and> dp_ok cfg rs dp' \<and>
    (dp_errors dp' = dp_errors dp \<longrightarrow> mirrored cfg tab (fold dp_effect cs m) dp')"
  using dataplane_run_ok [OF assms(1-3)] assms(4,5) by force

definition start_dataplane :: "config \<Rightarrow> ref_switch dataplane" where
  "start_dataplane cfg =
     \<lparr> dp_switch = \<lparr> sw_tab = Map.empty, sw_next = 1, sw_bits = {}, sw_regs = \<lambda>_. [] \<rparr>, entry_hdls = replicate (FEATURE_SIZE cfg) 0,
       dp_features = [], dp_status = SUCCESS, dp_errors = [], dataplane_commands_stat = 0, dataplane_add_stat = 0,
       dataplane_remove_stat = 0, dataplane_reset_stat = 0, dataplane_bloom_add_stat = 0, dataplane_bloom_remove_stat = 0 \<rparr>"

lemma start_dataplane_ok: "dp_ok cfg [] (start_dataplane cfg)" "mirrored cfg sw_tab Map.empty (start_dataplane cfg)"
  "dp_status (start_dataplane cfg) = SUCCESS"
  by (simp_all add: start_dataplane_def dp_ok_def same_shape_def mirrored_def)

lemma execute_example:
  "switch_add_classification_entry ref_sde (example_flow p) r h sw =
     (let (s, h', sw') = ref_add False 0 (flow_match (example_flow p)) r sw in Some (if s \<noteq> 0 then ERR_SWITCH else SUCCESS, h', sw'))"
  "switch_remove_classification_entry ref_sde (example_flow p) h sw =
     (let (s, sw') = ref_delete False h sw in (if s \<noteq> 0 then ERR_SWITCH else SUCCESS, sw'))"
proof -
  have "l3_proto (ft_h (example_flow p)) = L3_IPV4" by (simp add: example_flow_def)
  with tuple_target [OF example_flow_ok [of p]] show
    "switch_add_classification_entry ref_sde (example_flow p) r h sw =
       (let (s, h', sw') = ref_add False 0 (flow_match (example_flow p)) r sw in Some (if s \<noteq> 0 then ERR_SWITCH else SUCCESS, h', sw'))"
    "switch_remove_classification_entry ref_sde (example_flow p) h sw =
       (let (s, sw') = ref_delete False h sw in (if s \<noteq> 0 then ERR_SWITCH else SUCCESS, sw'))"
    by (simp_all add: switch_add_classification_entry_def switch_add_ipv4_entry_def switch_remove_classification_entry_def
        switch_remove_ipv4_entry_def ref_sde_def flow_match_def split: prod.splits)
qed

theorem dataplane_mirrors_flows_witness:
  "\<exists>dp'. dataplane_run ref_sde [DP_ADD_FLOW (example_flow 1) 0 5, DP_ADD_FLOW (example_flow 2) 1 6, DP_REMOVE_FLOW (example_flow 1) 0]
      (start_dataplane small_config) = Some dp' \<and> mirrored small_config sw_tab [1 \<mapsto> (example_flow 2, 6)] dp'"
proof -
  let ?cs = "[DP_ADD_FLOW (example_flow 1) 0 5, DP_ADD_FLOW (example_flow 2) 1 6, DP_REMOVE_FLOW (example_flow 1) 0]"
  have "dp_admissible_run small_config ?cs Map.empty []" by (simp add: example_flow_ok)
  moreover have "fold dp_effect ?cs Map.empty = [1 \<mapsto> (example_flow 2, 6)]" by (auto simp: fun_eq_iff)
  moreover have "\<exists>dp'. dataplane_run ref_sde ?cs (start_dataplane small_config) = Some dp' \<and> dp_errors dp' = dp_errors (start_dataplane small_config)"
    by (simp add: start_dataplane_def dataplane_command_def execute_example report_status_def ref_add_def ref_delete_def SUCCESS_def aget_def aset_def)
  ultimately show ?thesis
    using dataplane_mirrors_flows [OF ref_sde_tables start_dataplane_ok(1) _ start_dataplane_ok(2,3), of small_config ?cs] by auto
qed

text \<open>
  C6. No false negatives but the bits that are lost: whatever the flow database, the maintenance and the data plane thread do, in any order, with a ring
  that may be full and a driver that may fail, a counter that is not zero has its bit set in the switch, or the command that sets the bit is still in the ring, or
  the bit was lost: its counter rose from zero in a step that found the ring full, or the thread reported an error for
  a command that was to set it. Without refused commands and reported errors no bit is lost.
\<close>

theorem bloom_no_false_negatives:
  assumes "cfg_ok cfg" "sde_bits sde bits" "bloom_reachable cfg sde lost (bf, cmd, ring, dp)"
    and "in_filter cfg p i x" "counter bf p i x \<noteq> 0"
  shows "(i, p, x) \<in> bits (dp_switch dp) \<or>
    (\<exists>indices. DP_ADD_BLOOM_FILTER indices p \<in> set (rb_items (DATAPLANE_RINGBUFFER_SIZE cfg) ring) \<and> indices ! i = x) \<or>
    (i, p, x) \<in> lost"
  using bloom_reachable_inv [OF assms(1-3)] assms(4,5) by (auto simp: bit_known_def)

lemma ref_sde_bits: "sde_bits ref_sde sw_bits"
  unfolding sde_bits_def ref_sde_def ref_add_def ref_delete_def by auto

theorem bloom_no_false_negatives_witness:
  "\<exists>bf ring x. bloom_reachable small_config ref_sde {} (bf, replicate NUM_BLOOMFILTERS 0, ring, start_dataplane small_config) \<and>
    counter bf 1 0 x = 1 \<and>
    (\<exists>indices. DP_ADD_BLOOM_FILTER indices 1 \<in> set (rb_items (DATAPLANE_RINGBUFFER_SIZE small_config) ring) \<and> indices ! 0 = x)"
proof -
  let ?c = small_config and ?ring = "empty_ring (DATAPLANE_RINGBUFFER_SIZE small_config) (DP_ADD_BLOOM_FILTER [] 0)" and ?cmd = "replicate NUM_BLOOMFILTERS 0 :: int list"
  let ?x = "get_hashes ?c [] example_udp ! 0"
  have ring: "rb_inv (DATAPLANE_RINGBUFFER_SIZE ?c) ?ring" by (simp add: empty_ring_inv)
  from set_irrelevant_ok [OF cfg_ok_small bf_ok_init ring example_udp_ok(1), of "[]"] obtain bf r where
    s: "bloom_filter_set_irrelevant ?c [] example_udp (bloom_filter_init ?c, ?ring) = Some (bf, r)"
      "\<And>p i x. in_filter ?c p i x \<Longrightarrow> counter bf p i x = counter (bloom_filter_init ?c) p i x +
         (if p = ft_pipe example_udp \<and> x = get_hashes ?c [] example_udp ! i then 1 else 0)" by blast
  have "0 < NUM_BLOOMFILTERS" by (simp add: NUM_BLOOMFILTERS_def)
  from bf_flow_in_filter [OF cfg_ok_small example_udp_ok(1) this, of "[]"] have f: "in_filter ?c 1 0 ?x"
    by (simp add: example_udp_ok(2))
  have n: "counter bf 1 0 ?x = 1"
    using s(2) [OF f] f by (simp add: example_udp_ok(2)) (auto simp: counter_def bloom_filter_init_def in_filter_def)
  have "refused_bits ?c (bloom_filter_init ?c) bf ?ring = {}" by (simp add: refused_bits_def empty_ring_inv del: length_rb_items)
  with bloom_step.Mark [OF example_udp_ok(1) s(1), of ref_sde ?cmd "start_dataplane ?c"]
  have "bloom_step ?c ref_sde (bloom_filter_init ?c, ?cmd, ?ring, start_dataplane ?c) {} (bf, ?cmd, r, start_dataplane ?c)" by simp
  from bloom_reachable.Step [OF bloom_reachable.Start [OF ring] this]
  have r: "bloom_reachable ?c ref_sde {} (bf, ?cmd, r, start_dataplane ?c)" by simp
  from bloom_no_false_negatives [OF cfg_ok_small ref_sde_bits r f] n have
    "\<exists>indices. DP_ADD_BLOOM_FILTER indices 1 \<in> set (rb_items (DATAPLANE_RINGBUFFER_SIZE ?c) r) \<and> indices ! 0 = ?x"
    by (simp add: start_dataplane_def)
  with r n show ?thesis by blast
qed

text \<open>
  A bit is really lost: marking a flow at a full ring counts it and changes nothing else, so that the filter of the switch never learns of a counter that rises
  from zero; the next flow with the same hash finds the counter at 1 and sends nothing either.
\<close>

lemma mark_lost_when_full:
  assumes "cfg_ok cfg" "bf_ok cfg bf" "rb_inv (DATAPLANE_RINGBUFFER_SIZE cfg) ring" "bf_flow_ok ft"
    and "length (rb_items (DATAPLANE_RINGBUFFER_SIZE cfg) ring) = DATAPLANE_RINGBUFFER_SIZE cfg"
    and "i < NUM_BLOOMFILTERS" "counter bf (ft_pipe ft) i (get_hashes cfg junk ft ! i) = 0"
  shows "\<exists>bf' ring'. bloom_filter_set_irrelevant cfg junk ft (bf, ring) = Some (bf', ring') \<and>
    counter bf' (ft_pipe ft) i (get_hashes cfg junk ft ! i) = 1 \<and>
    rb_items (DATAPLANE_RINGBUFFER_SIZE cfg) ring' = rb_items (DATAPLANE_RINGBUFFER_SIZE cfg) ring \<and>
    (i, ft_pipe ft, get_hashes cfg junk ft ! i) \<in> refused_bits cfg bf bf' ring"
proof -
  from bf_flow_in_filter [OF assms(1,4,6), of junk] have f: "in_filter cfg (ft_pipe ft) i (get_hashes cfg junk ft ! i)" .
  from set_irrelevant_ok [OF assms(1-4), of junk] f assms(5,7) show ?thesis
    by (auto simp: q_accept_def refused_bits_def simp del: length_rb_items)
qed

text \<open>
  Ageing never reaches the switch: whatever commands the thread executes, a Bloom filter bit that is set stays
  set, because the branch of \<open>DP_REMOVE_BLOOM_FILTER\<close> only counts.
\<close>

theorem bloom_bits_never_cleared:
  assumes "sde_bits sde bits"
  shows "dataplane_run sde cs dp = Some dp' \<Longrightarrow> bits (dp_switch dp) \<subseteq> bits (dp_switch dp')"
proof (induction cs arbitrary: dp)
  case (Cons c cs)
  then obtain dp1 where d: "execute_command sde c (dp\<lparr> dataplane_commands_stat := dataplane_commands_stat dp + 1 \<rparr>) = Some dp1"
    "dataplane_run sde cs (report_status dp1) = Some dp'"
    by (auto simp: dataplane_command_def split: bind_splits)
  from execute_bits(1) [OF assms d(1)] Cons.IH [OF d(2)] show ?case by (auto simp: report_status_def split: if_splits)
qed simp

theorem bloom_bits_never_cleared_witness:
  "\<exists>dp'. dataplane_run ref_sde [DP_ADD_BLOOM_FILTER [7, 7, 7, 7] 1, DP_REMOVE_BLOOM_FILTER [7, 7, 7, 7] 1] (start_dataplane small_config) = Some dp' \<and>
    (0, 1, 7) \<in> sw_bits (dp_switch dp')"
proof -
  let ?dp = "start_dataplane small_config"
  have "\<exists>dp1. dataplane_run ref_sde [DP_ADD_BLOOM_FILTER [7, 7, 7, 7] 1] ?dp = Some dp1 \<and> (0, 1, 7) \<in> sw_bits (dp_switch dp1)"
    by (simp add: dataplane_command_def switch_write_bloom_filter_def ref_sde_def PIPES_def aget_def NUM_BLOOMFILTERS_def report_status_def
        upt_rec Let_def)
  then obtain dp1 where 1: "dataplane_run ref_sde [DP_ADD_BLOOM_FILTER [7, 7, 7, 7] 1] ?dp = Some dp1" "(0, 1, 7) \<in> sw_bits (dp_switch dp1)" by blast
  obtain dp' where 2: "dataplane_run ref_sde [DP_REMOVE_BLOOM_FILTER [7, 7, 7, 7] 1] dp1 = Some dp'"
    by (simp add: dataplane_command_def)
  from bloom_bits_never_cleared [OF ref_sde_bits 2] 1 2 show ?thesis
    by (auto split: bind_splits)
qed

end
