(* ===== verification/Flow_Pipeline.thy ===== *)
theory Flow_Pipeline
  imports Flow_Db Dataplane
begin

text \<open>
  The flow database and the data plane thread together (\<^verbatim>\<open>flow_db/flow_db.c\<close>, \<^verbatim>\<open>dataplane/dataplane.c\<close>). \<open>pipeline_step\<close> has every step that
  the threads can make, in any order: the ring may be full at every put, the session ids may run out, the offset of a FIN is arbitrary and the
  driver may fail. \<open>orderly\<close> names the steps in which none of this happens to a flow.

  Shown: as long as all steps are orderly, the commands that the flow database sends are admissible for the data plane thread, so that the
  classification tables of the switch follow the flow table; a FIN that finds the ring full is lost; and a FIN with a wild offset leaves the registers.
\<close>

section \<open>The commands of the flow database\<close>

abbreviation dp_items :: "config \<Rightarrow> flow_db \<Rightarrow> dataplane_command_t list" where
  "dp_items cfg db \<equiv> rb_items (DATAPLANE_RINGBUFFER_SIZE cfg) (db_ring db)"

definition same_flows :: "flow_db \<Rightarrow> flow_db \<Rightarrow> bool" where
  "same_flows db db' \<longleftrightarrow> flow_map (db_flows db') = flow_map (db_flows db) \<and> flow_key_of (db_flows db') = flow_key_of (db_flows db)"

text \<open>A session exists already, or there is a session id left for the pipe.\<close>

definition session_available :: "config \<Rightarrow> bool \<Rightarrow> (session_key_t \<Rightarrow> nat) \<Rightarrow> five_tuple_t \<Rightarrow> flow_db \<Rightarrow> bool" where
  "session_available cfg us PS ft db \<longleftrightarrow> session_map us (db_sessions db) (session_key us ft) \<noteq> None \<or>
     \<not> pipe_id_set cfg (PS (session_key us ft)) \<subseteq> ran (session_map us (db_sessions db))"

definition offset_ok :: "five_tuple_t \<Rightarrow> bool" where
  "offset_ok ft \<longleftrightarrow> 0 \<le> ft_pipe ft + session_id_egress_offset ft \<and> ft_pipe ft + session_id_egress_offset ft < int NUM_PIPES"

text \<open>The flow is new, its port is connected, and there is an id and room in the ring.\<close>

definition addable :: "config \<Rightarrow> int list \<Rightarrow> (five_tuple_for_hash_t \<Rightarrow> nat) \<Rightarrow> five_tuple_t \<Rightarrow> flow_db \<Rightarrow> bool" where
  "addable cfg devmap PF ft db \<longleftrightarrow> aget devmap (uint (dev_port ft)) \<noteq> Some (- 1) \<and> flow_map (db_flows db) (ft_h ft) = None \<and>
     \<not> pipe_id_set cfg (PF (ft_h ft)) \<subseteq> ran (flow_map (db_flows db)) \<and> length (dp_items cfg db) < DATAPLANE_RINGBUFFER_SIZE cfg"

lemma session_keeps:
  "add_flow_session cfg us uuid ft p db = Some (s, db1) \<Longrightarrow> db_flows db1 = db_flows db \<and> db_ring db1 = db_ring db"
  by (auto simp: add_flow_session_def mk_uuid_def split: bind_splits if_splits)

lemma session_id_found:
  assumes "session_part cfg us PS (session_id_heap db) (db_sessions db)" "wf_packet us PF PS ft" "session_available cfg us PS ft db"
    and a: "add_flow_session cfg us uuid ft (ft_pipe ft) db = Some (s, db1)"
  shows "s \<noteq> 0"
proof (cases "session_map us (db_sessions db) (session_key us ft)")
  case (Some v)
  from session_alloc_hit [OF assms(1,2) Some, of uuid] a show ?thesis by simp
next
  case None
  from assms(1) have D: "session_table_inv cfg us (db_sessions db)"
    "ids_ok cfg (session_id_heap db) (ran (session_map us (db_sessions db)))" by (auto simp: session_part_def)
  note w = wf_packet_pipe [OF assms(2)]
  from pop_id_ok [OF D(2) w(1)] None assms(3) w obtain v hs where
    v: "pop_id (session_id_heap db) (ft_pipe ft) = Some (v, hs)" "v \<in> pipe_id_set cfg (PF (ft_h ft))"
    by (auto simp: session_available_def)
  from pipe_id_set_bounds(1) [OF v(2) w(1)] v(1) a session_get_miss [OF D(1) None session_table_never_full [OF D(1)], of 0]
  show ?thesis by (auto simp: add_flow_session_def mk_uuid_def split: bind_splits)
qed

text \<open>The id that is sent to the switch is the one under which the session is stored.\<close>

lemma session_id_stored:
  assumes "session_part cfg us PS (session_id_heap db) (db_sessions db)" "wf_packet us PF PS ft" "offset_ok ft"
    and a: "add_flow_session cfg us uuid ft (ft_pipe ft) db = Some (s, db1)" "s \<noteq> 0"
    and t: "session_hashtable_add_or_increase_flow_count cfg us (db_sessions db1) ft s = Some (r, t')"
  shows "session_map us t' (session_key us ft) = Some s"
proof -
  from assms(1) have D: "session_table_inv cfg us (db_sessions db)"
    "ids_ok cfg (session_id_heap db) (ran (session_map us (db_sessions db)))" by (auto simp: session_part_def)
  note w = wf_packet_pipe [OF assms(2)] and room = session_table_never_full [OF D(1)]
  show ?thesis
  proof (cases "session_map us (db_sessions db) (session_key us ft)")
    case (Some v)
    from session_alloc_hit [OF assms(1,2) Some, of uuid] a have s: "s = v" "db1 = db" by auto
    have "v \<in> pipe_id_set cfg (PF (ft_h ft))" using assms(1) Some w(2) unfolding session_part_def by metis
    from session_add_present [OF D(1) room Some, of v] pipe_id_set_bounds [OF this w(1)] t s Some show ?thesis by (auto split: if_splits)
  next
    case None
    from pop_id_ok [OF D(2) w(1)] session_get_miss [OF D(1) None room, of 0] a w(3) have
      s: "s \<in> pipe_id_set cfg (PF (ft_h ft))" "s \<notin> ran (session_map us (db_sessions db))" "db_sessions db1 = db_sessions db"
      by (auto simp: add_flow_session_def mk_uuid_def split: bind_splits)
    obtain q where q: "int (PF (ft_h ft)) + session_id_egress_offset ft = int q" "q < NUM_PIPES"
      using assms(3) w(3) by (auto simp: offset_ok_def intro: that [of "nat (int (PF (ft_h ft)) + session_id_egress_offset ft)"])
    have "session_id_free cfg (session_map us (db_sessions db)) ft s"
      using pipe_id_set_bounds [OF s(1) w(1)] pipe_id_set_bounds [OF pipe_id_set_shift [OF s(1) q(1)] q(2)] s(2) by (simp add: session_id_free_def)
    from session_add_new [OF D(1) room None this] t s(3) show ?thesis by auto
  qed
qed

text \<open>
  What an add does: nothing, because the flow is not addable; the flow is stored under a free id and sent; or it is stored and not sent, because there is
  no session id.
\<close>

lemma add_flow_emits:
  assumes inv: "db_inv cfg us PF PS db" and w: "wf_packet us PF PS ft" and dev: "devmap_ok devmap"
    and r: "add_flow cfg us devmap uuid ft db = Some db'"
  shows "same_flows db db' \<and> dp_items cfg db' = dp_items cfg db \<and> \<not> addable cfg devmap PF ft db \<or>
    (\<exists>x s d. let ft' = ft\<lparr> session_id_egress_offset := d \<rparr> in
       x \<in> pipe_id_set cfg (PF (ft_h ft)) \<and> x \<notin> ran (flow_map (db_flows db)) \<and> offset_ok ft' \<and>
       flow_map (db_flows db) (ft_h ft) = None \<and> flow_map (db_flows db') = (flow_map (db_flows db))(ft_h ft \<mapsto> x) \<and>
       flow_key_of (db_flows db') = (flow_key_of (db_flows db))(ft_h ft \<mapsto> ft') \<and>
       session_map us (db_sessions db') (session_key us ft) = Some s \<and>
       dp_items cfg db' = dp_items cfg db @ [DP_ADD_FLOW ft' x s]) \<or>
    \<not> session_available cfg us PS ft db \<and> dp_items cfg db' = dp_items cfg db \<and>
      (\<exists>d. flow_key_of (db_flows db') = (flow_key_of (db_flows db))(ft_h ft \<mapsto> ft\<lparr> session_id_egress_offset := d \<rparr>))"
proof -
  from inv have D: "flow_table_inv cfg (db_flows db)" "ids_ok cfg (flow_id_heap db) (ran (flow_map (db_flows db)))"
    "session_part cfg us PS (session_id_heap db) (db_sessions db)" "rb_inv (DATAPLANE_RINGBUFFER_SIZE cfg) (db_ring db)"
    by (auto simp: db_inv_def flow_part_def)
  note wp = wf_packet_pipe [OF w]
  obtain e where e: "aget devmap (uint (dev_port ft)) = Some e" using devmap_defined [OF dev w] by blast
  from pop_id_ok [OF D(2) wp(1)] wp(3) obtain x hs where pop: "pop_id (flow_id_heap db) (ft_pipe ft) = Some (x, hs)" and
    x: "x = 0 \<and> pipe_id_set cfg (PF (ft_h ft)) \<subseteq> ran (flow_map (db_flows db)) \<or>
      x \<in> pipe_id_set cfg (PF (ft_h ft)) \<and> x \<notin> ran (flow_map (db_flows db))" by auto
  have x0: "x = 0 \<Longrightarrow> pipe_id_set cfg (PF (ft_h ft)) \<subseteq> ran (flow_map (db_flows db))" using x pipe_id_set_bounds(1) [OF _ wp(1), of 0] by auto
  define ft' where "ft' = ft\<lparr> session_id_egress_offset := dev_port_to_pipe e - ft_pipe ft \<rparr>"
  have key: "session_key us ft' = session_key us ft" by (simp add: ft'_def session_key_def)
  then have avail: "session_available cfg us PS ft' db = session_available cfg us PS ft db" by (simp add: session_available_def)
  have ft': "ft_h ft' = ft_h ft" "ft_pipe ft' = ft_pipe ft" "wf_packet us PF PS ft'" using w by (simp_all add: ft'_def)
  consider (out) "e = - 1 \<or> x = 0" | (old) v where "e \<noteq> - 1" "x \<noteq> 0" "flow_map (db_flows db) (ft_h ft) = Some v"
    | (new) "e \<noteq> - 1" "x \<noteq> 0" "flow_map (db_flows db) (ft_h ft) = None" by fastforce
  then show ?thesis
  proof cases
    case out
    with e pop r x0 show ?thesis by (auto simp: add_flow_def same_flows_def addable_def split: if_splits)
  next
    case old
    from flow_add_present [OF D(1), of ft' v x] old(3) ft'(1) have "flow_hashtable_add cfg (db_flows db) ft' x = Some (1, db_flows db)" by simp
    with e pop r old show ?thesis by (auto simp: add_flow_def same_flows_def addable_def ft'_def [symmetric] split: bind_splits)
  next
    case new
    with x have x': "x \<in> pipe_id_set cfg (PF (ft_h ft))" "x \<notin> ran (flow_map (db_flows db))" by auto
    have free: "flow_id_free cfg (flow_map (db_flows db)) x"
      using pipe_id_set_bounds(1,2) [OF x'(1) wp(1)] x'(2) by (simp add: flow_id_free_def)
    from flow_add_new [OF D(1) flow.never_full [OF D(1)] _ free, of ft'] new(3) ft'(1) obtain flows where
      f: "flow_hashtable_add cfg (db_flows db) ft' x = Some (0, flows)" "flow_table_inv cfg flows"
        "flow_map flows = (flow_map (db_flows db))(ft_h ft \<mapsto> x)" "flow_key_of flows = (flow_key_of (db_flows db))(ft_h ft \<mapsto> ft')" by auto
    let ?db = "db\<lparr> flow_id_heap := hs, db_flows := flows \<rparr>"
    from e pop r new f(1) have "add_flow_tail cfg us uuid ft' x (ft_pipe ft') ?db = Some db'"
      by (simp add: add_flow_def ft'_def [symmetric] Let_def ft'(2))
    then obtain s db1 where s: "add_flow_session cfg us uuid ft' (ft_pipe ft') ?db = Some (s, db1)"
      and t: "(if s = 0 then Some db1 else do {
            (_, sessions) \<leftarrow> session_hashtable_add_or_increase_flow_count cfg us (db_sessions db1) ft' s;
            let db = db1\<lparr> db_sessions := sessions \<rparr>;
            (r, ring) \<leftarrow> ringbuffer_put (DATAPLANE_RINGBUFFER_SIZE cfg) (DP_ADD_FLOW ft' x s) (db_ring db);
            let db = db\<lparr> db_ring := ring \<rparr>;
            if r \<noteq> 0 then do {
              hs \<leftarrow> push_id (flow_id_heap db) (ft_pipe ft') x;
              (_, flows) \<leftarrow> flow_hashtable_remove_by_value cfg (db_flows db) x ft';
              Some (db\<lparr> flow_id_heap := hs, db_flows := flows \<rparr>) }
            else Some db }) = Some db'"
      unfolding add_flow_tail_def by (auto split: bind_splits)
    from session_keeps [OF s] have n: "db_flows db1 = flows" "db_ring db1 = db_ring db" by simp_all
    show ?thesis
    proof (cases "s = 0")
      case True
      with session_id_found [of cfg us PS ?db, OF _ ft'(3) _ s] D(3) avail have "\<not> session_available cfg us PS ft db"
        by (auto simp: session_available_def)
      with True t n f(4) show ?thesis unfolding ft'_def by auto
    next
      case s0: False
      obtain y ring' where p: "ringbuffer_put (DATAPLANE_RINGBUFFER_SIZE cfg) (DP_ADD_FLOW ft' x s) (db_ring db) = Some (y, ring')"
        using ring.put_accept [OF D(4), of "DP_ADD_FLOW ft' x s"] by blast
      from ring.put_cases [OF D(4) p] have c: "y = 0 \<and> rb_items (DATAPLANE_RINGBUFFER_SIZE cfg) ring' = dp_items cfg db @ [DP_ADD_FLOW ft' x s] \<or>
          y = 1 \<and> length (dp_items cfg db) = DATAPLANE_RINGBUFFER_SIZE cfg \<and> rb_items (DATAPLANE_RINGBUFFER_SIZE cfg) ring' = dp_items cfg db" by blast
      show ?thesis
      proof (cases "y = 0")
        case True
        from egress_offset [OF dev w e new(1)] have "offset_ok ft'"
          unfolding offset_ok_def ft'(2) by (auto simp: ft'_def wp(3))
        moreover from True t n s0 p obtain y t' where
          u: "session_hashtable_add_or_increase_flow_count cfg us (db_sessions db1) ft' s = Some (y, t')"
          and d: "db_flows db' = flows" "db_ring db' = ring'" "db_sessions db' = t'" by (auto split: bind_splits)
        moreover from session_id_stored [of cfg us PS ?db, OF _ ft'(3) \<open>offset_ok ft'\<close> s s0 u] D(3) key
        have "session_map us t' (session_key us ft) = Some s" by simp
        ultimately show ?thesis using True c f(3,4) x' new(3) unfolding ft'_def Let_def by (intro disjI2 disjI1 exI conjI) auto
      next
        case False
        from f(3) have "flow_map flows (ft_h ft) = Some x" by simp
        from flow_remove_by_value_hit [OF f(2) this, of ft'] f(3,4) new(3) obtain flows1 k where
          u: "flow_hashtable_remove_by_value cfg flows x ft' = Some ((0, k), flows1)" "flow_map flows1 = (flow_map (db_flows db))(ft_h ft := None)"
            "flow_key_of flows1 = (flow_key_of (db_flows db))(ft_h ft := None)" by auto
        have "flow_map flows1 = flow_map (db_flows db)" "flow_key_of flows1 = flow_key_of (db_flows db)"
          using u(2,3) new(3) by (auto simp: flow_map_def flow_key_of_def fun_eq_iff)
        moreover from False t n s0 p u(1) have "db_flows db' = flows1" "db_ring db' = ring'" by (auto split: bind_splits)
        ultimately show ?thesis using False c by (auto simp: same_flows_def addable_def)
      qed
    qed
  qed
qed

lemma cleanup_emits:
  assumes inv: "db_inv cfg us PF PS db" and w: "wf_packet us PF PS ft" and g: "us \<Longrightarrow> 0 \<le> g \<and> g < int (FEATURE_SIZE cfg)"
    and r: "session_cleanup_after_flow_remove cfg us g ft db = Some db'"
  shows "db_flows db' = db_flows db \<and> (\<exists>cs. dp_items cfg db' = dp_items cfg db @ cs \<and>
    (cs = [] \<or> (\<exists>v \<in> pipe_id_set cfg (PF (ft_h ft)). cs = [DP_CLEAR_REGISTERS ft v])))"
proof -
  from inv have D: "session_table_inv cfg us (db_sessions db)" "rb_inv (DATAPLANE_RINGBUFFER_SIZE cfg) (db_ring db)"
    "\<And>c v. session_map us (db_sessions db) c = Some v \<Longrightarrow> v \<in> pipe_id_set cfg (PS c)" by (auto simp: db_inv_def session_part_def)
  from session_remove_general [OF D(1) g, of ft] obtain q v t where
    t: "session_hashtable_remove_or_decrease_flow_count cfg us (db_sessions db) ft g = Some ((q, v), t)"
      "q = 0 \<Longrightarrow> session_map us (db_sessions db) (session_key us ft) = Some v" by blast
  show ?thesis
  proof (cases "q = 0")
    case False
    with t r show ?thesis by (auto simp: session_cleanup_after_flow_remove_def)
  next
    case True
    with t D(3) wf_packet_pipe(2) [OF w] have v: "v \<in> pipe_id_set cfg (PF (ft_h ft))" by fastforce
    from True t(1) r obtain y ring' where p: "ringbuffer_put (DATAPLANE_RINGBUFFER_SIZE cfg) (DP_CLEAR_REGISTERS ft v) (db_ring db) = Some (y, ring')"
      "db_flows db' = db_flows db" "db_ring db' = ring'"
      by (auto simp: session_cleanup_after_flow_remove_def clear_registers_def split: bind_splits)
    with ring.put_cases [OF D(2) p(1)] v show ?thesis by fastforce
  qed
qed

text \<open>
  What a removal does, seen from the data plane ring: the flow is gone from the table whether or not the ring took the command that removes
  it from the switch.
\<close>

definition remove_emits :: "config \<Rightarrow> (five_tuple_for_hash_t \<Rightarrow> nat) \<Rightarrow> five_tuple_t \<Rightarrow> int \<Rightarrow> flow_db \<Rightarrow> flow_db \<Rightarrow> bool" where
  "remove_emits cfg PF ft x db db' \<longleftrightarrow> flow_map (db_flows db) (ft_h ft) = Some x \<and>
     flow_map (db_flows db') = (flow_map (db_flows db))(ft_h ft := None) \<and>
     flow_key_of (db_flows db') = (flow_key_of (db_flows db))(ft_h ft := None) \<and>
     (\<exists>cs. dp_items cfg db' = q_accept (DATAPLANE_RINGBUFFER_SIZE cfg) (DP_REMOVE_FLOW ft x) (dp_items cfg db) @ cs \<and>
        (cs = [] \<or> (\<exists>v \<in> pipe_id_set cfg (PF (ft_h ft)). cs = [DP_CLEAR_REGISTERS ft v])))"

lemma remove_tail_emits:
  assumes inv: "db_inv cfg us PF PS db" and w: "wf_packet us PF PS ft" and g: "us \<Longrightarrow> 0 \<le> g \<and> g < int (FEATURE_SIZE cfg)"
    and f: "flow_map (db_flows db) (ft_h ft) = Some x" "flow_table_inv cfg flows" "flow_map flows = (flow_map (db_flows db))(ft_h ft := None)"
      "flow_key_of flows = (flow_key_of (db_flows db))(ft_h ft := None)"
    and h: "push_id (flow_id_heap db) (ft_pipe ft) x = Some hs"
    and q: "rb_inv (DATAPLANE_RINGBUFFER_SIZE cfg) ring'" "rb_items (DATAPLANE_RINGBUFFER_SIZE cfg) ring' = q_accept (DATAPLANE_RINGBUFFER_SIZE cfg) (DP_REMOVE_FLOW ft x) (dp_items cfg db)"
    and r: "session_cleanup_after_flow_remove cfg us g ft (db\<lparr> db_flows := flows, flow_id_heap := hs, db_ring := ring' \<rparr>) = Some db'"
  shows "remove_emits cfg PF ft x db db'"
proof -
  from inv have "flow_part cfg us PF PS (flow_id_heap db) (db_flows db)" by (simp add: db_inv_def)
  from flow_remove_part [OF this f wf_packet_pipe(1) [OF w]] h wf_packet_pipe(3) [OF w] have "flow_part cfg us PF PS hs flows" by simp
  from cleanup_emits [OF db_inv_remove [OF inv this q(1)] w g r] f q(2) show ?thesis by (auto simp: remove_emits_def)
qed

lemma remove_by_five_tuple_emits:
  assumes inv: "db_inv cfg us PF PS db" and w: "wf_packet us PF PS ft" and g: "us \<Longrightarrow> 0 \<le> g \<and> g < int (FEATURE_SIZE cfg)"
    and r: "remove_flow_by_five_tuple cfg us g ft db = Some db'"
  shows "db' = db \<or> (\<exists>x. remove_emits cfg PF ft x db db')"
proof -
  from inv have D: "flow_table_inv cfg (db_flows db)" "rb_inv (DATAPLANE_RINGBUFFER_SIZE cfg) (db_ring db)"
    by (auto simp: db_inv_def flow_part_def)
  show ?thesis
  proof (cases "flow_map (db_flows db) (ft_h ft)")
    case None
    with flow_remove_miss [OF D(1) None flow.never_full [OF D(1)], of 0] r show ?thesis by (simp add: remove_flow_by_five_tuple_def)
  next
    case (Some x)
    from flow_remove_hit [OF D(1) Some, of 0] obtain flows where
      f: "flow_hashtable_remove cfg (db_flows db) ft 0 = Some ((0, x), flows)" "flow_table_inv cfg flows"
        "flow_map flows = (flow_map (db_flows db))(ft_h ft := None)" "flow_key_of flows = (flow_key_of (db_flows db))(ft_h ft := None)" by blast
    from ring.put_accept [OF D(2), of "DP_REMOVE_FLOW ft x"] obtain y ring' where
      q: "ringbuffer_put (DATAPLANE_RINGBUFFER_SIZE cfg) (DP_REMOVE_FLOW ft x) (db_ring db) = Some (y, ring')" "rb_inv (DATAPLANE_RINGBUFFER_SIZE cfg) ring'"
        "rb_items (DATAPLANE_RINGBUFFER_SIZE cfg) ring' = q_accept (DATAPLANE_RINGBUFFER_SIZE cfg) (DP_REMOVE_FLOW ft x) (dp_items cfg db)" by blast
    from r f(1) q(1) obtain hs where h: "push_id (flow_id_heap db) (ft_pipe ft) x = Some hs"
      "session_cleanup_after_flow_remove cfg us g ft (db\<lparr> db_flows := flows, flow_id_heap := hs, db_ring := ring' \<rparr>) = Some db'"
      by (auto simp: remove_flow_by_five_tuple_def split: bind_splits)
    from remove_tail_emits [OF inv w g Some f(2-4) h(1) q(2,3) h(2)] show ?thesis by blast
  qed
qed

lemma remove_by_flow_id_emits:
  assumes inv: "db_inv cfg us PF PS db" and g: "us \<Longrightarrow> 0 \<le> g \<and> g < int (FEATURE_SIZE cfg)" and x: "0 \<le> x" "x < int (FEATURE_SIZE cfg)"
    and r: "remove_flow_by_flow_id cfg us g x db = Some db'"
  shows "db' = db \<or> length (dp_items cfg db) < DATAPLANE_RINGBUFFER_SIZE cfg \<and> (\<exists>k. remove_emits cfg PF k x db db' \<and> flow_key_of (db_flows db) (ft_h k) = Some k \<and> wf_packet us PF PS k)"
proof -
  from inv have D: "flow_table_inv cfg (db_flows db)" "rb_inv (DATAPLANE_RINGBUFFER_SIZE cfg) (db_ring db)"
    "\<And>h k. flow_key_of (db_flows db) h = Some k \<Longrightarrow> wf_packet us PF PS k" by (auto simp: db_inv_def flow_part_def)
  show ?thesis
  proof (cases "x \<in> ran (flow_map (db_flows db))")
    case False
    then have "flow_id_free cfg (flow_map (db_flows db)) x" using x by (simp add: flow_id_free_def)
    from flow_remove_by_value_miss [OF D(1) this, of zero_five_tuple] r show ?thesis by (simp add: remove_flow_by_flow_id_def)
  next
    case True
    then obtain h where h: "flow_map (db_flows db) h = Some x" by (auto simp: ran_def)
    from flow_remove_by_value_hit [OF D(1) h, of zero_five_tuple] obtain flows k where
      f: "flow_hashtable_remove_by_value cfg (db_flows db) x zero_five_tuple = Some ((0, k), flows)" "flow_table_inv cfg flows"
        "flow_map flows = (flow_map (db_flows db))(ft_h k := None)" "flow_key_of flows = (flow_key_of (db_flows db))(ft_h k := None)"
        "flow_key_of (db_flows db) (ft_h k) = Some k" "h = ft_h k" by blast
    from r f(1) obtain hs ring' where q: "ringbuffer_ensure_put (DATAPLANE_RINGBUFFER_SIZE cfg) (DP_REMOVE_FLOW k x) (db_ring db) = Some ring'"
      and p: "push_id (flow_id_heap db) (ft_pipe k) x = Some hs"
      "session_cleanup_after_flow_remove cfg us g k (db\<lparr> db_flows := flows, flow_id_heap := hs, db_ring := ring' \<rparr>) = Some db'"
      by (auto simp: remove_flow_by_flow_id_def split: bind_splits)
    from ensure_put_stores [OF D(2) q] have e: "rb_inv (DATAPLANE_RINGBUFFER_SIZE cfg) ring'" "length (dp_items cfg db) < DATAPLANE_RINGBUFFER_SIZE cfg"
      "rb_items (DATAPLANE_RINGBUFFER_SIZE cfg) ring' = q_accept (DATAPLANE_RINGBUFFER_SIZE cfg) (DP_REMOVE_FLOW k x) (dp_items cfg db)"
      by (simp_all add: q_accept_def del: length_rb_items)
    from remove_tail_emits [OF inv D(3) [OF f(5)] g h [unfolded f(6)] f(2-4) p(1) e(1,3) p(2)] f(5) D(3) [OF f(5)] e(2) show ?thesis by blast
  qed
qed

text \<open>
  A FIN that finds the ring full is lost: the flow goes from the table and its id can be given away again, while nothing is sent to the switch, which
  keeps the entry.
\<close>

lemma fin_lost_when_full:
  assumes inv: "db_inv cfg us PF PS db" and w: "wf_packet us PF PS ft" and g: "us \<Longrightarrow> 0 \<le> g \<and> g < int (FEATURE_SIZE cfg)"
    and full: "length (dp_items cfg db) = DATAPLANE_RINGBUFFER_SIZE cfg"
  shows "\<exists>db'. remove_flow_by_five_tuple cfg us g ft db = Some db' \<and> flow_map (db_flows db') = (flow_map (db_flows db))(ft_h ft := None) \<and>
    dp_items cfg db' = dp_items cfg db"
proof -
  from remove_by_five_tuple_ok [OF inv w g] obtain db' where
    r: "remove_flow_by_five_tuple cfg us g ft db = Some db'" "db_inv cfg us PF PS db'" "flow_map (db_flows db') = (flow_map (db_flows db))(ft_h ft := None)"
    by blast
  from r(2) have "length (dp_items cfg db') \<le> DATAPLANE_RINGBUFFER_SIZE cfg" by (intro ring.items_le) (simp add: db_inv_def)
  moreover from remove_by_five_tuple_emits [OF inv w g r(1)] obtain cs where "dp_items cfg db' = dp_items cfg db @ cs"
    using full by (auto simp: remove_emits_def q_accept_def simp del: length_rb_items)
  ultimately have "dp_items cfg db' = dp_items cfg db" using full by (simp del: length_rb_items)
  with r show ?thesis by blast
qed

section \<open>Flow table and installed flows\<close>

text \<open>
  \<open>linked\<close>: the installed flows are those of the flow table, under the same ids and with the same keys.
\<close>

definition linked :: "flow_hashtable_t \<Rightarrow> installed \<Rightarrow> bool" where
  "linked flows m \<longleftrightarrow>
     (\<forall>x ft s. m x = Some (ft, s) \<longrightarrow> flow_map flows (ft_h ft) = Some x \<and> flow_key_of flows (ft_h ft) = Some ft \<and> tuple_ok ft \<and> offset_ok ft) \<and>
     (\<forall>h x. flow_map flows h = Some x \<longrightarrow> m x \<noteq> None)"

lemma linkedD:
  assumes "linked flows m"
  shows "m x = Some (ft, s) \<Longrightarrow> flow_map flows (ft_h ft) = Some x \<and> flow_key_of flows (ft_h ft) = Some ft \<and> tuple_ok ft \<and> offset_ok ft"
    and "flow_map flows h = Some x \<Longrightarrow> \<exists>ft s. m x = Some (ft, s)"
  using assms unfolding linked_def by fastforce+

lemma linked_same: "same_flows db db' \<Longrightarrow> linked (db_flows db') = linked (db_flows db)"
  by (simp add: linked_def same_flows_def fun_eq_iff)

lemma linked_add:
  assumes l: "linked flows m" and n: "flow_map flows (ft_h ft) = None" "x \<notin> ran (flow_map flows)" "tuple_ok ft" "offset_ok ft"
    and f: "flow_map flows' = (flow_map flows)(ft_h ft \<mapsto> x)" "flow_key_of flows' = (flow_key_of flows)(ft_h ft \<mapsto> ft)"
  shows "m x = None" "linked flows' (m(x \<mapsto> (ft, s)))"
proof -
  show x: "m x = None"
  proof (cases "m x")
    case (Some e)
    then show ?thesis using linkedD(1) [OF l, of x "fst e" "snd e"] n(2) by (auto simp: ran_def)
  qed
  have old: "ft_h k \<noteq> ft_h ft" if "m y = Some (k, r)" for y k r using linkedD(1) [OF l that] n(1) by auto
  show "linked flows' (m(x \<mapsto> (ft, s)))" unfolding linked_def
  proof (intro conjI allI impI, goal_cases)
    case (1 y k r)
    then show ?case using linkedD(1) [OF l, of y k r] old [of y k r] by (auto simp: f split: if_splits)
  next
    case (2 y k r)
    then show ?case using linkedD(1) [OF l, of y k r] old [of y k r] by (auto simp: f split: if_splits)
  next
    case (3 y k r)
    then show ?case using linkedD(1) [OF l, of y k r] n(3) by (auto split: if_splits)
  next
    case (4 y k r)
    then show ?case using linkedD(1) [OF l, of y k r] n(4) by (auto split: if_splits)
  next
    case (5 h y)
    then show ?case using linkedD(2) [OF l, of h y] by (auto simp: f split: if_splits)
  qed
qed

lemma linked_remove:
  assumes l: "linked flows m" and x: "flow_map flows (ft_h ft) = Some x" and t: "flow_table_inv cfg flows"
    and f: "flow_map flows' = (flow_map flows)(ft_h ft := None)" "flow_key_of flows' = (flow_key_of flows)(ft_h ft := None)"
  shows "\<exists>k s. m x = Some (k, s) \<and> is_ipv6 ft = is_ipv6 k" "linked flows' (m(x := None))"
proof -
  from linkedD(2) [OF l x] obtain k s where k: "m x = Some (k, s)" by blast
  with linkedD(1) [OF l k] flow_map_inj [OF t x] have h: "ft_h k = ft_h ft" by auto
  with k show "\<exists>k s. m x = Some (k, s) \<and> is_ipv6 ft = is_ipv6 k" by (auto simp: is_ipv6_def)
  have "y = x" if "m y = Some (k', r)" "ft_h k' = ft_h ft" for y k' r using linkedD(1) [OF l that(1)] that(2) x by simp
  moreover have "y \<noteq> x" if "flow_map flows h' = Some y" "h' \<noteq> ft_h ft" for h' y using flow_map_inj [OF t x, of h'] that by auto
  ultimately show "linked flows' (m(x := None))" using linkedD [OF l] unfolding linked_def f by (auto split: if_splits) 
qed

lemma clear_admissible:
  assumes "registers_ok cfg rs" "wf_packet us PF PS ft" "offset_ok ft" "v \<in> pipe_id_set cfg (PF (ft_h ft))"
  shows "clear_index_ok cfg rs v ft"
proof -
  note w = wf_packet_pipe [OF assms(2)]
  let ?o = "session_id_egress_offset ft"
  obtain q where q: "int (PF (ft_h ft)) + ?o = int q" "q < NUM_PIPES"
    using assms(3) w(3) by (auto simp: offset_ok_def intro: that [of "nat (int (PF (ft_h ft)) + ?o)"])
  note b = pipe_id_set_bounds [OF assms(4) w(1)] pipe_id_set_bounds [OF pipe_id_set_shift [OF assms(4) q(1)] q(2)]
  then show ?thesis using assms(1) by (auto simp: clear_index_ok_def registers_ok_def)
qed

lemma admissible_append:
  "dp_admissible_run cfg (cs @ ds) m rs \<longleftrightarrow> dp_admissible_run cfg cs m rs \<and> dp_admissible_run cfg ds (fold dp_effect cs m) rs"
  by (induction cs arbitrary: m) auto

section \<open>The two threads\<close>

text \<open>
  The steps of the threads, labelled by what happens. Nothing is assumed of a step beyond that the code returns from it: the values of the
  uninitialised \<open>session_id\<close> (\<open>g\<close>), of the array of hashes and of the offset of a FIN are arbitrary. The maintenance thread walks the rows of the
  filters, its command holds indices of earlier rows.
\<close>

type_synonym 'sw pipeline = "flow_db \<times> 'sw dataplane"

datatype pipeline_event = Flow_Command int packet_item_t | Row_Maintenance | Dataplane_Command dataplane_command_t

inductive pipeline_step :: "config \<Rightarrow> bool \<Rightarrow> int list \<Rightarrow> 'sw sde \<Rightarrow> 'sw pipeline \<Rightarrow> pipeline_event \<Rightarrow> 'sw pipeline \<Rightarrow> bool"
  for cfg us devmap sde where
  Command: "flowdb_command cfg us devmap uuid junk g command db = Some db' \<Longrightarrow>
     pipeline_step cfg us devmap sde (db, dp) (Flow_Command g command) (db', dp)"
| Maintain: "cmd_ok cfg cmd \<Longrightarrow> in_filter cfg pipe 0 index \<Longrightarrow>
     maintenance_index cfg rnd pipe index (db_bloom db, cmd, db_ring db) = Some (bf', cmd', ring') \<Longrightarrow>
     pipeline_step cfg us devmap sde (db, dp) Row_Maintenance (db\<lparr> db_bloom := bf', db_ring := ring' \<rparr>, dp)"
| Execute: "ringbuffer_get (DATAPLANE_RINGBUFFER_SIZE cfg) (db_ring db) = Some ((0, Some c), ring') \<Longrightarrow>
     dataplane_command sde c dp = Some dp' \<Longrightarrow>
     pipeline_step cfg us devmap sde (db, dp) (Dataplane_Command c) (db\<lparr> db_ring := ring' \<rparr>, dp')"

text \<open>
  Well-formed commands, as in \<open>command_ok\<close>: the packets of one flow and of one session come from one pipe of the switch and are IPv4 or IPv6, a time-out names
  an id in range, and with sessions enabled the garbage in \<open>session_id\<close> is an index.
\<close>

fun wf_event :: "config \<Rightarrow> bool \<Rightarrow> (five_tuple_for_hash_t \<Rightarrow> nat) \<Rightarrow> (session_key_t \<Rightarrow> nat) \<Rightarrow> pipeline_event \<Rightarrow> bool" where
  "wf_event cfg us PF PS (Flow_Command g (PKT_ADD_FLOW ft)) \<longleftrightarrow> wf_packet us PF PS ft \<and> tuple_ok ft"
| "wf_event cfg us PF PS (Flow_Command g (PKT_REMOVE_FLOW ft)) \<longleftrightarrow> wf_packet us PF PS ft \<and> tuple_ok ft \<and> (us \<longrightarrow> 0 \<le> g \<and> g < int (FEATURE_SIZE cfg))"
| "wf_event cfg us PF PS (Flow_Command g (PKT_TIMEOUT_FLOW x)) \<longleftrightarrow>
     0 \<le> x \<and> x < int (FEATURE_SIZE cfg) \<and> (us \<longrightarrow> 0 \<le> g \<and> g < int (FEATURE_SIZE cfg))"
| "wf_event cfg us PF PS (Flow_Command g (PKT_ADD_BLOOM_FILTER_IRRELEVANT ft)) \<longleftrightarrow> bf_flow_ok ft"
| "wf_event cfg us PF PS (Flow_Command g (PKT_FIX_BLOOM_FILTER_RELEVANT ft)) \<longleftrightarrow> bf_flow_ok ft"
| "wf_event cfg us PF PS _ \<longleftrightarrow> True"

text \<open>
  Orderly steps: the command is well-formed, there is a session id for a new flow, a FIN finds room in the ring and carries an offset to a
  pipe of the switch, and the data plane thread reports no error.
\<close>

fun resources_ok :: "config \<Rightarrow> bool \<Rightarrow> (session_key_t \<Rightarrow> nat) \<Rightarrow> packet_item_t \<Rightarrow> flow_db \<Rightarrow> bool" where
  "resources_ok cfg us PS (PKT_ADD_FLOW ft) db \<longleftrightarrow> session_available cfg us PS ft db"
| "resources_ok cfg us PS (PKT_REMOVE_FLOW ft) db \<longleftrightarrow> offset_ok ft \<and> length (dp_items cfg db) < DATAPLANE_RINGBUFFER_SIZE cfg"
| "resources_ok cfg us PS _ db \<longleftrightarrow> True"

definition orderly :: "config \<Rightarrow> bool \<Rightarrow> (five_tuple_for_hash_t \<Rightarrow> nat) \<Rightarrow> (session_key_t \<Rightarrow> nat) \<Rightarrow>
    'sw pipeline \<Rightarrow> pipeline_event \<Rightarrow> 'sw pipeline \<Rightarrow> bool" where
  "orderly cfg us PF PS st e st' \<longleftrightarrow> wf_event cfg us PF PS e \<and>
     (case e of Flow_Command g command \<Rightarrow> resources_ok cfg us PS command (fst st)
      | Row_Maintenance \<Rightarrow> True
      | Dataplane_Command c \<Rightarrow> dp_errors (snd st') = dp_errors (snd st))"

text \<open>The states that can be reached by steps that satisfy \<open>ok\<close>. At the start the ring and the classification tables are empty.\<close>

inductive pipeline_reachable :: "config \<Rightarrow> bool \<Rightarrow> int list \<Rightarrow> 'sw sde \<Rightarrow> 'sw tables \<Rightarrow>
    ('sw pipeline \<Rightarrow> pipeline_event \<Rightarrow> 'sw pipeline \<Rightarrow> bool) \<Rightarrow> 'sw pipeline \<Rightarrow> bool" for cfg us devmap sde tab ok where
  Start: "rb_inv (DATAPLANE_RINGBUFFER_SIZE cfg) ring \<Longrightarrow> rb_items (DATAPLANE_RINGBUFFER_SIZE cfg) ring = [] \<Longrightarrow>
     flowdb_start cfg (boot_db cfg ring) = Some db \<Longrightarrow>
     length (entry_hdls dp) = FEATURE_SIZE cfg \<Longrightarrow> registers_ok cfg (dp_features dp) \<Longrightarrow> dp_status dp = SUCCESS \<Longrightarrow>
     tab (dp_switch dp) = Map.empty \<Longrightarrow> pipeline_reachable cfg us devmap sde tab ok (db, dp)"
| Step: "pipeline_reachable cfg us devmap sde tab ok st \<Longrightarrow> pipeline_step cfg us devmap sde st e st' \<Longrightarrow> ok st e st' \<Longrightarrow>
     pipeline_reachable cfg us devmap sde tab ok st'"

abbreviation orderly_reachable :: "config \<Rightarrow> bool \<Rightarrow> int list \<Rightarrow> (five_tuple_for_hash_t \<Rightarrow> nat) \<Rightarrow> (session_key_t \<Rightarrow> nat) \<Rightarrow> 'sw sde \<Rightarrow>
    'sw tables \<Rightarrow> 'sw pipeline \<Rightarrow> bool" where
  "orderly_reachable cfg us devmap PF PS sde tab \<equiv> pipeline_reachable cfg us devmap sde tab (orderly cfg us PF PS)"

abbreviation wf_reachable :: "config \<Rightarrow> bool \<Rightarrow> int list \<Rightarrow> (five_tuple_for_hash_t \<Rightarrow> nat) \<Rightarrow> (session_key_t \<Rightarrow> nat) \<Rightarrow> 'sw sde \<Rightarrow>
    'sw tables \<Rightarrow> 'sw pipeline \<Rightarrow> bool" where
  "wf_reachable cfg us devmap PF PS sde tab \<equiv> pipeline_reachable cfg us devmap sde tab (\<lambda>st e st'. wf_event cfg us PF PS e)"

lemma orderly_wf: "orderly_reachable cfg us devmap PF PS sde tab st \<Longrightarrow> wf_reachable cfg us devmap PF PS sde tab st"
proof (induction rule: pipeline_reachable.induct)
  case (Start ring db dp)
  then show ?case by (rule pipeline_reachable.Start)
next
  case (Step st e st')
  then show ?case by (auto simp: orderly_def intro: pipeline_reachable.Step)
qed

text \<open>Every well-formed command from which the flow database returns keeps its invariant, also at a full ring.\<close>

lemma flowdb_command_inv:
  assumes inv: "db_inv cfg us PF PS db" and dev: "devmap_ok devmap" and c: "wf_event cfg us PF PS (Flow_Command g command)"
    and r: "flowdb_command cfg us devmap uuid junk g command db = Some db'"
  shows "db_inv cfg us PF PS db'"
proof (cases "command_ok cfg us PF PS g command db")
  case True
  from flowdb_command_ok [OF inv dev this, of uuid junk] r show ?thesis by simp
next
  case False
  let ?db = "db\<lparr> flowdb_stat := flowdb_stat db + 1 \<rparr>"
  from False c obtain x where x: "command = PKT_TIMEOUT_FLOW x" "0 \<le> x" "x < int (FEATURE_SIZE cfg)" "us \<longrightarrow> 0 \<le> g \<and> g < int (FEATURE_SIZE cfg)"
    "\<not> length (dp_items cfg ?db) < DATAPLANE_RINGBUFFER_SIZE cfg" by (cases command) auto
  with r have "remove_flow_by_flow_id cfg us g x ?db = Some db'" by (simp add: flowdb_command_def)
  from remove_by_flow_id_emits [of cfg us PF PS ?db, OF _ _ x(2,3) this] x(4,5) inv show ?thesis by auto
qed

definition pending_ok :: "config \<Rightarrow> feature_register_t list \<Rightarrow> installed \<Rightarrow> flow_db \<Rightarrow> bool" where
  "pending_ok cfg rs m db \<longleftrightarrow> dp_admissible_run cfg (dp_items cfg db) m rs \<and> linked (db_flows db) (fold dp_effect (dp_items cfg db) m)"

lemma pending_append:
  "pending_ok cfg rs m db \<Longrightarrow> dp_items cfg db' = dp_items cfg db @ cs \<Longrightarrow>
     (linked (db_flows db) (fold dp_effect (dp_items cfg db) m) \<Longrightarrow>
        dp_admissible_run cfg cs (fold dp_effect (dp_items cfg db) m) rs \<and>
        linked (db_flows db') (fold dp_effect cs (fold dp_effect (dp_items cfg db) m))) \<Longrightarrow> pending_ok cfg rs m db'"
  by (simp add: pending_ok_def admissible_append)

lemma pending_remove:
  assumes p: "pending_ok cfg rs m db" and e: "remove_emits cfg PF ft x db db'" and t: "flow_table_inv cfg (db_flows db)"
    and room: "length (dp_items cfg db) < DATAPLANE_RINGBUFFER_SIZE cfg"
    and ok: "registers_ok cfg rs" "wf_packet us PF PS ft" "offset_ok ft" "tuple_ok ft" "x \<in> pipe_id_set cfg (PF (ft_h ft))"
  shows "pending_ok cfg rs m db'"
proof -
  from e room obtain cs where c: "dp_items cfg db' = dp_items cfg db @ DP_REMOVE_FLOW ft x # cs"
    "cs = [] \<or> (\<exists>v \<in> pipe_id_set cfg (PF (ft_h ft)). cs = [DP_CLEAR_REGISTERS ft v])"
    by (auto simp: remove_emits_def q_accept_def simp del: length_rb_items)
  note b = pipe_id_set_bounds [OF ok(5) wf_packet_pipe(1) [OF ok(2)]]
  note f = e [unfolded remove_emits_def]
  show ?thesis
  proof (rule pending_append [OF p c(1)], goal_cases)
    case 1
    note r = linked_remove [OF 1 f [THEN conjunct1] t f [THEN conjunct2, THEN conjunct1] f [THEN conjunct2, THEN conjunct2, THEN conjunct1]]
    from c(2) clear_admissible [OF ok(1-3)] r b ok(4) show ?case by auto
  qed
qed

lemma pending_other:
  assumes "pending_ok cfg rs m db" "same_flows db db'"
    and "dp_items cfg db' = (if b then q_accept (DATAPLANE_RINGBUFFER_SIZE cfg) c (dp_items cfg db) else dp_items cfg db)"
    and "\<And>m. dp_admissible cfg c m rs \<and> dp_effect c m = m"
  shows "pending_ok cfg rs m db'"
proof -
  from assms(3) obtain cs where "dp_items cfg db' = dp_items cfg db @ cs" "cs = [] \<or> cs = [c]"
    by (auto simp: q_accept_def split: if_splits)
  with pending_append [OF assms(1), of db' cs] assms(4) linked_same [OF assms(2)] show ?thesis by auto
qed

lemma pending_add:
  assumes inv: "db_inv cfg us PF PS db" and dev: "devmap_ok devmap" and p: "pending_ok cfg rs m db"
    and ok: "wf_packet us PF PS ft" "tuple_ok ft" "session_available cfg us PS ft db"
    and r: "add_flow cfg us devmap uuid ft db = Some db'"
  shows "pending_ok cfg rs m db'"
  using add_flow_emits [OF inv ok(1) dev r]
proof (elim disjE)
  assume "same_flows db db' \<and> dp_items cfg db' = dp_items cfg db \<and> \<not> addable cfg devmap PF ft db"
  with p linked_same [of db db'] show ?thesis by (simp add: pending_ok_def)
next
  assume "\<exists>x s d. let ft' = ft\<lparr> session_id_egress_offset := d \<rparr> in
       x \<in> pipe_id_set cfg (PF (ft_h ft)) \<and> x \<notin> ran (flow_map (db_flows db)) \<and> offset_ok ft' \<and>
       flow_map (db_flows db) (ft_h ft) = None \<and> flow_map (db_flows db') = (flow_map (db_flows db))(ft_h ft \<mapsto> x) \<and>
       flow_key_of (db_flows db') = (flow_key_of (db_flows db))(ft_h ft \<mapsto> ft') \<and>
       session_map us (db_sessions db') (session_key us ft) = Some s \<and>
       dp_items cfg db' = dp_items cfg db @ [DP_ADD_FLOW ft' x s]"
  then obtain x s ft' where a: "x \<in> pipe_id_set cfg (PF (ft_h ft'))" "x \<notin> ran (flow_map (db_flows db))" "offset_ok ft'" "ft_h ft' = ft_h ft"
      "flow_map (db_flows db) (ft_h ft') = None" "flow_map (db_flows db') = (flow_map (db_flows db))(ft_h ft' \<mapsto> x)"
      "flow_key_of (db_flows db') = (flow_key_of (db_flows db))(ft_h ft' \<mapsto> ft')" "tuple_ok ft'"
      and c: "dp_items cfg db' = dp_items cfg db @ [DP_ADD_FLOW ft' x s]"
    using ok(2) by (auto simp: Let_def tuple_ok_def)
  note b = pipe_id_set_bounds [OF a(1)] wf_packet_pipe(1) [OF ok(1)]
  show ?thesis
  proof (rule pending_append [OF p c], goal_cases)
    case 1
    from linked_add [OF 1 a(5,2,8,3,6,7)] b a(4,8) show ?case by simp
  qed
qed (use ok(3) in simp)

lemma pending_time_out:
  assumes p: "pending_ok cfg rs m db" and e: "remove_emits cfg PF k x db db'" and inv: "db_inv cfg us PF PS db"
    and room: "length (dp_items cfg db) < DATAPLANE_RINGBUFFER_SIZE cfg"
    and k: "flow_key_of (db_flows db) (ft_h k) = Some k" "wf_packet us PF PS k" and ok: "registers_ok cfg rs"
  shows "pending_ok cfg rs m db'"
proof -
  from inv have t: "flow_table_inv cfg (db_flows db)" "\<And>h v. flow_map (db_flows db) h = Some v \<Longrightarrow> v \<in> pipe_id_set cfg (PF h)"
    by (auto simp: db_inv_def flow_part_def)
  from e have x: "flow_map (db_flows db) (ft_h k) = Some x" by (simp add: remove_emits_def)
  from p have l: "linked (db_flows db) (fold dp_effect (dp_items cfg db) m)" by (simp add: pending_ok_def)
  from linkedD(2) [OF l x] obtain k' s where k': "fold dp_effect (dp_items cfg db) m x = Some (k', s)" by blast
  note d = linkedD(1) [OF l k']
  have "ft_h k = ft_h k'" using flow_map_inj [OF t(1) x d [THEN conjunct1]] .
  with d k(1) have "tuple_ok k" "offset_ok k" by auto
  with pending_remove [OF p e t(1) room ok k(2)] t(2) [OF x] show ?thesis by blast
qed

lemma pending_command:
  assumes inv: "db_inv cfg us PF PS db" and dev: "devmap_ok devmap" and p: "pending_ok cfg rs m db" and ok: "registers_ok cfg rs"
    and c: "wf_event cfg us PF PS (Flow_Command g command)" "resources_ok cfg us PS command db"
    and r: "flowdb_command cfg us devmap uuid junk g command db = Some db'"
  shows "pending_ok cfg rs m db'"
proof -
  let ?db = "db\<lparr> flowdb_stat := flowdb_stat db + 1 \<rparr>"
  have i: "db_inv cfg us PF PS ?db" and q: "pending_ok cfg rs m ?db" using inv p by (simp_all add: pending_ok_def)
  from i have t: "flow_table_inv cfg (db_flows ?db)" "\<And>h v. flow_map (db_flows ?db) h = Some v \<Longrightarrow> v \<in> pipe_id_set cfg (PF h)"
    "bf_ok cfg (db_bloom ?db)" "rb_inv (DATAPLANE_RINGBUFFER_SIZE cfg) (db_ring ?db)"
    by (auto simp: db_inv_def flow_part_def)
  show ?thesis
  proof (cases command)
    case (PKT_ADD_FLOW ft)
    with c r have "add_flow cfg us devmap uuid ft ?db = Some db'" "session_available cfg us PS ft ?db" "wf_packet us PF PS ft" "tuple_ok ft"
      by (simp_all add: flowdb_command_def session_available_def)
    with pending_add [OF i dev q] show ?thesis by blast
  next
    case (PKT_REMOVE_FLOW ft)
    with c r have r': "remove_flow_by_five_tuple cfg us g ft ?db = Some db'" and o: "wf_packet us PF PS ft" "offset_ok ft" "tuple_ok ft"
      and g: "us \<Longrightarrow> 0 \<le> g \<and> g < int (FEATURE_SIZE cfg)" and room: "length (dp_items cfg ?db) < DATAPLANE_RINGBUFFER_SIZE cfg"
      by (simp_all add: flowdb_command_def)
    have "db' = ?db \<or> (\<exists>x. remove_emits cfg PF ft x ?db db')" by (rule remove_by_five_tuple_emits [OF i o(1) g r'])
    then show ?thesis
    proof (elim disjE)
      assume "\<exists>x. remove_emits cfg PF ft x ?db db'"
      then obtain x where e: "remove_emits cfg PF ft x ?db db'" ..
      then have "x \<in> pipe_id_set cfg (PF (ft_h ft))" by (intro t(2)) (simp add: remove_emits_def)
      from pending_remove [OF q e t(1) room ok o this] show ?thesis .
    next
      assume "db' = ?db"
      then show ?thesis using q by simp
    qed
  next
    case (PKT_TIMEOUT_FLOW x)
    with c r have r': "remove_flow_by_flow_id cfg us g x ?db = Some db'" and x: "0 \<le> x" "x < int (FEATURE_SIZE cfg)"
      and g: "us \<Longrightarrow> 0 \<le> g \<and> g < int (FEATURE_SIZE cfg)" by (simp_all add: flowdb_command_def)
    from remove_by_flow_id_emits [OF i g x r'] q pending_time_out [OF q _ i _ _ _ ok] show ?thesis by blast
  next
    case (PKT_ADD_BLOOM_FILTER_IRRELEVANT ft)
    with c have "bf_flow_ok ft" by simp
    from set_irrelevant_ok [OF db_inv_cfg_ok [OF i] t(3,4) this, of junk] PKT_ADD_BLOOM_FILTER_IRRELEVANT r obtain ring' where
      d: "same_flows ?db db'" "db_ring db' = ring'" "rb_items (DATAPLANE_RINGBUFFER_SIZE cfg) ring' = (if bf_send cfg junk ft (db_bloom ?db)
      then q_accept (DATAPLANE_RINGBUFFER_SIZE cfg) (DP_ADD_BLOOM_FILTER (bf_cmd cfg junk ft (db_bloom ?db)) (ft_pipe ft)) (dp_items cfg ?db)
      else dp_items cfg ?db)" by (auto simp: flowdb_command_def same_flows_def)
    have "0 < NUM_BLOOMFILTERS" by (simp add: NUM_BLOOMFILTERS_def)
    from bf_flow_in_filter [OF db_inv_cfg_ok [OF i] \<open>bf_flow_ok ft\<close> this, of junk]
    have a: "dp_admissible cfg (DP_ADD_BLOOM_FILTER (bf_cmd cfg junk ft (db_bloom ?db)) (ft_pipe ft)) m' rs" for m'
      by (simp add: in_filter_def bf_cmd_def)
    show ?thesis by (rule pending_other [OF q d(1)]) (use d a in auto)
  next
    case (PKT_FIX_BLOOM_FILTER_RELEVANT ft)
    with c have "bf_flow_ok ft" by simp
    from set_relevant_ok [OF db_inv_cfg_ok [OF i] t(3,4) this, of junk] PKT_FIX_BLOOM_FILTER_RELEVANT r obtain ring' where
      d: "same_flows ?db db'" "db_ring db' = ring'" "rb_items (DATAPLANE_RINGBUFFER_SIZE cfg) ring' = (if bf_send cfg junk ft (db_bloom ?db)
      then q_accept (DATAPLANE_RINGBUFFER_SIZE cfg) (DP_REMOVE_BLOOM_FILTER (bf_cmd cfg junk ft (db_bloom ?db)) (ft_pipe ft)) (dp_items cfg ?db)
      else dp_items cfg ?db)" by (auto simp: flowdb_command_def same_flows_def)
    show ?thesis by (rule pending_other [OF q d(1)]) (use d in auto)
  next
    case (PKT_REMOVE_BLOOM_FILTER ft)
    with r q show ?thesis by (simp add: flowdb_command_def)
  qed
qed

section \<open>Reachable states\<close>

fun pipeline_inv :: "config \<Rightarrow> bool \<Rightarrow> (five_tuple_for_hash_t \<Rightarrow> nat) \<Rightarrow> (session_key_t \<Rightarrow> nat) \<Rightarrow> 'sw tables \<Rightarrow> feature_register_t list \<Rightarrow>
    installed \<Rightarrow> 'sw pipeline \<Rightarrow> bool" where
  "pipeline_inv cfg us PF PS tab rs m (db, dp) \<longleftrightarrow> db_inv cfg us PF PS db \<and> registers_ok cfg rs \<and> dp_ok cfg rs dp \<and> dp_status dp = SUCCESS \<and>
     mirrored cfg tab m dp \<and> pending_ok cfg rs m db"

lemma pipeline_step_inv:
  assumes "sde_tables sde tab" "devmap_ok devmap" "pipeline_inv cfg us PF PS tab rs m (db, dp)"
    and "pipeline_step cfg us devmap sde (db, dp) e st'" "orderly cfg us PF PS (db, dp) e st'"
  shows "\<exists>m'. pipeline_inv cfg us PF PS tab rs m' st'"
  using assms(4)
proof cases
  case (Command uuid junk g command db')
  with assms(5) have c: "wf_event cfg us PF PS (Flow_Command g command)" "resources_ok cfg us PS command db" by (auto simp: orderly_def)
  from assms(3) have "db_inv cfg us PF PS db" "pending_ok cfg rs m db" "registers_ok cfg rs" by auto
  with flowdb_command_inv [OF _ assms(2) c(1) Command(3)] pending_command [OF _ assms(2) _ _ c Command(3)] Command assms(3)
  show ?thesis by (intro exI [of _ m]) simp
next
  case (Maintain cmd pipe index rnd bf' cmd' ring')
  from assms(3) have b: "bf_ok cfg (db_bloom db)" "rb_inv (DATAPLANE_RINGBUFFER_SIZE cfg) (db_ring db)" "pending_ok cfg rs m db" by (auto simp: db_inv_def)
  let ?db = "db\<lparr> db_bloom := bf', db_ring := ring' \<rparr>"
  from maintenance_index_ok [OF b(1) Maintain(3,4) b(2), of rnd] Maintain(5) have
    r: "bf_ok cfg bf'" "rb_inv (DATAPLANE_RINGBUFFER_SIZE cfg) ring'"
      "dp_items cfg ?db = (if row_hit (db_bloom db) rnd pipe index
         then q_accept (DATAPLANE_RINGBUFFER_SIZE cfg) (DP_REMOVE_BLOOM_FILTER cmd' pipe) (dp_items cfg db) else dp_items cfg db)" by auto
  have "same_flows db ?db" by (simp add: same_flows_def)
  from pending_other [OF b(3) this r(3)] have "pending_ok cfg rs m ?db" by simp
  with r assms(3) Maintain(2) show ?thesis by (intro exI [of _ m]) (simp add: db_inv_def)
next
  case (Execute c ring' dp')
  from assms(3) have b: "rb_inv (DATAPLANE_RINGBUFFER_SIZE cfg) (db_ring db)" "pending_ok cfg rs m db" "dp_ok cfg rs dp" "mirrored cfg tab m dp"
    "dp_status dp = SUCCESS" by (auto simp: db_inv_def)
  from assms(5) Execute have err: "dp_errors dp' = dp_errors dp" by (simp add: orderly_def)
  from ring.get_cases [OF b(1) Execute(3)] have r: "rb_inv (DATAPLANE_RINGBUFFER_SIZE cfg) ring'"
    "dp_items cfg db = c # rb_items (DATAPLANE_RINGBUFFER_SIZE cfg) ring'" by auto
  with b(2) have a: "dp_admissible cfg c m rs" "pending_ok cfg rs (dp_effect c m) (db\<lparr> db_ring := ring' \<rparr>)" by (auto simp: pending_ok_def)
  from dataplane_command_ok [OF assms(1) b(3) a(1)] Execute(4) err b(4,5) have
    "dp_ok cfg rs dp'" "dp_status dp' = SUCCESS" "mirrored cfg tab (dp_effect c m) dp'" by auto
  with a(2) r(1) assms(3) Execute(2) show ?thesis by (intro exI [of _ "dp_effect c m"]) (simp add: db_inv_def)
qed

lemma orderly_reachable_inv:
  assumes "sde_tables sde tab" "devmap_ok devmap" "cfg_ok cfg"
  shows "orderly_reachable cfg us devmap PF PS sde tab st \<Longrightarrow> \<exists>rs m. pipeline_inv cfg us PF PS tab rs m st"
proof (induction rule: pipeline_reachable.induct)
  case (Start ring db dp)
  with flowdb_start_ok [OF assms(3) Start(1), of us PF PS] have d: "db_inv cfg us PF PS db" "flow_map (db_flows db) = Map.empty" "dp_items cfg db = []"
    by auto
  have "pipeline_inv cfg us PF PS tab (dp_features dp) Map.empty (db, dp)"
    using Start d by (auto simp: dp_ok_def same_shape_def list_all2_same mirrored_def pending_ok_def linked_def)
  then show ?case by blast
next
  case (Step st e st')
  then obtain db dp rs m where "st = (db, dp)" "pipeline_inv cfg us PF PS tab rs m (db, dp)" by (cases st) auto
  with Step(2,3) pipeline_step_inv [OF assms(1,2), of cfg us PF PS rs m db dp e st'] show ?case by blast
qed

lemma admit_flow:
  assumes i: "db_inv cfg us PF PS db" "devmap_ok devmap" "wf_packet us PF PS ft" "session_available cfg us PS ft db" "addable cfg devmap PF ft db"
  shows "\<exists>db' x s d. flowdb_command cfg us devmap uuid junk g (PKT_ADD_FLOW ft) db = Some db' \<and>
    x \<in> pipe_id_set cfg (PF (ft_h ft)) \<and> x \<notin> ran (flow_map (db_flows db)) \<and>
    flow_map (db_flows db') = (flow_map (db_flows db))(ft_h ft \<mapsto> x) \<and>
    session_map us (db_sessions db') (session_key us ft) = Some s \<and>
    dp_items cfg db' = dp_items cfg db @ [DP_ADD_FLOW (ft\<lparr> session_id_egress_offset := d \<rparr>) x s]"
proof -
  let ?db = "db\<lparr> flowdb_stat := flowdb_stat db + 1 \<rparr>"
  have j: "db_inv cfg us PF PS ?db" "session_available cfg us PS ft ?db" "addable cfg devmap PF ft ?db"
    using i by (simp_all add: session_available_def addable_def)
  from flowdb_command_ok [OF i(1,2), of g "PKT_ADD_FLOW ft" uuid junk] i(3) obtain db' where
    r: "flowdb_command cfg us devmap uuid junk g (PKT_ADD_FLOW ft) db = Some db'" "add_flow cfg us devmap uuid ft ?db = Some db'"
    by (auto simp: flowdb_command_def)
  from add_flow_emits [OF j(1) i(3,2) r(2)] j(2,3) r(1) show ?thesis by (auto simp: Let_def)
qed

lemma orderly_add:
  assumes "orderly_reachable cfg us devmap PF PS sde tab (db, dp)" "wf_packet us PF PS ft" "tuple_ok ft" "session_available cfg us PS ft db"
    and "flowdb_command cfg us devmap uuid junk g (PKT_ADD_FLOW ft) db = Some db'"
  shows "orderly_reachable cfg us devmap PF PS sde tab (db', dp)"
  by (rule pipeline_reachable.Step [OF assms(1) pipeline_step.Command [OF assms(5)]]) (use assms(2-4) in \<open>simp add: orderly_def\<close>)

section \<open>Properties\<close>

definition example_dp :: "ref_switch dataplane" where
  "example_dp = (start_dataplane small_config)\<lparr> dp_features := features small_config (\<lambda>_. 1) \<rparr>"

abbreviation example_pipeline :: "ref_switch pipeline \<Rightarrow> bool" where
  "example_pipeline \<equiv> orderly_reachable small_config False example_devmap (\<lambda>_. 0) (\<lambda>_. 0) ref_sde sw_tab"

lemma example_start:
  "\<exists>db. example_pipeline (db, example_dp) \<and> flow_map (db_flows db) = Map.empty \<and>
     session_map False (db_sessions db) = Map.empty \<and> dp_items small_config db = []"
proof -
  let ?ring = "empty_ring (DATAPLANE_RINGBUFFER_SIZE small_config) (DP_ADD_BLOOM_FILTER [] 0)"
  have ring: "rb_inv (DATAPLANE_RINGBUFFER_SIZE small_config) ?ring" "rb_items (DATAPLANE_RINGBUFFER_SIZE small_config) ?ring = []"
    by (simp_all add: empty_ring_inv)
  from flowdb_start_ok [OF cfg_ok_small ring(1), of False "\<lambda>_. 0" "\<lambda>_. 0"] obtain db where
    d: "flowdb_start small_config (boot_db small_config ?ring) = Some db" "flow_map (db_flows db) = Map.empty"
      "session_map False (db_sessions db) = Map.empty" "db_ring db = ?ring" by blast
  have "registers_ok small_config (dp_features example_dp)"
    by (simp add: registers_ok_def example_dp_def features_def mk_register_def)
  then have "example_pipeline (db, example_dp)"
    by (intro pipeline_reachable.Start [OF ring d(1)]) (simp_all add: example_dp_def start_dataplane_def)
  with d ring(2) show ?thesis by (intro exI [of _ db]) simp
qed

lemma low_port:
  assumes "uint (dev_port ft) < 128"
  shows "wf_packet False (\<lambda>_. 0) (\<lambda>_. 0) ft" "aget example_devmap (uint (dev_port ft)) = Some 300"
proof -
  have "uint (dev_port ft) div 128 = 0" using assms by (simp add: div_pos_pos_trivial)
  moreover have "unat (dev_port ft) < 512" using assms uint_nat [of "dev_port ft"] by linarith
  ultimately show "wf_packet False (\<lambda>_. 0) (\<lambda>_. 0) ft" "aget example_devmap (uint (dev_port ft)) = Some 300"
    using assms by (simp_all add: wf_packet_def MAX_DEV_PORT_ID_def dev_port_to_pipe_def drop_bit_eq_div example_devmap_def aget_def nat_less_iff)
qed

lemma empty_db_admits:
  assumes "flow_map (db_flows db) = Map.empty" "session_map False (db_sessions db) = Map.empty" "dp_items small_config db = []"
    and "uint (dev_port ft) < 128"
  shows "session_available small_config False (\<lambda>_. 0) ft db" "addable small_config example_devmap (\<lambda>_. 0) ft db"
  using assms(1-3) low_port(2) [OF assms(4)]
  by (simp_all add: session_available_def addable_def pipe_id_set_small del: length_rb_items)

lemma example_flow_port: "uint (dev_port (example_flow p)) < 128"
  by (simp add: example_flow_def example_key_def zero_five_tuple_def)

lemmas example_flow_wf = low_port(1) [OF example_flow_port]
  and example_flow_admitted = empty_db_admits [OF _ _ _ example_flow_port]

lemma pending_executed:
  assumes "sde_tables sde tab" "devmap_ok devmap" "cfg_ok cfg" "orderly_reachable cfg us devmap PF PS sde tab (db, dp)"
  shows "\<exists>m dp'. dataplane_run sde (dp_items cfg db) dp = Some dp' \<and> flow_table_inv cfg (db_flows db) \<and>
    linked (db_flows db) (fold dp_effect (dp_items cfg db) m) \<and>
    (dp_errors dp' = dp_errors dp \<longrightarrow> mirrored cfg tab (fold dp_effect (dp_items cfg db) m) dp')"
proof -
  from orderly_reachable_inv [OF assms(1-3), of us PF PS "(db, dp)"] assms(4) obtain rs m where
    i: "dp_ok cfg rs dp" "dp_status dp = SUCCESS" "mirrored cfg tab m dp" "dp_admissible_run cfg (dp_items cfg db) m rs"
      "linked (db_flows db) (fold dp_effect (dp_items cfg db) m)" "flow_table_inv cfg (db_flows db)"
    by (auto simp: pending_ok_def db_inv_def flow_part_def)
  from dataplane_run_ok [OF assms(1) i(1,4)] i(2,3,5,6) show ?thesis by fastforce
qed

text \<open>
  C1. The switch follows the flow table in every orderly history, that is for every interleaving of the flow database, the Bloom filter maintenance and the
  data plane thread in which each new flow finds a session id, each FIN finds room in the data plane ring and carries an offset to a pipe of the switch, the
  packets are well-formed and the thread reports no error. In every state that is reached in this way the data plane thread can execute all pending commands, and if
  it reports no error, the classification tables then hold exactly the flows of the flow table, each under the handle of its flow id, with its key and
  its pipe. The code does not ensure these conditions: a FIN at a full ring is lost (\<open>fin_lost_when_full\<close>), a flow without session id is
  stored but not sent, and the offset of a FIN is not initialised.
\<close>

theorem switch_follows_flow_table:
  assumes "sde_tables sde tab" "devmap_ok devmap" "cfg_ok cfg" "orderly_reachable cfg us devmap PF PS sde tab (db, dp)"
  shows "\<exists>dp'. dataplane_run sde (dp_items cfg db) dp = Some dp' \<and>
    (dp_errors dp' = dp_errors dp \<longrightarrow>
      (\<forall>h x. flow_map (db_flows db) h = Some x \<longrightarrow> (\<exists>ft s. flow_key_of (db_flows db) h = Some ft \<and>
         tab (dp_switch dp') (is_ipv6 ft, entry_hdls dp' ! nat x) = Some (tuple_pipe ft, flow_match ft, of_int (flow_id_to_register_index s)))) \<and>
      (\<forall>k e. tab (dp_switch dp') k = Some e \<longrightarrow> (\<exists>h x ft. flow_map (db_flows db) h = Some x \<and> flow_key_of (db_flows db) h = Some ft \<and>
         k = (is_ipv6 ft, entry_hdls dp' ! nat x))))"
proof -
  from pending_executed [OF assms] obtain m dp' where
    r: "dataplane_run sde (dp_items cfg db) dp = Some dp'" "dp_errors dp' = dp_errors dp \<Longrightarrow> mirrored cfg tab (fold dp_effect (dp_items cfg db) m) dp'"
    and i: "flow_table_inv cfg (db_flows db)" "linked (db_flows db) (fold dp_effect (dp_items cfg db) m)" by blast
  let ?m = "fold dp_effect (dp_items cfg db) m"
  show ?thesis
  proof (intro exI [of _ dp'] conjI impI allI, rule r(1), goal_cases)
    case (1 h x)
    from linkedD(2) [OF i(2) 1(2)] obtain ft s where f: "?m x = Some (ft, s)" by blast
    from linkedD(1) [OF i(2) f] flow_map_inj [OF i(1) 1(2)] have "flow_key_of (db_flows db) h = Some ft" by fastforce
    with mirroredD(1) [OF r(2) [OF 1(1)] f] show ?case by (auto simp: flow_slot_def flow_entry_def)
  next
    case (2 k e)
    from mirroredD(2) [OF r(2) [OF 2(1)] 2(2)] obtain x ft s where f: "?m x = Some (ft, s)" "k = flow_slot dp' x ft" by blast
    with linkedD(1) [OF i(2) f(1)] show ?case by (intro exI [of _ "ft_h ft"] exI [of _ x] exI [of _ ft]) (simp add: flow_slot_def)
  qed
qed

lemma example_run:
  assumes "0 \<le> x" "x < int (FEATURE_SIZE small_config)" "tuple_ok ft" "l3_proto (ft_h ft) = L3_IPV4"
  shows "\<exists>dp'. dataplane_run ref_sde [DP_ADD_FLOW ft x s] example_dp = Some dp' \<and> dp_errors dp' = dp_errors example_dp"
proof -
  have "length (entry_hdls example_dp) = FEATURE_SIZE small_config" by (simp add: example_dp_def start_dataplane_def)
  with assms tuple_target [OF assms(3)] show ?thesis
    by (simp add: dataplane_command_def aget_Some aset_Some switch_add_classification_entry_def switch_add_ipv4_entry_def ref_sde_def ref_add_def
        report_status_def) (simp add: example_dp_def start_dataplane_def)
qed

theorem switch_follows_flow_table_witness:
  "\<exists>db dp' x ft s. example_pipeline (db, example_dp) \<and> dataplane_run ref_sde (dp_items small_config db) example_dp = Some dp' \<and>
     flow_map (db_flows db) (ft_h (example_flow 1)) = Some x \<and>
     sw_tab (dp_switch dp') (is_ipv6 ft, entry_hdls dp' ! nat x) = Some (tuple_pipe ft, flow_match ft, s)"
proof -
  from example_start obtain db where d: "example_pipeline (db, example_dp)" "flow_map (db_flows db) = Map.empty"
    "session_map False (db_sessions db) = Map.empty" "dp_items small_config db = []" by blast
  let ?ft = "\<lambda>d. (example_flow 1)\<lparr> session_id_egress_offset := d \<rparr>"
  from orderly_reachable_inv [OF ref_sde_tables example_devmap_ok cfg_ok_small d(1)] have "db_inv small_config False (\<lambda>_. 0) (\<lambda>_. 0) db" by auto
  from admit_flow [OF this example_devmap_ok example_flow_wf example_flow_admitted [OF d(2-4)], of "''u''" "[]" 0 1] d(2,4) obtain db' x s d' where
    c: "flowdb_command small_config False example_devmap ''u'' [] 0 (PKT_ADD_FLOW (example_flow 1)) db = Some db'"
      "x \<in> pipe_id_set small_config 0" "flow_map (db_flows db') = [ft_h (example_flow 1) \<mapsto> x]" "dp_items small_config db' = [DP_ADD_FLOW (?ft d') x s]"
    by auto
  from orderly_add [OF d(1) example_flow_wf example_flow_ok example_flow_admitted(1) [OF d(2-4)] c(1)] have r: "example_pipeline (db', example_dp)" .
  have "tuple_ok (?ft d')" "l3_proto (ft_h (?ft d')) = L3_IPV4" "0 \<le> x" "x < int (FEATURE_SIZE small_config)"
    using example_flow_ok [of 1] c(2) pipe_id_set_bounds [OF c(2)] by (simp_all add: tuple_ok_def example_flow_def NUM_PIPES_def)
  from example_run [OF this(3,4,1,2), of s] obtain dp' where
    e: "dataplane_run ref_sde (dp_items small_config db') example_dp = Some dp'" "dp_errors dp' = dp_errors example_dp" unfolding c(4) by blast
  have x: "flow_map (db_flows db') (ft_h (example_flow 1)) = Some x" by (simp add: c(3))
  from switch_follows_flow_table [OF ref_sde_tables example_devmap_ok cfg_ok_small r] e
  have "\<forall>h y. flow_map (db_flows db') h = Some y \<longrightarrow> (\<exists>ft s. flow_key_of (db_flows db') h = Some ft \<and>
     sw_tab (dp_switch dp') (is_ipv6 ft, entry_hdls dp' ! nat y) = Some (tuple_pipe ft, flow_match ft, of_int (flow_id_to_register_index s)))"
    by (simp del: split_paired_All split_paired_Ex)
  with x obtain ft s' where
    "sw_tab (dp_switch dp') (is_ipv6 ft, entry_hdls dp' ! nat x) = Some (tuple_pipe ft, flow_match ft, of_int (flow_id_to_register_index s'))" by blast
  with r e(1) x show ?thesis by (intro exI conjI)
qed

lemma session_remove_entry_hit:
  assumes "session_table_inv cfg us t" "session_map us t (session_key us key) = Some v"
  shows "\<exists>t'. session_remove_entry cfg us t key g = Some ((0, v), t')"
proof -
  from session_index_hit [OF assms] obtain i where i: "i < FLOW_HASHTABLE_SIZE cfg"
    "session_get_hashtable_index cfg us t key (session_hashtable_hash_key us key) = Some (0, i)"
    "occ (sh_entries t) i" "e_value (sh_entries t ! i) = v" by blast
  with session_remove_by_index_ok [OF assms(1) i(1,3), of False] session_table_invD(5) [OF assms(1)]
  show ?thesis by (auto simp: session_remove_entry_def)
qed

lemma clear_values_out:
  "r \<in> set rs \<Longrightarrow> on_egress r = 1 \<Longrightarrow> session_id + off < 0 \<Longrightarrow> clear_values session_id off rs = None"
  by (induction rs) (auto simp: aset_def split: bind_splits)

text \<open>
  C36. The egress offset of a FIN is never initialised by the packet handler, and the flow database passes the FIN's own five tuple on. If the
  offset leads below the first session, the flow database sends it to the data plane all the same, and the thread then writes
  outside the array of every feature that is read on egress.
\<close>

theorem fin_offset_leaves_registers:
  assumes "db_inv cfg False PF PS db" "wf_packet False PF PS ft"
    and "flow_map (db_flows db) (ft_h ft) = Some x" "session_map False (db_sessions db) (session_key False ft) = Some v"
    and "length (dp_items cfg db) + 2 \<le> DATAPLANE_RINGBUFFER_SIZE cfg"
    and "r \<in> set (dp_features dp)" "on_egress r = 1" "v + session_id_egress_offset ft < 0"
  shows "\<exists>db'. remove_flow_by_five_tuple cfg False g ft db = Some db' \<and>
    dp_items cfg db' = dp_items cfg db @ [DP_REMOVE_FLOW ft x, DP_CLEAR_REGISTERS ft v] \<and>
    dataplane_command sde (DP_CLEAR_REGISTERS ft v) dp = None"
proof -
  let ?N = "DATAPLANE_RINGBUFFER_SIZE cfg"
  from assms(1) have D: "flow_table_inv cfg (db_flows db)" "rb_inv ?N (db_ring db)" "session_table_inv cfg False (db_sessions db)"
    by (auto simp: db_inv_def flow_part_def session_part_def)
  from remove_by_five_tuple_ok [OF assms(1,2)] obtain db' where db': "remove_flow_by_five_tuple cfg False g ft db = Some db'" by auto
  from flow_remove_hit [OF D(1) assms(3), of 0] obtain flows where f: "flow_hashtable_remove cfg (db_flows db) ft 0 = Some ((0, x), flows)" by blast
  from ring.put_room [OF D(2), of "DP_REMOVE_FLOW ft x"] assms(5) obtain q where
    q: "ringbuffer_put ?N (DP_REMOVE_FLOW ft x) (db_ring db) = Some (0, q)" "rb_inv ?N q" "rb_items ?N q = dp_items cfg db @ [DP_REMOVE_FLOW ft x]"
    by auto
  have "length (rb_items ?N q) < ?N" unfolding q(3) using assms(5) by (simp del: length_rb_items)
  from ring.put_room [OF q(2) this, of "DP_CLEAR_REGISTERS ft v"] obtain q' where
    q': "ringbuffer_put ?N (DP_CLEAR_REGISTERS ft v) q = Some (0, q')" "rb_items ?N q' = rb_items ?N q @ [DP_CLEAR_REGISTERS ft v]" by blast
  from session_remove_entry_hit [OF D(3) assms(4), of g] obtain t where t: "session_remove_entry cfg False (db_sessions db) ft g = Some ((0, v), t)" by blast
  have "db_ring db' = q'"
    using db' f q(1) q'(1) t by (auto simp: remove_flow_by_five_tuple_def session_cleanup_after_flow_remove_def clear_registers_def
        session_hashtable_remove_or_decrease_flow_count_def split: bind_splits)
  moreover have "dataplane_command sde (DP_CLEAR_REGISTERS ft v) dp = None"
    using clear_values_out [OF assms(6-8)] by (simp add: dataplane_command_def dp_clear_registers_def)
  ultimately show ?thesis using db' q(3) q'(2) by auto
qed

theorem fin_offset_leaves_registers_witness:
  "\<exists>db db' d. remove_flow_by_five_tuple small_config False 0 ((example_flow 1)\<lparr> session_id_egress_offset := d \<rparr>) db = Some db' \<and>
     dataplane_command ref_sde (DP_CLEAR_REGISTERS ((example_flow 1)\<lparr> session_id_egress_offset := d \<rparr>) 4) example_dp = None"
proof -
  let ?ft = "(example_flow 1)\<lparr> session_id_egress_offset := - 128 \<rparr>"
  from example_start obtain db where d: "example_pipeline (db, example_dp)" "flow_map (db_flows db) = Map.empty"
    "session_map False (db_sessions db) = Map.empty" "dp_items small_config db = []" by blast
  from orderly_reachable_inv [OF ref_sde_tables example_devmap_ok cfg_ok_small d(1)] have i: "db_inv small_config False (\<lambda>_. 0) (\<lambda>_. 0) db" by auto
  then have D: "flow_table_inv small_config (db_flows db)" "session_table_inv small_config False (db_sessions db)"
    "ids_ok small_config (flow_id_heap db) {}" "ids_ok small_config (session_id_heap db) {}" "flow_key_of (db_flows db) = Map.empty"
    using d(2,3) by (auto simp: db_inv_def flow_part_def session_part_def flow_map_def flow_key_of_def fun_eq_iff)
  have "(0 :: nat) < NUM_PIPES" by (simp add: NUM_PIPES_def)
  from pop_id_ok [OF D(3) this] pop_id_ok [OF D(4) this] obtain fh sh where h: "ids_ok small_config fh {4}" "ids_ok small_config sh {4}"
    by (auto simp: pipe_id_set_small)
  have "flow_id_free small_config (flow_map (db_flows db)) 4" by (simp add: flow_id_free_def d(2))
  from flow_add_new [OF D(1) flow.never_full [OF D(1)] _ this, of "example_flow 1"] d(2) D(5) obtain flows where
    f: "flow_table_inv small_config flows" "flow_map flows = [ft_h (example_flow 1) \<mapsto> 4]"
      "flow_key_of flows = [ft_h (example_flow 1) \<mapsto> example_flow 1]" by auto
  have "session_id_free small_config (session_map False (db_sessions db)) (example_flow 1) 4"
    by (simp add: session_id_free_def d(3) example_flow_def example_key_def zero_five_tuple_def)
  from session_add_new [OF D(2) session_table_never_full [OF D(2)] _ this] d(3) obtain t where
    t: "session_table_inv small_config False t" "session_map False t = [session_key False (example_flow 1) \<mapsto> 4]" by auto
  let ?db = "db\<lparr> flow_id_heap := fh, db_flows := flows, session_id_heap := sh, db_sessions := t \<rparr>"
  have inv: "db_inv small_config False (\<lambda>_. 0) (\<lambda>_. 0) ?db"
    using i h f t example_flow_wf by (auto simp: db_inv_def flow_part_def session_part_def pipe_id_set_small)
  have r: "hd (dp_features example_dp) \<in> set (dp_features example_dp)" "on_egress (hd (dp_features example_dp)) = 1"
    by (simp_all add: example_dp_def features_def mk_register_def)
  have "session_key False ?ft = session_key False (example_flow 1)" by (simp add: session_key_def)
  then have "session_map False (db_sessions ?db) (session_key False ?ft) = Some 4" "flow_map (db_flows ?db) (ft_h ?ft) = Some 4" "4 + session_id_egress_offset ?ft < 0"
    "wf_packet False (\<lambda>_. 0) (\<lambda>_. 0) ?ft" using f(2) t(2) example_flow_wf by simp_all
  moreover have "length (dp_items small_config ?db) + 2 \<le> DATAPLANE_RINGBUFFER_SIZE small_config" using d(4) by (simp del: length_rb_items)
  ultimately have "\<exists>db'. remove_flow_by_five_tuple small_config False 0 ?ft ?db = Some db' \<and>
      dp_items small_config db' = dp_items small_config ?db @ [DP_REMOVE_FLOW ?ft 4, DP_CLEAR_REGISTERS ?ft 4] \<and>
      dataplane_command ref_sde (DP_CLEAR_REGISTERS ?ft 4) example_dp = None"
    by (intro fin_offset_leaves_registers [OF inv _ _ _ _ r])
  then show ?thesis by blast
qed

end
