(* ===== verification/Dns_Hashtable.thy ===== *)
theory Dns_Hashtable
  imports Open_Addressing Keyed_Table Murmur
begin

text \<open>
  \<^verbatim>\<open>datastructures/dns_hashtable.c\<close>: the table from addresses to the time until which the address
  belongs to a relevant domain. Unlike the flow table it replaces the value of a present key, has no
  reverse map, and nothing bounds the number of keys below the table size, so it can become full.
\<close>

section \<open>Model\<close>

type_synonym dns_hashtable_entry_t = "(dns_hashtable_key_t, int) ht_entry"

record dns_hashtable_t =
  dh_num_entries :: u64
  dh_entries :: "dns_hashtable_entry_t list"

definition zero_dns_entry :: dns_hashtable_entry_t where
  "zero_dns_entry =
     \<lparr> e_key = \<lparr> dk_type = 0, dk_addr = 0 \<rparr>, e_value = 0, e_hash = 0, e_occupied = False \<rparr>"

definition dns_hashtable_hash_key :: "dns_hashtable_key_t \<Rightarrow> u32" where
  "dns_hashtable_hash_key key = MurmurHash3_x86_32 (dns_key_image key) MURMUR_SEED"

definition dns_hashtable_init :: "config \<Rightarrow> dns_hashtable_t" where
  "dns_hashtable_init cfg =
     \<lparr> dh_num_entries = 0, dh_entries = replicate (DNS_HASHTABLE_SIZE cfg) zero_dns_entry \<rparr>"

definition dns_same_key :: "dns_hashtable_key_t \<Rightarrow> dns_hashtable_key_t \<Rightarrow> bool" where
  "dns_same_key key k' \<longleftrightarrow> dns_key_image k' = dns_key_image key"

definition dns_get_hashtable_index ::
  "config \<Rightarrow> dns_hashtable_t \<Rightarrow> dns_hashtable_key_t \<Rightarrow> u32 \<Rightarrow> (int \<times> nat) option" where
  "dns_get_hashtable_index cfg t key hash =
     probe (DNS_HASHTABLE_SIZE cfg) (dns_same_key key) hash (dh_entries t)
       (HASH2INDEX (DNS_HASHTABLE_SIZE cfg) hash)"

definition dns_hashtable_add_or_change ::
  "config \<Rightarrow> dns_hashtable_t \<Rightarrow> dns_hashtable_key_t \<Rightarrow> int \<Rightarrow> (int \<times> dns_hashtable_t) option" where
  "dns_hashtable_add_or_change cfg t key value =
     (if dh_num_entries t = of_nat (DNS_HASHTABLE_SIZE cfg) then Some (1, t)
      else do {
        let hash = dns_hashtable_hash_key key;
        (status, index) \<leftarrow> dns_get_hashtable_index cfg t key hash;
        e \<leftarrow> aget (dh_entries t) (int index);
        if status = 0 then do {
          entries \<leftarrow> aset (dh_entries t) (int index) (e\<lparr> e_value := value \<rparr>);
          Some (0, t\<lparr> dh_entries := entries \<rparr>) }
        else do {
          entries \<leftarrow> aset (dh_entries t) (int index)
            \<lparr> e_key = key, e_value = value, e_hash = hash, e_occupied = True \<rparr>;
          Some (0, t\<lparr> dh_entries := entries, dh_num_entries := dh_num_entries t + 1 \<rparr>) } })"

definition dns_hashtable_get ::
  "config \<Rightarrow> dns_hashtable_t \<Rightarrow> dns_hashtable_key_t \<Rightarrow> int \<Rightarrow> (int \<times> int) option" where
  "dns_hashtable_get cfg t key value =
     do { (ret, index) \<leftarrow> dns_get_hashtable_index cfg t key (dns_hashtable_hash_key key);
          if ret = 0 then do { e \<leftarrow> aget (dh_entries t) (int index); Some (ret, e_value e) }
          else Some (ret, value) }"

definition dns_hashtable_remove ::
  "config \<Rightarrow> dns_hashtable_t \<Rightarrow> dns_hashtable_key_t \<Rightarrow> (int \<times> dns_hashtable_t) option" where
  "dns_hashtable_remove cfg t key =
     do { (status, index) \<leftarrow> dns_get_hashtable_index cfg t key (dns_hashtable_hash_key key);
          if status \<noteq> 0 then Some (status, t)
          else do {
            e \<leftarrow> aget (dh_entries t) (int index);
            entries \<leftarrow> aset (dh_entries t) (int index) (e\<lparr> e_occupied := False \<rparr>);
            (entries, _) \<leftarrow> backshift (DNS_HASHTABLE_SIZE cfg) (\<lambda>_ _. Some) entries () index index;
            Some (0, t\<lparr> dh_entries := entries, dh_num_entries := dh_num_entries t - 1 \<rparr>) } }"

section \<open>Invariant\<close>

definition dns_hash :: "dns_hashtable_key_t \<Rightarrow> u32" where
  "dns_hash k = MurmurHash3_x86_32 (dns_key_image k) MURMUR_SEED"

definition dns_table_inv :: "config \<Rightarrow> dns_hashtable_t \<Rightarrow> bool" where
  [inv_defs]: "dns_table_inv cfg t \<longleftrightarrow>
     table_inv (DNS_HASHTABLE_SIZE cfg) (\<lambda>k. k) dns_hash (dh_entries t) \<and>
     dh_num_entries t = of_nat (size (elems (dh_entries t)))"

definition dns_map :: "dns_hashtable_t \<Rightarrow> dns_hashtable_key_t \<Rightarrow> int option" where
  "dns_map t k = map_option snd (tmap (\<lambda>k. k) (dh_entries t) k)"

lemma dns_key_simps:
  "dns_same_key key = (\<lambda>k. k = key)" "dns_hashtable_hash_key key = dns_hash key"
  by (auto simp: dns_same_key_def dns_key_image_eq_iff dns_hashtable_hash_key_def dns_hash_def)

lemma dns_table_invD:
  assumes "dns_table_inv cfg t"
  shows "table_inv (DNS_HASHTABLE_SIZE cfg) (\<lambda>k. k) dns_hash (dh_entries t)"
    and "dh_num_entries t = of_nat (size (elems (dh_entries t)))"
    and "length (dh_entries t) = DNS_HASHTABLE_SIZE cfg" "DNS_HASHTABLE_SIZE cfg < 2 ^ 31"
    and "keys_ok (\<lambda>k. k) dns_hash (elems (dh_entries t))"
  using assms by (auto simp: dns_table_inv_def table_inv_def)

lemma dns_map_None: "dns_map t k = None \<longleftrightarrow> tmap (\<lambda>k. k) (dh_entries t) k = None"
  by (simp add: dns_map_def)

lemma card_dns_map:
  "dns_table_inv cfg t \<Longrightarrow> finite (dom (dns_map t)) \<and> card (dom (dns_map t)) = size (elems (dh_entries t))"
proof -
  assume "dns_table_inv cfg t"
  moreover have "dom (dns_map t) = dom (tmap (\<lambda>k. k) (dh_entries t))" by (auto simp: dns_map_def)
  ultimately show ?thesis using card_dom_tmap [OF dns_table_invD(5)] by simp
qed

lemma dns_full_iff:
  "dns_table_inv cfg t \<Longrightarrow>
     dh_num_entries t = of_nat (DNS_HASHTABLE_SIZE cfg) \<longleftrightarrow> card (dom (dns_map t)) = DNS_HASHTABLE_SIZE cfg"
  using dns_table_invD [of cfg t] card_dns_map [of cfg t] size_elems_le [of "dh_entries t"]
  by (simp add: num_entries_eq_iff)

lemma dns_init_inv:
  assumes "0 < DNS_HASHTABLE_SIZE cfg" "DNS_HASHTABLE_SIZE cfg < 2 ^ 31"
  shows "dns_table_inv cfg (dns_hashtable_init cfg)" "dns_map (dns_hashtable_init cfg) = Map.empty"
  using table_inv_init [OF assms, of zero_dns_entry]
  by (simp_all add: dns_table_inv_def dns_hashtable_init_def zero_dns_entry_def dns_map_def fun_eq_iff)

section \<open>Operations\<close>

lemma dns_index_hit:
  assumes "dns_table_inv cfg t" "dns_map t key = Some v"
  shows "\<exists>i < DNS_HASHTABLE_SIZE cfg. dns_get_hashtable_index cfg t key (dns_hashtable_hash_key key) = Some (0, i) \<and>
    occ (dh_entries t) i \<and> e_value (dh_entries t ! i) = v \<and> e_key (dh_entries t ! i) = key"
proof -
  from assms(2) obtain k where "tmap (\<lambda>k. k) (dh_entries t) key = Some (k, v)" by (auto simp: dns_map_def)
  from table_probe_hit [OF dns_table_invD(1) [OF assms(1)] this] show ?thesis
    by (auto simp: dns_get_hashtable_index_def dns_key_simps)
qed

lemma dns_index_miss:
  assumes "dns_table_inv cfg t" "dns_map t key = None" "card (dom (dns_map t)) < DNS_HASHTABLE_SIZE cfg"
  shows "\<exists>i < DNS_HASHTABLE_SIZE cfg. dns_get_hashtable_index cfg t key (dns_hashtable_hash_key key) = Some (1, i) \<and>
    \<not> occ (dh_entries t) i \<and>
    (\<forall>j < DNS_HASHTABLE_SIZE cfg. cdist (DNS_HASHTABLE_SIZE cfg) (HASH2INDEX (DNS_HASHTABLE_SIZE cfg) (dns_hash key)) j
       < cdist (DNS_HASHTABLE_SIZE cfg) (HASH2INDEX (DNS_HASHTABLE_SIZE cfg) (dns_hash key)) i \<longrightarrow> occ (dh_entries t) j)"
  using table_probe_miss [OF dns_table_invD(1) [OF assms(1)], of key] assms card_dns_map [OF assms(1)]
  by (simp add: dns_get_hashtable_index_def dns_key_simps dns_map_None)

lemma dns_get_hit:
  "dns_table_inv cfg t \<Longrightarrow> dns_map t key = Some v \<Longrightarrow> dns_hashtable_get cfg t key v0 = Some (0, v)"
  using dns_index_hit [of cfg t key v] dns_table_invD(3) [of cfg t] by (auto simp: dns_hashtable_get_def)

lemma dns_get_miss:
  "dns_table_inv cfg t \<Longrightarrow> dns_map t key = None \<Longrightarrow> card (dom (dns_map t)) < DNS_HASHTABLE_SIZE cfg \<Longrightarrow>
     dns_hashtable_get cfg t key v0 = Some (1, v0)"
  using dns_index_miss [of cfg t key] by (auto simp: dns_hashtable_get_def)

lemma dns_put_full:
  "dns_table_inv cfg t \<Longrightarrow> card (dom (dns_map t)) = DNS_HASHTABLE_SIZE cfg \<Longrightarrow>
     dns_hashtable_add_or_change cfg t key v = Some (1, t)"
  by (simp add: dns_hashtable_add_or_change_def dns_full_iff)

lemma dns_put_new:
  assumes "dns_table_inv cfg t" "card (dom (dns_map t)) < DNS_HASHTABLE_SIZE cfg" "dns_map t key = None"
  shows "\<exists>t'. dns_hashtable_add_or_change cfg t key v = Some (0, t') \<and> dns_table_inv cfg t' \<and>
    dns_map t' = (dns_map t)(key \<mapsto> v)"
proof -
  note D = dns_table_invD [OF assms(1)]
  let ?sz = "DNS_HASHTABLE_SIZE cfg"
  define e where "e = \<lparr> e_key = key, e_value = v, e_hash = dns_hash key, e_occupied = True \<rparr>"
  have e: "e_occupied e" "e_hash e = dns_hash (e_key e)" "e_key e = key" "e_value e = v"
    by (simp_all add: e_def)
  from dns_index_miss [OF assms(1,3,2)] e obtain i where
    i: "i < ?sz" "dns_get_hashtable_index cfg t key (dns_hashtable_hash_key key) = Some (1, i)"
      "\<not> occ (dh_entries t) i" and path: "\<forall>j < ?sz. cdist ?sz (HASH2INDEX ?sz (e_hash e)) j
        < cdist ?sz (HASH2INDEX ?sz (e_hash e)) i \<longrightarrow> occ (dh_entries t) j" by auto
  have new: "tmap (\<lambda>k. k) (dh_entries t) (e_key e) = None" using assms(3) e by (simp add: dns_map_None)
  note ins = table_insert [OF D(1) new i(1,3) e(1,2) path]
  define t' where "t' = t\<lparr> dh_entries := (dh_entries t)[i := e], dh_num_entries := dh_num_entries t + 1 \<rparr>"
  have "dns_table_inv cfg t'" using ins D(2) by (simp add: dns_table_inv_def t'_def)
  moreover have "dns_map t' = (dns_map t)(key \<mapsto> v)"
    using ins(2) e by (auto simp: t'_def dns_map_def fun_eq_iff)
  moreover have "dns_hashtable_add_or_change cfg t key v = Some (0, t')"
    using i(1,2) D(3) assms(2) dns_full_iff [OF assms(1)]
    by (simp add: dns_hashtable_add_or_change_def Let_def t'_def e_def dns_key_simps)
  ultimately show ?thesis by blast
qed

text \<open>Replacing a value changes neither the occupied slots nor the keys.\<close>

lemma chained_same_shape:
  assumes "chained sz es" "length es = sz" "i < sz" "e_occupied e = occ es i" "e_hash e = e_hash (es ! i)"
  shows "chained sz (es[i := e])"
proof -
  have "occ (es[i := e]) j = occ es j" "e_hash (es[i := e] ! j) = e_hash (es ! j)" for j
    using assms by (cases "j = i"; simp)+
  then show ?thesis using assms(1) unfolding chained_def by simp
qed

lemma dns_put_change:
  assumes "dns_table_inv cfg t" "card (dom (dns_map t)) < DNS_HASHTABLE_SIZE cfg" "dns_map t key = Some w"
  shows "\<exists>t'. dns_hashtable_add_or_change cfg t key v = Some (0, t') \<and> dns_table_inv cfg t' \<and>
    dns_map t' = (dns_map t)(key \<mapsto> v)"
proof -
  note D = dns_table_invD [OF assms(1)]
  from dns_index_hit [OF assms(1,3)] obtain i where
    i: "i < DNS_HASHTABLE_SIZE cfg" "dns_get_hashtable_index cfg t key (dns_hashtable_hash_key key) = Some (0, i)"
      "occ (dh_entries t) i" "e_key (dh_entries t ! i) = key" by blast
  let ?e = "dh_entries t ! i" and ?es = "(dh_entries t)[i := (dh_entries t ! i)\<lparr> e_value := v \<rparr>]"
  define M where "M = elems (dh_entries t) - {#?e#}"
  have mem: "?e \<in># elems (dh_entries t)" using elems_mem [of i "dh_entries t"] i D(3) by simp
  then have el: "elems (dh_entries t) = add_mset ?e M" "elems ?es = add_mset (?e\<lparr> e_value := v \<rparr>) M"
    using i D(3) by (simp_all add: M_def elems_update)
  have k': "keys_ok (\<lambda>k. k) dns_hash (elems ?es)"
    using D(5) unfolding el keys_ok_def by simp
  have "table_inv (DNS_HASHTABLE_SIZE cfg) (\<lambda>k. k) dns_hash ?es"
    using D(1) k' i chained_same_shape [of "DNS_HASHTABLE_SIZE cfg" "dh_entries t" i "?e\<lparr> e_value := v \<rparr>"]
    by (simp add: table_inv_def)
  moreover have "size (elems ?es) = size (elems (dh_entries t))" by (simp add: el)
  moreover have "dns_map (t\<lparr> dh_entries := ?es \<rparr>) k = ((dns_map t)(key \<mapsto> v)) k" for k
  proof (cases "k = key")
    case True
    then show ?thesis using tmap_Some_iff [OF k', of key key v] i(4) el(2) by (simp add: dns_map_def)
  next
    case False
    have "tmap (\<lambda>k. k) ?es k = Some p \<longleftrightarrow> tmap (\<lambda>k. k) (dh_entries t) k = Some p" for p
      using False i(4) by (cases p) (simp add: tmap_Some_iff [OF D(5)] tmap_Some_iff [OF k'] el)
    then have "tmap (\<lambda>k. k) ?es k = tmap (\<lambda>k. k) (dh_entries t) k" by (metis not_None_eq)
    with False show ?thesis by (simp add: dns_map_def)
  qed
  moreover have "dns_hashtable_add_or_change cfg t key v = Some (0, t\<lparr> dh_entries := ?es \<rparr>)"
    using i(1,2) D(3) assms(2) dns_full_iff [OF assms(1)]
    by (simp add: dns_hashtable_add_or_change_def Let_def)
  ultimately show ?thesis using D(2) by (auto simp: dns_table_inv_def fun_eq_iff)
qed

lemma dns_remove_hit:
  assumes "dns_table_inv cfg t" "dns_map t key = Some v"
  shows "\<exists>t'. dns_hashtable_remove cfg t key = Some (0, t') \<and> dns_table_inv cfg t' \<and>
    dns_map t' = (dns_map t)(key := None)"
proof -
  note D = dns_table_invD [OF assms(1)]
  from dns_index_hit [OF assms] obtain i where
    i: "i < DNS_HASHTABLE_SIZE cfg" "dns_get_hashtable_index cfg t key (dns_hashtable_hash_key key) = Some (0, i)"
      "occ (dh_entries t) i" "e_key (dh_entries t ! i) = key" by blast
  let ?e0 = "(dh_entries t ! i)\<lparr> e_occupied := False \<rparr>"
  have "\<exists>es' x'. backshift (DNS_HASHTABLE_SIZE cfg) (\<lambda>_ _. Some) ((dh_entries t)[i := ?e0]) () i i = Some (es', x') \<and>
      table_inv (DNS_HASHTABLE_SIZE cfg) (\<lambda>k. k) dns_hash es' \<and>
      tmap (\<lambda>k. k) es' = (tmap (\<lambda>k. k) (dh_entries t))(e_key (dh_entries t ! i) := None) \<and>
      Suc (size (elems es')) = size (elems (dh_entries t)) \<and> True"
    by (rule table_remove [where J = "\<lambda>_ _. True", OF D(1) i(1,3)]) simp_all
  then obtain es' where r:
    "backshift (DNS_HASHTABLE_SIZE cfg) (\<lambda>_ _. Some) ((dh_entries t)[i := ?e0]) () i i = Some (es', ())"
    "table_inv (DNS_HASHTABLE_SIZE cfg) (\<lambda>k. k) dns_hash es'" "tmap (\<lambda>k. k) es' = (tmap (\<lambda>k. k) (dh_entries t))(key := None)"
    "Suc (size (elems es')) = size (elems (dh_entries t))" using i(4) by auto
  define t' where "t' = t\<lparr> dh_entries := es', dh_num_entries := dh_num_entries t - 1 \<rparr>"
  have "dns_table_inv cfg t'" using r(2) D(2) r(4) [symmetric] by (simp add: dns_table_inv_def t'_def)
  moreover have "dns_map t' = (dns_map t)(key := None)" using r(3) by (auto simp: t'_def dns_map_def)
  moreover have "dns_hashtable_remove cfg t key = Some (0, t')"
    using r(1) i D(3) by (simp add: dns_hashtable_remove_def t'_def)
  ultimately show ?thesis by blast
qed

lemma dns_remove_miss:
  "dns_table_inv cfg t \<Longrightarrow> dns_map t key = None \<Longrightarrow> card (dom (dns_map t)) < DNS_HASHTABLE_SIZE cfg \<Longrightarrow>
     dns_hashtable_remove cfg t key = Some (1, t)"
  using dns_index_miss [of cfg t key] by (auto simp: dns_hashtable_remove_def)

lemma dns_index_full:
  assumes "dns_table_inv cfg t" "card (dom (dns_map t)) = DNS_HASHTABLE_SIZE cfg" "dns_map t key = None"
  shows "dns_get_hashtable_index cfg t key (dns_hashtable_hash_key key) = None"
  using table_probe_full [OF dns_table_invD(1) [OF assms(1)], of key] assms(2,3) card_dns_map [OF assms(1)]
  by (simp add: dns_get_hashtable_index_def dns_key_simps dns_map_None)

lemma dns_card_le: "dns_table_inv cfg t \<Longrightarrow> card (dom (dns_map t)) \<le> DNS_HASHTABLE_SIZE cfg"
  using card_dns_map [of cfg t] size_elems_le [of "dh_entries t"] dns_table_invD(3) [of cfg t] by simp

lemma dns_remove_none:
  assumes "dns_table_inv cfg t" "dns_map t key = None" "dns_hashtable_remove cfg t key = Some (r, t')"
  shows "r = 1 \<and> t' = t"
proof -
  have "card (dom (dns_map t)) \<noteq> DNS_HASHTABLE_SIZE cfg"
    using dns_index_full [OF assms(1) _ assms(2)] assms(3) by (auto simp: dns_hashtable_remove_def)
  with dns_card_le [OF assms(1)] dns_remove_miss [OF assms(1,2)] assms(3) show ?thesis by simp
qed

section \<open>The table contract\<close>

interpretation dns: overwrite_table "DNS_HASHTABLE_SIZE cfg" "dns_table_inv cfg" dns_map "\<lambda>k. k"
  "dns_hashtable_get cfg" "dns_hashtable_remove cfg" id "dns_hashtable_add_or_change cfg" for cfg
proof unfold_locales
  fix t assume "dns_table_inv cfg t"
  then show "finite (dom (dns_map t)) \<and> card (dom (dns_map t)) \<le> DNS_HASHTABLE_SIZE cfg"
    using card_dns_map [of cfg t] size_elems_le [of "dh_entries t"] dns_table_invD(3) [of cfg t] by simp
next
  fix t and key :: dns_hashtable_key_t and v assume "dns_table_inv cfg t" "dns_map t key = Some v"
  then show "\<exists>r s'. dns_hashtable_remove cfg t key = Some (r, s') \<and> id r = 0 \<and> dns_table_inv cfg s' \<and>
    dns_map s' = (dns_map t)(key := None)" using dns_remove_hit [of cfg t key v] by simp
next
  fix t and key :: dns_hashtable_key_t and v
  assume "dns_table_inv cfg t" "card (dom (dns_map t)) < DNS_HASHTABLE_SIZE cfg"
  then show "\<exists>s'. dns_hashtable_add_or_change cfg t key v = Some (0, s') \<and> dns_table_inv cfg s' \<and>
    dns_map s' = (dns_map t)(key \<mapsto> v)"
    using dns_put_new [of cfg t key v] dns_put_change [of cfg t key _ v] by (cases "dns_map t key") auto
qed (simp_all add: dns_get_hit dns_get_miss dns_remove_miss dns_put_full)

section \<open>Properties\<close>

text \<open>
  C15. As long as the table has a free slot, \<open>dns_hashtable_add_or_change\<close> succeeds and later
  lookups of the address give the new value, whether or not the address was present; all other
  addresses keep theirs. Removing an address removes exactly it, and removing it again is reported and changes nothing. All keep the table invariant.
\<close>

theorem dns_table_correct:
  assumes "dns_table_inv cfg t" "card (dom (dns_map t)) < DNS_HASHTABLE_SIZE cfg"
  shows "\<exists>t'. dns_hashtable_add_or_change cfg t key v = Some (0, t') \<and> dns_table_inv cfg t' \<and>
    dns_hashtable_get cfg t' key v0 = Some (0, v) \<and>
    (\<forall>k w. k \<noteq> key \<longrightarrow> dns_map t k = Some w \<longrightarrow> dns_hashtable_get cfg t' k v0 = Some (0, w)) \<and>
    (\<exists>t''. dns_hashtable_remove cfg t' key = Some (0, t'') \<and> dns_table_inv cfg t'' \<and>
       dns_hashtable_get cfg t'' key v0 = Some (1, v0) \<and>
       dns_hashtable_remove cfg t'' key = Some (1, t'') \<and>
       (\<forall>k. k \<noteq> key \<longrightarrow> dns_hashtable_get cfg t'' k v0 =
          Some (case dns_map t k of None \<Rightarrow> (1, v0) | Some w \<Rightarrow> (0, w))))"
proof -
  from dns.put_ok [OF assms, of key v] obtain t' where
    t': "dns_hashtable_add_or_change cfg t key v = Some (0, t')" "dns_table_inv cfg t'"
      "dns_map t' = (dns_map t)(key \<mapsto> v)" by blast
  then have hit: "dns_map t' key = Some v" by simp
  from dns.remove_hit [OF t'(2) hit] obtain t'' where
    t'': "dns_hashtable_remove cfg t' key = Some (0, t'')" "dns_table_inv cfg t''"
      "dns_map t'' = (dns_map t)(key := None)" using t'(3) by auto
  have c: "card (dom (dns_map t'')) < DNS_HASHTABLE_SIZE cfg"
    using dns.card_remove [OF t'(2) hit] t'(3) t''(3) by simp
  from t''(3) have "dns_map t'' key = None" by simp
  from dns_remove_miss [OF t''(2) this c] have again: "dns_hashtable_remove cfg t'' key = Some (1, t'')" .
  from c have "dns_hashtable_get cfg t'' k v0 =
      Some (case dns_map t'' k of None \<Rightarrow> (1, v0) | Some w \<Rightarrow> (0, w))" for k
    using dns.get_eq [OF t''(2), of k v0] by simp
  with t'' again have "\<exists>t''. dns_hashtable_remove cfg t' key = Some (0, t'') \<and> dns_table_inv cfg t'' \<and>
      dns_hashtable_get cfg t'' key v0 = Some (1, v0) \<and> dns_hashtable_remove cfg t'' key = Some (1, t'') \<and>
      (\<forall>k. k \<noteq> key \<longrightarrow> dns_hashtable_get cfg t'' k v0 =
        Some (case dns_map t k of None \<Rightarrow> (1, v0) | Some w \<Rightarrow> (0, w)))" by simp
  with t' show ?thesis using dns.get_hit [OF t'(2)] by simp
qed

theorem dns_table_correct_witness:
  "\<exists>t'. dns_hashtable_add_or_change small_config (dns_hashtable_init small_config)
      \<lparr> dk_type = L3_IPV4, dk_addr = 7 \<rparr> 99 = Some (0, t') \<and>
    dns_hashtable_get small_config t' \<lparr> dk_type = L3_IPV4, dk_addr = 7 \<rparr> 0 = Some (0, 99)"
proof -
  have "dns_table_inv small_config (dns_hashtable_init small_config)"
    "card (dom (dns_map (dns_hashtable_init small_config))) < DNS_HASHTABLE_SIZE small_config"
    using dns_init_inv [of small_config] by simp_all
  from dns_table_correct [OF this, of "\<lparr> dk_type = L3_IPV4, dk_addr = 7 \<rparr>" 99 0] show ?thesis by blast
qed

text \<open>
  C34. Once every slot is occupied, a lookup or removal of an address that is not stored never
  returns, because the probing loop only stops at a free slot or at the key; and a new value for an
  address that is stored is refused with status 1.
\<close>

theorem dns_full_table:
  assumes "dns_table_inv cfg t" "card (dom (dns_map t)) = DNS_HASHTABLE_SIZE cfg"
  shows "(\<forall>key v. dns_map t key = None \<longrightarrow>
      dns_hashtable_get cfg t key v = None \<and> dns_hashtable_remove cfg t key = None) \<and>
    (\<forall>key v. dns_hashtable_add_or_change cfg t key v = Some (1, t))"
  using dns_put_full [OF assms] dns_index_full [OF assms]
  by (simp add: dns_hashtable_get_def dns_hashtable_remove_def)

theorem dns_full_table_witness:
  "\<exists>t. card (dom (dns_map t)) = DNS_HASHTABLE_SIZE (small_config\<lparr> DNS_HASHTABLE_SIZE := 1 \<rparr>) \<and>
    dns_hashtable_get (small_config\<lparr> DNS_HASHTABLE_SIZE := 1 \<rparr>) t \<lparr> dk_type = 0, dk_addr = 1 \<rparr> 0 = None"
proof -
  let ?cfg = "small_config\<lparr> DNS_HASHTABLE_SIZE := 1 \<rparr>"
  have init: "dns_table_inv ?cfg (dns_hashtable_init ?cfg)" "dns_map (dns_hashtable_init ?cfg) = Map.empty"
    using dns_init_inv [of ?cfg] by simp_all
  from dns.put_ok [OF init(1), of "\<lparr> dk_type = 0, dk_addr = 0 \<rparr>" 5] init(2) obtain t where
    t: "dns_table_inv ?cfg t" "dns_map t = [\<lparr> dk_type = 0, dk_addr = 0 \<rparr> \<mapsto> 5]" by auto
  then have full: "card (dom (dns_map t)) = DNS_HASHTABLE_SIZE ?cfg" by simp
  with dns_full_table [OF t(1) full] t(2) show ?thesis by (intro exI [of _ t]) simp
qed

end
