(* ===== verification/Packet_Handler.thy ===== *)
theory Packet_Handler
  imports Flow_Hashtable Dns_Hashtable Ring_Buffer
begin

text \<open>
  \<^verbatim>\<open>packet_handler/packet_handler.c\<close>: the callback that parses a captured packet and turns it into
  commands for the flow database and the DNS database. A captured packet is the memory readable at
  its address, \<open>mem\<close>, of which libpcap declares the first \<open>caplen\<close> bytes valid; a header pointer
  is the offset of the header. \<open>dnsdb\<close> tells whether \<open>USE_DNS_DB\<close> is defined, \<open>now\<close> is the monotonic clock
  in seconds, \<open>off\<close> is the value of the uninitialised field \<open>session_id_egress_offset\<close>.

  Shown: frames in the layout of the data plane are parsed to their addresses, ports, ingress port and
  timestamp; which commands each kind of packet causes; no packet makes the parser read past
  the captured bytes, except packets that are taken for DNS replies, which always do.
\<close>

section \<open>Model\<close>

record packet_state =
  ph_flows :: flow_hashtable_t
  ph_dns :: dns_hashtable_t
  ph_packets :: "packet_item_t ringbuffer"
  ph_replies :: "dns_item_t ringbuffer"
  packet_handler_stat :: u32

definition is_known :: "config \<Rightarrow> five_tuple_t \<Rightarrow> packet_state \<Rightarrow> bool option" where
  "is_known cfg ft st = do { (r, _) \<leftarrow> flow_hashtable_get cfg (ph_flows st) ft 0; Some (r = 0) }"

definition toDnsHashtableKey :: "address_t \<Rightarrow> l3_proto_t \<Rightarrow> dns_hashtable_key_t" where
  "toDnsHashtableKey address proto =
     \<lparr> dk_type = proto,
       dk_addr = (if proto = L3_IPV4 then set_ipv4 (addr_ipv4 address) 0
                  else if proto = L3_IPV6 then address else 0) \<rparr>"

definition isInDnsHashtable :: "config \<Rightarrow> bool \<Rightarrow> address_t \<Rightarrow> l3_proto_t \<Rightarrow> packet_state \<Rightarrow> bool option" where
  "isInDnsHashtable cfg dnsdb address proto st =
     (if dnsdb then do { (r, _) \<leftarrow> dns_hashtable_get cfg (ph_dns st) (toDnsHashtableKey address proto) 0; Some (r = 0) }
      else Some True)"

text \<open>One of the two halves of \<open>heuristic\<close>: \<open>True\<close> when the function returns here.\<close>

definition heuristic_address :: "config \<Rightarrow> int \<Rightarrow> address_t \<Rightarrow> l3_proto_t \<Rightarrow> packet_state \<Rightarrow> (bool \<times> packet_state) option" where
  "heuristic_address cfg now address proto st =
     do { let key = toDnsHashtableKey address proto;
          (r, timeout) \<leftarrow> dns_hashtable_get cfg (ph_dns st) key 0;
          if r = 0 then
            if timeout < now then do {
              (_, ring) \<leftarrow> ringbuffer_put (DNS_RINGBUFFER_SIZE cfg) (DNS_REMOVE_IP key) (ph_replies st);
              Some (False, st\<lparr> ph_replies := ring \<rparr>) }
            else Some (True, st)
          else Some (False, st) }"

definition heuristic :: "config \<Rightarrow> bool \<Rightarrow> int \<Rightarrow> five_tuple_t \<Rightarrow> packet_state \<Rightarrow> (bool \<times> packet_state) option" where
  "heuristic cfg dnsdb now ft st =
     do { (b, st) \<leftarrow> heuristic_address cfg now (src_addr (ft_h ft)) (l3_proto (ft_h ft)) st;
          if b then Some (True, st)
          else do {
            (b, st) \<leftarrow> heuristic_address cfg now (dst_addr (ft_h ft)) (l3_proto (ft_h ft)) st;
            if b then Some (True, st)
            else Some (\<not> dnsdb, st) } }"

definition setup_session_hash :: "config \<Rightarrow> bool \<Rightarrow> five_tuple_t \<Rightarrow> packet_state \<Rightarrow> five_tuple_t option" where
  "setup_session_hash cfg dnsdb ft st =
     do { src \<leftarrow> isInDnsHashtable cfg dnsdb (src_addr (ft_h ft)) (l3_proto (ft_h ft)) st;
          if src then Some (ft\<lparr> ft_sh := \<lparr> client_addr = dst_addr (ft_h ft), to_server = False \<rparr> \<rparr>)
          else do {
            dst \<leftarrow> isInDnsHashtable cfg dnsdb (dst_addr (ft_h ft)) (l3_proto (ft_h ft)) st;
            if dst then Some (ft\<lparr> ft_sh := \<lparr> client_addr = src_addr (ft_h ft), to_server = True \<rparr> \<rparr>)
            else Some ft } }"

definition put_packet :: "config \<Rightarrow> packet_item_t \<Rightarrow> packet_state \<Rightarrow> packet_state option" where
  "put_packet cfg command st =
     do { (_, ring) \<leftarrow> ringbuffer_put (PACKET_RINGBUFFER_SIZE cfg) command (ph_packets st);
          Some (st\<lparr> ph_packets := ring \<rparr>) }"

text \<open>Reading the packet memory: a byte, and a little-endian integer of \<open>n\<close> bytes.\<close>

definition rd8 :: "u8 list \<Rightarrow> nat \<Rightarrow> u8 option" where
  "rd8 mem i = aget mem (int i)"

definition rd :: "nat \<Rightarrow> u8 list \<Rightarrow> nat \<Rightarrow> 'a::len word option" where
  "rd n mem i = (if i + n \<le> length mem then Some (of_le_bytes (take n (drop i mem))) else None)"

definition TH_FIN :: u8 where "TH_FIN = 1"
definition TH_SYN :: u8 where "TH_SYN = 2"

text \<open>\<open>tcpHeader->th_flags\<close>; \<open>None\<close> as the header is the null pointer.\<close>

definition th_flags :: "u8 list \<Rightarrow> nat option \<Rightarrow> u8 option" where
  "th_flags mem tcpHeader = do { h \<leftarrow> tcpHeader; rd8 mem (h + 13) }"

definition process_new :: "config \<Rightarrow> bool \<Rightarrow> int \<Rightarrow> five_tuple_t \<Rightarrow> packet_state \<Rightarrow> packet_state option" where
  "process_new cfg dnsdb now ft st =
     do { (b, st) \<leftarrow> heuristic cfg dnsdb now ft st;
          if b then do {
            st \<leftarrow> put_packet cfg (PKT_ADD_FLOW ft) st;
            if l4_proto (ft_h ft) = L4_UDP then put_packet cfg (PKT_FIX_BLOOM_FILTER_RELEVANT ft) st
            else Some st }
          else if l4_proto (ft_h ft) = L4_UDP then put_packet cfg (PKT_ADD_BLOOM_FILTER_IRRELEVANT ft) st
          else Some st }"

definition process_packet ::
  "config \<Rightarrow> bool \<Rightarrow> int \<Rightarrow> u8 list \<Rightarrow> five_tuple_t \<Rightarrow> nat option \<Rightarrow> packet_state \<Rightarrow> packet_state option" where
  "process_packet cfg dnsdb now mem ft tcpHeader st =
     (if l4_proto (ft_h ft) = L4_TCP then do {
        flags \<leftarrow> th_flags mem tcpHeader;
        known \<leftarrow> (if flags AND TH_SYN \<noteq> 0 then is_known cfg ft st else Some False);
        if known then Some st
        else if flags AND TH_FIN \<noteq> 0 then put_packet cfg (PKT_REMOVE_FLOW ft) st
        else process_new cfg dnsdb now ft st }
      else process_new cfg dnsdb now ft st)"

subsection \<open>Parsing\<close>

text \<open>
  \<open>EXTRACT\<close> ends the handler when the header does not fit: the rest of the function is its last
  argument, which receives the offset after the header. \<open>Returned\<close> marks the early returns.
\<close>

datatype 'a parsed = Returned | Parsed 'a

definition EXTRACT :: "nat \<Rightarrow> nat \<Rightarrow> nat \<Rightarrow> (nat \<Rightarrow> 'a parsed option) \<Rightarrow> 'a parsed option" where
  "EXTRACT caplen curSize n k = (if curSize + n > caplen then Some Returned else k (curSize + n))"

definition ETHERTYPE_IPV4_BE :: u16 where "ETHERTYPE_IPV4_BE = 0x0008"
definition ETHERTYPE_IPV6_BE :: u16 where "ETHERTYPE_IPV6_BE = 0xdd86"
definition IPPROTO_TCP :: u8 where "IPPROTO_TCP = 6"
definition IPPROTO_UDP :: u8 where "IPPROTO_UDP = 17"
definition MAX_DNS_PKT_LEN :: nat where "MAX_DNS_PKT_LEN = 2048"
definition NS_HFIXEDSZ :: nat where "NS_HFIXEDSZ = 12"

definition ETH_TO_TS :: "u8 list \<Rightarrow> nat \<Rightarrow> u64 option" where
  "ETH_TO_TS mem i =
     do { b0 \<leftarrow> rd8 mem i; b1 \<leftarrow> rd8 mem (i + 1); b2 \<leftarrow> rd8 mem (i + 2);
          b3 \<leftarrow> rd8 mem (i + 3); b4 \<leftarrow> rd8 mem (i + 4); b5 \<leftarrow> rd8 mem (i + 5);
          Some (push_bit 40 (ucast b0) OR push_bit 32 (ucast b1) OR push_bit 24 (ucast b2)
            OR push_bit 16 (ucast b3) OR push_bit 8 (ucast b4) OR ucast b5) }"

text \<open>The Ethernet header (14 bytes), with the type field and the offset behind it.\<close>

definition parse_ether :: "nat \<Rightarrow> u8 list \<Rightarrow> int \<Rightarrow> (five_tuple_t \<times> u16 \<times> nat) parsed option" where
  "parse_ether caplen mem off =
     EXTRACT caplen 0 14 (\<lambda>cur. do {
       port \<leftarrow> rd 2 mem 10;
       ts \<leftarrow> ETH_TO_TS mem 0;
       ether_type \<leftarrow> rd 2 mem 12;
       Some (Parsed (zero_five_tuple\<lparr> session_id_egress_offset := off,
         dev_port := bswap_16 port, ingress_ts := ts \<rparr>, ether_type, cur)) })"

text \<open>The switch over the Ethernet type: \<open>struct iphdr\<close> (20 bytes) or \<open>struct ip6_hdr\<close> (40 bytes).\<close>

definition parse_l3 :: "nat \<Rightarrow> u8 list \<Rightarrow> five_tuple_t \<Rightarrow> u16 \<Rightarrow> nat \<Rightarrow> (five_tuple_t \<times> u8 \<times> nat) parsed option" where
  "parse_l3 caplen mem ft ether_type curSize =
     (if ether_type = ETHERTYPE_IPV4_BE then
        EXTRACT caplen curSize 20 (\<lambda>cur. do {
          daddr \<leftarrow> rd 4 mem (curSize + 16);
          saddr \<leftarrow> rd 4 mem (curSize + 12);
          protocol \<leftarrow> rd8 mem (curSize + 9);
          Some (Parsed (ft\<lparr> ft_h := (ft_h ft)\<lparr> l3_proto := L3_IPV4, dst_addr := set_ipv4 daddr (dst_addr (ft_h ft)),
            src_addr := set_ipv4 saddr (src_addr (ft_h ft)) \<rparr> \<rparr>, protocol, cur)) })
      else if ether_type = ETHERTYPE_IPV6_BE then
        EXTRACT caplen curSize 40 (\<lambda>cur. do {
          ip6_dst \<leftarrow> rd 16 mem (curSize + 24);
          ip6_src \<leftarrow> rd 16 mem (curSize + 8);
          ip6_nxt \<leftarrow> rd8 mem (curSize + 6);
          Some (Parsed (ft\<lparr> ft_h := (ft_h ft)\<lparr> l3_proto := L3_IPV6, dst_addr := ip6_dst, src_addr := ip6_src \<rparr> \<rparr>,
            ip6_nxt, cur)) })
      else Some Returned)"

text \<open>
  The switch over the protocol: \<open>struct tcphdr\<close> (20 bytes) or \<open>struct udphdr\<close> (8 bytes). The
  result has the header pointers of both protocols.
\<close>

definition parse_l4 :: "nat \<Rightarrow> u8 list \<Rightarrow> five_tuple_t \<Rightarrow> u8 \<Rightarrow> nat \<Rightarrow>
    (five_tuple_t \<times> nat option \<times> nat option \<times> nat) parsed option" where
  "parse_l4 caplen mem ft l4Proto curSize =
     (if l4Proto = IPPROTO_TCP then
        EXTRACT caplen curSize 20 (\<lambda>cur. do {
          dest \<leftarrow> rd 2 mem (curSize + 2);
          source \<leftarrow> rd 2 mem curSize;
          Some (Parsed (ft\<lparr> ft_h := (ft_h ft)\<lparr> dst_port := bswap_16 dest, src_port := bswap_16 source,
            l4_proto := L4_TCP \<rparr> \<rparr>, Some curSize, None, cur)) })
      else if l4Proto = IPPROTO_UDP then
        EXTRACT caplen curSize 8 (\<lambda>cur. do {
          dest \<leftarrow> rd 2 mem (curSize + 2);
          source \<leftarrow> rd 2 mem curSize;
          Some (Parsed (ft\<lparr> ft_h := (ft_h ft)\<lparr> dst_port := bswap_16 dest, src_port := bswap_16 source,
            l4_proto := L4_UDP \<rparr> \<rparr>, None, Some curSize, cur)) })
      else Some Returned)"

definition parse_headers :: "nat \<Rightarrow> u8 list \<Rightarrow> int \<Rightarrow>
    (five_tuple_t \<times> u8 \<times> nat option \<times> nat option \<times> nat) parsed option" where
  "parse_headers caplen mem off =
     do { p \<leftarrow> parse_ether caplen mem off;
          case p of Returned \<Rightarrow> Some Returned | Parsed (ft, ether_type, curSize) \<Rightarrow> do {
            p \<leftarrow> parse_l3 caplen mem ft ether_type curSize;
            case p of Returned \<Rightarrow> Some Returned | Parsed (ft, l4Proto, curSize) \<Rightarrow> do {
              p \<leftarrow> parse_l4 caplen mem ft l4Proto curSize;
              case p of Returned \<Rightarrow> Some Returned
              | Parsed (ft, tcpHeader, udpHeader, curSize) \<Rightarrow>
                  Some (Parsed (ft, l4Proto, tcpHeader, udpHeader, curSize)) } } }"

text \<open>The branch for DNS replies: the copy has to stay inside source and destination.\<close>

definition put_dns_packet :: "config \<Rightarrow> nat \<Rightarrow> u8 list \<Rightarrow> nat \<Rightarrow> packet_state \<Rightarrow> packet_state option" where
  "put_dns_packet cfg caplen mem curSize st =
     (let len = max (caplen - curSize) MAX_DNS_PKT_LEN in
      if len < NS_HFIXEDSZ then Some st
      else if curSize + len \<le> length mem \<and> len \<le> MAX_DNS_PKT_LEN then do {
        (_, ring) \<leftarrow> ringbuffer_put (DNS_RINGBUFFER_SIZE cfg) (DNS_ADD_PKT (take len (drop curSize mem)) (int len)) (ph_replies st);
        Some (st\<lparr> ph_replies := ring \<rparr>) }
      else None)"

definition packet_handler :: "config \<Rightarrow> bool \<Rightarrow> int \<Rightarrow> nat \<Rightarrow> u8 list \<Rightarrow> int \<Rightarrow> packet_state \<Rightarrow> packet_state option" where
  "packet_handler cfg dnsdb now caplen mem off st =
     do { let st = st\<lparr> packet_handler_stat := packet_handler_stat st + 1 \<rparr>;
          p \<leftarrow> parse_headers caplen mem off;
          case p of Returned \<Rightarrow> Some st
          | Parsed (ft, l4Proto, tcpHeader, udpHeader, curSize) \<Rightarrow> do {
              reply \<leftarrow> (if l4Proto = IPPROTO_UDP
                then do { h \<leftarrow> udpHeader; source \<leftarrow> rd 2 mem h; Some ((source :: u16) = 53) }
                else Some False);
              if reply then put_dns_packet cfg caplen mem curSize st
              else do {
                ft \<leftarrow> setup_session_hash cfg dnsdb ft st;
                process_packet cfg dnsdb now mem ft tcpHeader st } } }"

section \<open>Reading encoded headers\<close>

lemma bit_of_le_bytes:
  "bit (of_le_bytes bs :: 'a::len word) k \<longleftrightarrow>
     k < LENGTH('a) \<and> k div 8 < length bs \<and> bit (bs ! (k div 8)) (k mod 8)"
proof (induction bs arbitrary: k)
  case Nil
  then show ?case by simp
next
  case (Cons b bs)
  show ?case
  proof (cases "k < 8")
    case True
    then have k: "(b # bs) ! (k div 8) = b" "k mod 8 = k" "k div 8 < length (b # bs)" "\<not> 8 \<le> k"
      by simp_all
    show ?thesis unfolding k(1,2) of_le_bytes.simps bit_or_iff bit_push_bit_iff bit_unsigned_iff
      possible_bit_word using k(3,4) by blast
  next
    case False
    then obtain j where k: "k = 8 + j" using le_Suc_ex [of 8 k] by auto
    moreover have "(8 + j) div 8 = Suc (j div 8)" by simp
    moreover have "\<not> bit b (8 + j)" using bit_imp_le_length [of b "8 + j"] by auto
    ultimately show ?thesis using Cons.IH [of j]
      by (auto simp: bit_or_iff bit_push_bit_iff bit_unsigned_iff)
  qed
qed

lemma of_le_bytes_le_bytes [simp]:
  "LENGTH('a::len) \<le> 8 * n \<Longrightarrow> of_le_bytes (le_bytes n (w :: 'a word)) = w"
  by (rule bit_word_eqI) (auto simp: bit_of_le_bytes le_bytes_def bit_byte_of)

definition be_bytes :: "nat \<Rightarrow> 'a::len word \<Rightarrow> u8 list" where
  "be_bytes n w = rev (le_bytes n w)"

lemma length_be_bytes [simp]: "length (be_bytes n w) = n"
  by (simp add: be_bytes_def)

lemma bswap_16_bswap_16 [simp]: "bswap_16 (bswap_16 w) = w"
  by (rule bit_word_eqI) (auto simp: bswap_16_def bit_simps)

lemma bswap_53: "bswap_16 53 = 0x3500" "bswap_16 0x3500 = 53"
  by (simp_all add: bswap_16_def push_bit_eq_mult drop_bit_eq_div)

lemma le_bytes_2: "le_bytes 2 (w :: u16) = [byte_of 0 w, byte_of 1 w]"
  by (simp add: le_bytes_def numeral_2_eq_2)

lemma be_bytes_2: "be_bytes 2 w = le_bytes 2 (bswap_16 w)"
proof -
  have "byte_of 0 (bswap_16 w) = byte_of 1 w" "byte_of 1 (bswap_16 w) = byte_of 0 w"
    by (rule bit_word_eqI, auto simp: bit_byte_of bswap_16_def bit_simps dest: bit_imp_le_length)+
  then show ?thesis by (simp add: be_bytes_def le_bytes_2)
qed

lemma rd_append:
  "length xs = i \<Longrightarrow> LENGTH('a) \<le> 8 * n \<Longrightarrow> rd n (xs @ le_bytes n (w :: 'a::len word) @ ys) i = Some w"
  by (simp add: rd_def)

lemma ETH_TO_TS_be: "ETH_TO_TS (be_bytes 6 (ts :: u64) @ ys) 0 = Some (take_bit 48 ts)"
proof -
  have b: "be_bytes 6 ts = [byte_of 5 ts, byte_of 4 ts, byte_of 3 ts, byte_of 2 ts, byte_of 1 ts, byte_of 0 ts]"
    by (simp add: be_bytes_def le_bytes_def upt_rec numeral_eq_Suc)
  have "push_bit 40 (ucast (byte_of 5 ts)) OR push_bit 32 (ucast (byte_of 4 ts)) OR push_bit 24 (ucast (byte_of 3 ts))
      OR push_bit 16 (ucast (byte_of 2 ts)) OR push_bit 8 (ucast (byte_of 1 ts)) OR ucast (byte_of 0 ts)
      = take_bit 48 ts" (is "?w = _")
  proof (rule bit_word_eqI)
    fix k :: nat
    assume "k < LENGTH(64)"
    then consider "k < 8" | "8 \<le> k \<and> k < 16" | "16 \<le> k \<and> k < 24" | "24 \<le> k \<and> k < 32" | "32 \<le> k \<and> k < 40"
      | "40 \<le> k \<and> k < 48" | "48 \<le> k" by linarith
    then show "bit ?w k = bit (take_bit 48 ts) k"
      by cases (auto simp: bit_simps bit_byte_of)
  qed
  then show ?thesis by (simp add: ETH_TO_TS_def rd8_def b aget_def)
qed

lemma rd8_nth [simp]: "rd8 mem i = (if i < length mem then Some (mem ! i) else None)"
  by (simp add: rd8_def)

section \<open>Frames\<close>

text \<open>
  The layout of the frames on the wire, for the headers the handler knows: the data plane writes the
  48 bit timestamp and the ingress port into the Ethernet header, big-endian; addresses
  are the words a little-endian host reads; ports are big-endian. The byte lists are the fields the
  handler does not look at.
\<close>

datatype l3_header = IP4_Header "u8 list" "u8 list" u32 u32 | IP6_Header "u8 list" u8 address_t address_t
datatype l4_header = TCP_Header port_t port_t "u8 list" u8 "u8 list" | UDP_Header port_t port_t "u8 list"

fun l3_ok :: "l3_header \<Rightarrow> bool" where
  "l3_ok (IP4_Header a b saddr daddr) \<longleftrightarrow> length a = 9 \<and> length b = 2"
| "l3_ok (IP6_Header a b saddr daddr) \<longleftrightarrow> length a = 6"

fun l4_ok :: "l4_header \<Rightarrow> bool" where
  "l4_ok (TCP_Header sp dp a flags b) \<longleftrightarrow> length a = 9 \<and> length b = 6"
| "l4_ok (UDP_Header sp dp a) \<longleftrightarrow> length a = 4"

definition ether_bytes :: "u64 \<Rightarrow> u8 list \<Rightarrow> u16 \<Rightarrow> u16 \<Rightarrow> u8 list" where
  "ether_bytes ts pad port ether_type = be_bytes 6 ts @ pad @ be_bytes 2 port @ le_bytes 2 ether_type"

fun l3_type :: "l3_header \<Rightarrow> u16" where
  "l3_type (IP4_Header a b saddr daddr) = ETHERTYPE_IPV4_BE"
| "l3_type (IP6_Header a b saddr daddr) = ETHERTYPE_IPV6_BE"

fun l4_number :: "l4_header \<Rightarrow> u8" where
  "l4_number (TCP_Header sp dp a flags b) = IPPROTO_TCP"
| "l4_number (UDP_Header sp dp a) = IPPROTO_UDP"

fun l3_bytes :: "u8 \<Rightarrow> l3_header \<Rightarrow> u8 list" where
  "l3_bytes proto (IP4_Header a b saddr daddr) = a @ [proto] @ b @ le_bytes 4 saddr @ le_bytes 4 daddr"
| "l3_bytes proto (IP6_Header a b saddr daddr) = a @ [proto, b] @ le_bytes 16 saddr @ le_bytes 16 daddr"

fun l4_bytes :: "l4_header \<Rightarrow> u8 list" where
  "l4_bytes (TCP_Header sp dp a flags b) = be_bytes 2 sp @ be_bytes 2 dp @ a @ [flags] @ b"
| "l4_bytes (UDP_Header sp dp a) = be_bytes 2 sp @ be_bytes 2 dp @ a"

fun l3_set :: "l3_header \<Rightarrow> five_tuple_for_hash_t \<Rightarrow> five_tuple_for_hash_t" where
  "l3_set (IP4_Header a b saddr daddr) h =
     h\<lparr> l3_proto := L3_IPV4, src_addr := set_ipv4 saddr 0, dst_addr := set_ipv4 daddr 0 \<rparr>"
| "l3_set (IP6_Header a b saddr daddr) h = h\<lparr> l3_proto := L3_IPV6, src_addr := saddr, dst_addr := daddr \<rparr>"

fun l4_set :: "l4_header \<Rightarrow> five_tuple_for_hash_t \<Rightarrow> five_tuple_for_hash_t" where
  "l4_set (TCP_Header sp dp a flags b) h = h\<lparr> l4_proto := L4_TCP, src_port := sp, dst_port := dp \<rparr>"
| "l4_set (UDP_Header sp dp a) h = h\<lparr> l4_proto := L4_UDP, src_port := sp, dst_port := dp \<rparr>"

fun is_tcp :: "l4_header \<Rightarrow> bool" where
  "is_tcp (TCP_Header sp dp a flags b) = True"
| "is_tcp (UDP_Header sp dp a) = False"

definition frame :: "u64 \<Rightarrow> u8 list \<Rightarrow> u16 \<Rightarrow> l3_header \<Rightarrow> l4_header \<Rightarrow> u8 list" where
  "frame ts pad port l3 l4 = ether_bytes ts pad port (l3_type l3) @ l3_bytes (l4_number l4) l3 @ l4_bytes l4"

definition frame_tuple :: "u64 \<Rightarrow> u16 \<Rightarrow> int \<Rightarrow> l3_header \<Rightarrow> l4_header \<Rightarrow> five_tuple_t" where
  "frame_tuple ts port off l3 l4 = zero_five_tuple\<lparr> session_id_egress_offset := off, dev_port := port,
     ingress_ts := take_bit 48 ts, ft_h := l4_set l4 (l3_set l3 (ft_h zero_five_tuple)) \<rparr>"

definition l4_offset :: "l3_header \<Rightarrow> nat" where
  "l4_offset l3 = (case l3 of IP4_Header _ _ _ _ \<Rightarrow> 34 | IP6_Header _ _ _ _ \<Rightarrow> 54)"

lemma parse_ether_frame:
  assumes "length pad = 4" "14 \<le> caplen"
  shows "parse_ether caplen (ether_bytes ts pad port t @ ys) off =
    Some (Parsed (zero_five_tuple\<lparr> session_id_egress_offset := off, dev_port := port, ingress_ts := take_bit 48 ts \<rparr>, t, 14))"
  using assms ETH_TO_TS_be [of ts "pad @ le_bytes 2 (bswap_16 port) @ le_bytes 2 t @ ys"]
  by (simp add: parse_ether_def EXTRACT_def ether_bytes_def be_bytes_2 rd_def)

lemma parse_l3_frame:
  assumes "l3_ok l3" "length xs = n" "n + length (l3_bytes proto l3) \<le> caplen" "ft_h ft = ft_h zero_five_tuple"
  shows "parse_l3 caplen (xs @ l3_bytes proto l3 @ ys) ft (l3_type l3) n =
    Some (Parsed (ft\<lparr> ft_h := l3_set l3 (ft_h ft) \<rparr>, proto, n + length (l3_bytes proto l3)))"
proof (cases l3)
  case (IP4_Header a b saddr daddr)
  with assms show ?thesis
    by (simp add: parse_l3_def EXTRACT_def rd_def nth_append zero_five_tuple_def)
next
  case (IP6_Header a b saddr daddr)
  with assms show ?thesis
    by (simp add: parse_l3_def EXTRACT_def rd_def nth_append ETHERTYPE_IPV4_BE_def ETHERTYPE_IPV6_BE_def)
qed

lemma parse_l4_frame:
  assumes "l4_ok l4" "length xs = n" "n + length (l4_bytes l4) \<le> caplen"
  shows "parse_l4 caplen (xs @ l4_bytes l4 @ ys) ft (l4_number l4) n =
    Some (Parsed (ft\<lparr> ft_h := l4_set l4 (ft_h ft) \<rparr>, if is_tcp l4 then Some n else None,
      if is_tcp l4 then None else Some n, n + length (l4_bytes l4)))"
proof (cases l4)
  case (TCP_Header sp dp a flags b)
  with assms show ?thesis
    by (simp add: parse_l4_def EXTRACT_def rd_def be_bytes_2)
next
  case (UDP_Header sp dp a)
  with assms show ?thesis
    by (simp add: parse_l4_def EXTRACT_def rd_def be_bytes_2 IPPROTO_UDP_def IPPROTO_TCP_def)
qed

lemma parse_frame:
  assumes "l3_ok l3" "l4_ok l4" "length pad = 4" "length (frame ts pad port l3 l4) \<le> caplen"
  shows "parse_headers caplen (frame ts pad port l3 l4 @ ys) off =
    Some (Parsed (frame_tuple ts port off l3 l4, l4_number l4,
      if is_tcp l4 then Some (l4_offset l3) else None, if is_tcp l4 then None else Some (l4_offset l3),
      length (frame ts pad port l3 l4)))"
proof -
  let ?e = "ether_bytes ts pad port (l3_type l3)" and ?p = "l4_number l4"
  let ?ft = "zero_five_tuple\<lparr> session_id_egress_offset := off, dev_port := port, ingress_ts := take_bit 48 ts \<rparr>"
  have e: "length ?e = 14" using assms(3) by (simp add: ether_bytes_def)
  have n: "14 + length (l3_bytes ?p l3) = l4_offset l3"
    using assms(1) by (cases l3) (simp_all add: l4_offset_def)
  have f: "length (frame ts pad port l3 l4) = 14 + length (l3_bytes ?p l3) + length (l4_bytes l4)"
    by (simp add: frame_def e)
  have 1: "parse_ether caplen (frame ts pad port l3 l4 @ ys) off = Some (Parsed (?ft, l3_type l3, 14))"
    using parse_ether_frame [OF assms(3)] assms(4) f by (simp add: frame_def)
  have 2: "parse_l3 caplen (frame ts pad port l3 l4 @ ys) ?ft (l3_type l3) 14 =
      Some (Parsed (?ft\<lparr> ft_h := l3_set l3 (ft_h ?ft) \<rparr>, ?p, l4_offset l3))"
    using parse_l3_frame [OF assms(1) e, of ?p caplen ?ft "l4_bytes l4 @ ys"] assms(4) f n by (simp add: frame_def)
  have 3: "parse_l4 caplen (frame ts pad port l3 l4 @ ys) (?ft\<lparr> ft_h := l3_set l3 (ft_h ?ft) \<rparr>) ?p (l4_offset l3) =
      Some (Parsed (frame_tuple ts port off l3 l4, if is_tcp l4 then Some (l4_offset l3) else None,
        if is_tcp l4 then None else Some (l4_offset l3), length (frame ts pad port l3 l4)))"
    using parse_l4_frame [OF assms(2), of "?e @ l3_bytes ?p l3" "l4_offset l3" caplen ys] assms(4) e f n
    by (simp add: frame_def frame_tuple_def)
  show ?thesis using 1 2 3 by (cases "is_tcp l4") (simp_all add: parse_headers_def)
qed

text \<open>Whatever the bytes are, the parser stays within the captured ones.\<close>

fun headers_ok :: "nat \<Rightarrow> (five_tuple_t \<times> u8 \<times> nat option \<times> nat option \<times> nat) parsed \<Rightarrow> bool" where
  "headers_ok caplen Returned \<longleftrightarrow> True"
| "headers_ok caplen (Parsed (ft, l4Proto, tcpHeader, udpHeader, curSize)) \<longleftrightarrow> curSize \<le> caplen \<and>
     l3_proto (ft_h ft) \<in> {L3_IPV4, L3_IPV6} \<and> ft_sh ft = ft_sh zero_five_tuple \<and>
     (l4Proto = IPPROTO_TCP \<and> l4_proto (ft_h ft) = L4_TCP \<and> tcpHeader = Some (curSize - 20) \<and> 54 \<le> curSize \<or>
      l4Proto = IPPROTO_UDP \<and> l4_proto (ft_h ft) = L4_UDP \<and> udpHeader = Some (curSize - 8) \<and> 42 \<le> curSize)"

lemma parse_headers_total:
  assumes "caplen \<le> length mem"
  shows "\<exists>p. parse_headers caplen mem off = Some p \<and> headers_ok caplen p"
proof -
  have e: "\<exists>p. parse_ether caplen mem off = Some p \<and> (case p of Returned \<Rightarrow> True
      | Parsed (ft, t, cur) \<Rightarrow> cur = 14 \<and> ft_sh ft = ft_sh zero_five_tuple)"
    using assms by (auto simp: parse_ether_def EXTRACT_def ETH_TO_TS_def rd_def)
  have l3: "\<exists>p. parse_l3 caplen mem ft t 14 = Some p \<and> (case p of Returned \<Rightarrow> True
      | Parsed (ft', l4Proto, cur) \<Rightarrow> 34 \<le> cur \<and> l3_proto (ft_h ft') \<in> {L3_IPV4, L3_IPV6} \<and> ft_sh ft' = ft_sh ft)" for ft t
    using assms by (auto simp: parse_l3_def EXTRACT_def rd_def)
  have l4: "\<exists>p. parse_l4 caplen mem ft l4Proto cur = Some p \<and> (case p of Returned \<Rightarrow> True
      | Parsed (ft', tcp, udp, cur') \<Rightarrow> ft_sh ft' = ft_sh ft \<and> l3_proto (ft_h ft') = l3_proto (ft_h ft) \<and>
          cur' \<le> caplen \<and> cur \<le> cur' \<and>
          (l4Proto = IPPROTO_TCP \<and> l4_proto (ft_h ft') = L4_TCP \<and> tcp = Some cur \<and> cur' = cur + 20 \<or>
           l4Proto = IPPROTO_UDP \<and> l4_proto (ft_h ft') = L4_UDP \<and> udp = Some cur \<and> cur' = cur + 8))" for ft l4Proto cur
    using assms by (auto simp: parse_l4_def EXTRACT_def rd_def)
  obtain p where p: "parse_ether caplen mem off = Some p" "case p of Returned \<Rightarrow> True
      | Parsed (ft, t, cur) \<Rightarrow> cur = 14 \<and> ft_sh ft = ft_sh zero_five_tuple" using e by blast
  show ?thesis
  proof (cases p)
    case Returned
    with p show ?thesis by (simp add: parse_headers_def)
  next
    case (Parsed x)
    with p obtain ft t where x: "p = Parsed (ft, t, 14)" "ft_sh ft = ft_sh zero_five_tuple" by (cases x) auto
    obtain q where q: "parse_l3 caplen mem ft t 14 = Some q" "case q of Returned \<Rightarrow> True
      | Parsed (ft', l4Proto, cur) \<Rightarrow> 34 \<le> cur \<and> l3_proto (ft_h ft') \<in> {L3_IPV4, L3_IPV6} \<and> ft_sh ft' = ft_sh ft"
      using l3 by blast
    show ?thesis
    proof (cases q)
      case Returned
      with p x q show ?thesis by (simp add: parse_headers_def)
    next
      case (Parsed y)
      then obtain ft' l4Proto cur where y: "q = Parsed (ft', l4Proto, cur)" by (cases y) auto
      from l4 [of ft' l4Proto cur] obtain r where
        r: "parse_l4 caplen mem ft' l4Proto cur = Some r" "case r of Returned \<Rightarrow> True
          | Parsed (ft'', tcp, udp, cur') \<Rightarrow> ft_sh ft'' = ft_sh ft' \<and> l3_proto (ft_h ft'') = l3_proto (ft_h ft') \<and>
              cur' \<le> caplen \<and> cur \<le> cur' \<and>
              (l4Proto = IPPROTO_TCP \<and> l4_proto (ft_h ft'') = L4_TCP \<and> tcp = Some cur \<and> cur' = cur + 20 \<or>
               l4Proto = IPPROTO_UDP \<and> l4_proto (ft_h ft'') = L4_UDP \<and> udp = Some cur \<and> cur' = cur + 8)"
        by blast
      have "parse_headers caplen mem off = Some (case r of Returned \<Rightarrow> Returned
          | Parsed (ft, tcpHeader, udpHeader, curSize) \<Rightarrow> Parsed (ft, l4Proto, tcpHeader, udpHeader, curSize))"
        using p(1) x(1) q(1) y r(1) by (simp add: parse_headers_def split: parsed.splits prod.splits)
      with r(2) q(2) x(2) y show ?thesis by (auto split: parsed.splits prod.splits)
    qed
  qed
qed

section \<open>What a packet causes\<close>

text \<open>
  The classification as a function of the contents of the two tables: an address is live when it
  is in the DNS table with a time-out that is not over, stale when it is there and timed out.
\<close>

type_synonym dns_view = "dns_hashtable_key_t \<Rightarrow> int option"

definition live :: "dns_view \<Rightarrow> int \<Rightarrow> dns_hashtable_key_t \<Rightarrow> bool" where
  "live m now k = (case m k of None \<Rightarrow> False | Some t \<Rightarrow> now \<le> t)"

definition stale :: "dns_view \<Rightarrow> int \<Rightarrow> dns_hashtable_key_t \<Rightarrow> bool" where
  "stale m now k = (case m k of None \<Rightarrow> False | Some t \<Rightarrow> t < now)"

definition src_dns_key :: "five_tuple_t \<Rightarrow> dns_hashtable_key_t" where
  "src_dns_key ft = toDnsHashtableKey (src_addr (ft_h ft)) (l3_proto (ft_h ft))"

definition dst_dns_key :: "five_tuple_t \<Rightarrow> dns_hashtable_key_t" where
  "dst_dns_key ft = toDnsHashtableKey (dst_addr (ft_h ft)) (l3_proto (ft_h ft))"

definition relevant :: "bool \<Rightarrow> dns_view \<Rightarrow> int \<Rightarrow> five_tuple_t \<Rightarrow> bool" where
  "relevant dnsdb m now ft \<longleftrightarrow> live m now (src_dns_key ft) \<or> live m now (dst_dns_key ft) \<or> \<not> dnsdb"

definition removals :: "dns_view \<Rightarrow> int \<Rightarrow> five_tuple_t \<Rightarrow> dns_item_t list" where
  "removals m now ft = (if live m now (src_dns_key ft) then []
     else map DNS_REMOVE_IP (filter (stale m now) [src_dns_key ft, dst_dns_key ft]))"

definition session_side :: "bool \<Rightarrow> dns_view \<Rightarrow> five_tuple_t \<Rightarrow> five_tuple_t" where
  "session_side dnsdb m ft =
     (if dnsdb \<longrightarrow> m (src_dns_key ft) \<noteq> None
      then ft\<lparr> ft_sh := \<lparr> client_addr = dst_addr (ft_h ft), to_server = False \<rparr> \<rparr>
      else if m (dst_dns_key ft) \<noteq> None
      then ft\<lparr> ft_sh := \<lparr> client_addr = src_addr (ft_h ft), to_server = True \<rparr> \<rparr>
      else ft)"

definition new_commands :: "bool \<Rightarrow> dns_view \<Rightarrow> int \<Rightarrow> five_tuple_t \<Rightarrow> packet_item_t list" where
  "new_commands dnsdb m now ft =
     (if relevant dnsdb m now ft
      then PKT_ADD_FLOW ft # (if l4_proto (ft_h ft) = L4_UDP then [PKT_FIX_BLOOM_FILTER_RELEVANT ft] else [])
      else if l4_proto (ft_h ft) = L4_UDP then [PKT_ADD_BLOOM_FILTER_IRRELEVANT ft] else [])"

datatype verdict = Ignore | Finish | Classify

definition packet_verdict :: "bool \<Rightarrow> five_tuple_t \<Rightarrow> u8 \<Rightarrow> verdict" where
  "packet_verdict known ft flags =
     (if l4_proto (ft_h ft) \<noteq> L4_TCP then Classify
      else if flags AND TH_SYN \<noteq> 0 \<and> known then Ignore
      else if flags AND TH_FIN \<noteq> 0 then Finish else Classify)"

text \<open>
  \<open>ph_inv\<close>: the tables and the rings are well-formed. \<open>ph_ok\<close> adds that the DNS table has a free slot, on which every lookup of an address that is not in it
  relies: the code does not ensure it.
\<close>

definition ph_inv :: "config \<Rightarrow> packet_state \<Rightarrow> bool" where
  [inv_defs]: "ph_inv cfg st \<longleftrightarrow> flow_table_inv cfg (ph_flows st) \<and> dns_table_inv cfg (ph_dns st) \<and>
     rb_inv (PACKET_RINGBUFFER_SIZE cfg) (ph_packets st) \<and> rb_inv (DNS_RINGBUFFER_SIZE cfg) (ph_replies st)"

definition ph_ok :: "config \<Rightarrow> packet_state \<Rightarrow> bool" where
  [inv_defs]: "ph_ok cfg st \<longleftrightarrow> ph_inv cfg st \<and> card (dom (dns_map (ph_dns st))) < DNS_HASHTABLE_SIZE cfg"

lemma ph_okD:
  assumes "ph_ok cfg st"
  shows "flow_table_inv cfg (ph_flows st)" "dns_table_inv cfg (ph_dns st)"
    "card (dom (dns_map (ph_dns st))) < DNS_HASHTABLE_SIZE cfg"
    "rb_inv (PACKET_RINGBUFFER_SIZE cfg) (ph_packets st)" "rb_inv (DNS_RINGBUFFER_SIZE cfg) (ph_replies st)"
  using assms by (auto simp: ph_ok_def ph_inv_def)

lemma dns_get:
  assumes "ph_ok cfg st"
  shows "dns_hashtable_get cfg (ph_dns st) k v =
    (case dns_map (ph_dns st) k of None \<Rightarrow> Some (1, v) | Some t \<Rightarrow> Some (0, t))"
  using dns_get_hit [OF ph_okD(2) [OF assms]] dns_get_miss [OF ph_okD(2) [OF assms] _ ph_okD(3) [OF assms]]
  by (simp split: option.split)

lemma isInDnsHashtable_eq:
  "ph_ok cfg st \<Longrightarrow> isInDnsHashtable cfg dnsdb a proto st =
     Some (dnsdb \<longrightarrow> dns_map (ph_dns st) (toDnsHashtableKey a proto) \<noteq> None)"
  by (auto simp: isInDnsHashtable_def dns_get split: option.split)

lemma setup_session_hash_eq:
  "ph_ok cfg st \<Longrightarrow> setup_session_hash cfg dnsdb ft st = Some (session_side dnsdb (dns_map (ph_dns st)) ft)"
  by (simp add: setup_session_hash_def isInDnsHashtable_eq session_side_def src_dns_key_def dst_dns_key_def)

lemma is_known_eq:
  assumes "ph_ok cfg st"
  shows "is_known cfg ft st = Some (flow_map (ph_flows st) (ft_h ft) \<noteq> None)"
proof -
  note i = ph_okD(1) [OF assms]
  show ?thesis
    using flow_get_hit [OF i, of ft _ 0] flow_get_miss [OF i, of ft 0] flow.never_full [OF i]
    by (cases "flow_map (ph_flows st) (ft_h ft)") (simp_all add: is_known_def)
qed

lemma put_packet_ok:
  assumes "ph_ok cfg st"
  shows "\<exists>r. put_packet cfg c st = Some (st\<lparr> ph_packets := r \<rparr>) \<and> ph_ok cfg (st\<lparr> ph_packets := r \<rparr>) \<and>
    rb_items (PACKET_RINGBUFFER_SIZE cfg) r =
      q_accept (PACKET_RINGBUFFER_SIZE cfg) c (rb_items (PACKET_RINGBUFFER_SIZE cfg) (ph_packets st))"
  using ring.put_accept [OF ph_okD(4) [OF assms], of c] assms by (auto simp: put_packet_def ph_ok_def ph_inv_def)

lemma heuristic_address_ok:
  assumes "ph_ok cfg st"
  shows "\<exists>r. heuristic_address cfg now a proto st =
      Some (live (dns_map (ph_dns st)) now (toDnsHashtableKey a proto), st\<lparr> ph_replies := r \<rparr>) \<and>
    ph_ok cfg (st\<lparr> ph_replies := r \<rparr>) \<and>
    rb_items (DNS_RINGBUFFER_SIZE cfg) r = q_accept_all (DNS_RINGBUFFER_SIZE cfg)
      (map DNS_REMOVE_IP (filter (stale (dns_map (ph_dns st)) now) [toDnsHashtableKey a proto]))
      (rb_items (DNS_RINGBUFFER_SIZE cfg) (ph_replies st))"
proof (cases "stale (dns_map (ph_dns st)) now (toDnsHashtableKey a proto)")
  case True
  with ring.put_accept [OF ph_okD(5) [OF assms], of "DNS_REMOVE_IP (toDnsHashtableKey a proto)"] assms
  show ?thesis
    by (auto simp: heuristic_address_def dns_get live_def stale_def ph_ok_def ph_inv_def split: option.splits)
next
  case False
  with assms show ?thesis
    by (intro exI [of _ "ph_replies st"])
      (auto simp: heuristic_address_def dns_get live_def stale_def split: option.splits)
qed

lemma heuristic_ok:
  assumes "ph_ok cfg st"
  shows "\<exists>r. heuristic cfg dnsdb now ft st =
      Some (relevant dnsdb (dns_map (ph_dns st)) now ft, st\<lparr> ph_replies := r \<rparr>) \<and>
    ph_ok cfg (st\<lparr> ph_replies := r \<rparr>) \<and>
    rb_items (DNS_RINGBUFFER_SIZE cfg) r = q_accept_all (DNS_RINGBUFFER_SIZE cfg)
      (removals (dns_map (ph_dns st)) now ft) (rb_items (DNS_RINGBUFFER_SIZE cfg) (ph_replies st))"
proof -
  let ?m = "dns_map (ph_dns st)" and ?N = "DNS_RINGBUFFER_SIZE cfg"
  from heuristic_address_ok [OF assms, of now "src_addr (ft_h ft)" "l3_proto (ft_h ft)"] obtain r where
    r: "heuristic_address cfg now (src_addr (ft_h ft)) (l3_proto (ft_h ft)) st =
        Some (live ?m now (src_dns_key ft), st\<lparr> ph_replies := r \<rparr>)"
      "ph_ok cfg (st\<lparr> ph_replies := r \<rparr>)"
      "rb_items ?N r = q_accept_all ?N (map DNS_REMOVE_IP (filter (stale ?m now) [src_dns_key ft])) (rb_items ?N (ph_replies st))"
    unfolding src_dns_key_def by blast
  show ?thesis
  proof (cases "live ?m now (src_dns_key ft)")
    case True
    then have "\<not> stale ?m now (src_dns_key ft)" by (auto simp: live_def stale_def split: option.splits)
    with True r show ?thesis by (auto simp: heuristic_def relevant_def removals_def)
  next
    case False
    from heuristic_address_ok [OF r(2), of now "dst_addr (ft_h ft)" "l3_proto (ft_h ft)"] obtain r' where
      "heuristic_address cfg now (dst_addr (ft_h ft)) (l3_proto (ft_h ft)) (st\<lparr> ph_replies := r \<rparr>) =
        Some (live ?m now (dst_dns_key ft), st\<lparr> ph_replies := r' \<rparr>)"
      "ph_ok cfg (st\<lparr> ph_replies := r' \<rparr>)"
      "rb_items ?N r' = q_accept_all ?N (map DNS_REMOVE_IP (filter (stale ?m now) [dst_dns_key ft])) (rb_items ?N r)"
      unfolding dst_dns_key_def by auto
    with False r show ?thesis
      by (intro exI [of _ r']) (auto simp: heuristic_def relevant_def removals_def)
  qed
qed

text \<open>The commands of a parsed packet, for the two rings.\<close>

definition packet_commands :: "bool \<Rightarrow> dns_view \<Rightarrow> int \<Rightarrow> bool \<Rightarrow> five_tuple_t \<Rightarrow> u8 \<Rightarrow> packet_item_t list \<times> dns_item_t list" where
  "packet_commands dnsdb m now known ft flags =
     (case packet_verdict known ft flags of Ignore \<Rightarrow> ([], []) | Finish \<Rightarrow> ([PKT_REMOVE_FLOW ft], [])
      | Classify \<Rightarrow> (new_commands dnsdb m now ft, removals m now ft))"

text \<open>\<open>ph_effect cfg cs st st'\<close>: the commands \<open>cs\<close> went to the rings, as far as there was room, and nothing else changed.\<close>

definition ph_effect :: "config \<Rightarrow> packet_item_t list \<times> dns_item_t list \<Rightarrow> packet_state \<Rightarrow> packet_state \<Rightarrow> bool" where
  "ph_effect cfg cs st st' \<longleftrightarrow> ph_ok cfg st' \<and> ph_flows st' = ph_flows st \<and> ph_dns st' = ph_dns st \<and>
     rb_items (PACKET_RINGBUFFER_SIZE cfg) (ph_packets st') =
       q_accept_all (PACKET_RINGBUFFER_SIZE cfg) (fst cs) (rb_items (PACKET_RINGBUFFER_SIZE cfg) (ph_packets st)) \<and>
     rb_items (DNS_RINGBUFFER_SIZE cfg) (ph_replies st') =
       q_accept_all (DNS_RINGBUFFER_SIZE cfg) (snd cs) (rb_items (DNS_RINGBUFFER_SIZE cfg) (ph_replies st))"

lemma put_packet_effect:
  assumes "ph_effect cfg (ps, rs) st st1"
  shows "\<exists>st2. put_packet cfg c st1 = Some st2 \<and> ph_effect cfg (ps @ [c], rs) st st2"
  using put_packet_ok [of cfg st1 c] assms by (auto simp: ph_effect_def)

lemma process_new_effect:
  assumes "ph_ok cfg st"
  shows "\<exists>st'. process_new cfg dnsdb now ft st = Some st' \<and>
    ph_effect cfg (new_commands dnsdb (dns_map (ph_dns st)) now ft, removals (dns_map (ph_dns st)) now ft) st st'"
proof -
  let ?m = "dns_map (ph_dns st)" and ?put = "\<lambda>c. put_packet cfg (c ft)"
  from heuristic_ok [OF assms] obtain r where
    h: "heuristic cfg dnsdb now ft st = Some (relevant dnsdb ?m now ft, st\<lparr> ph_replies := r \<rparr>)"
    and e: "ph_effect cfg ([], removals ?m now ft) st (st\<lparr> ph_replies := r \<rparr>)"
    unfolding ph_effect_def by fastforce
  show ?thesis
  proof (cases "relevant dnsdb ?m now ft")
    case True
    from put_packet_effect [OF e, of "PKT_ADD_FLOW ft"] obtain st2 where
      st2: "?put PKT_ADD_FLOW (st\<lparr> ph_replies := r \<rparr>) = Some st2"
        "ph_effect cfg ([PKT_ADD_FLOW ft], removals ?m now ft) st st2" by auto
    with put_packet_effect [OF st2(2), of "PKT_FIX_BLOOM_FILTER_RELEVANT ft"] True h show ?thesis
      by (auto simp: process_new_def new_commands_def)
  next
    case False
    with put_packet_effect [OF e, of "PKT_ADD_BLOOM_FILTER_IRRELEVANT ft"] h e show ?thesis
      by (auto simp: process_new_def new_commands_def)
  qed
qed

lemma ph_effect_refl: "ph_ok cfg st \<Longrightarrow> ph_effect cfg ([], []) st st"
  by (simp add: ph_effect_def)

lemma process_packet_effect:
  assumes "ph_ok cfg st" "l4_proto (ft_h ft) = L4_TCP \<Longrightarrow> th_flags mem tcpHeader = Some flags"
  shows "\<exists>st'. process_packet cfg dnsdb now mem ft tcpHeader st = Some st' \<and>
    ph_effect cfg (packet_commands dnsdb (dns_map (ph_dns st)) now (flow_map (ph_flows st) (ft_h ft) \<noteq> None) ft flags) st st'"
  using process_new_effect [OF assms(1), of dnsdb now ft] ph_effect_refl [OF assms(1)] assms(2)
    put_packet_effect [OF ph_effect_refl [OF assms(1)], of "PKT_REMOVE_FLOW ft"] is_known_eq [OF assms(1)]
  by (auto simp: process_packet_def packet_commands_def packet_verdict_def)

definition taken_for_reply :: "u8 list \<Rightarrow> u8 \<Rightarrow> nat \<Rightarrow> bool" where
  "taken_for_reply mem l4Proto curSize \<longleftrightarrow> l4Proto = IPPROTO_UDP \<and> rd 2 mem (curSize - 8) = Some (53 :: u16)"

lemma ph_effect_stat [simp]:
  "ph_effect cfg cs (st\<lparr> packet_handler_stat := n \<rparr>) st' = ph_effect cfg cs st st'"
  "ph_ok cfg (st\<lparr> packet_handler_stat := n \<rparr>) = ph_ok cfg st"
  by (simp_all add: ph_effect_def ph_ok_def ph_inv_def)

lemma packet_handler_effect:
  assumes "ph_ok cfg st" "caplen \<le> length mem"
    and p: "parse_headers caplen mem off = Some (Parsed (ft, l4Proto, tcpHeader, udpHeader, curSize))"
    and n: "\<not> taken_for_reply mem l4Proto curSize"
    and f: "l4_proto (ft_h ft) = L4_TCP \<Longrightarrow> th_flags mem tcpHeader = Some flags"
  shows "\<exists>st'. packet_handler cfg dnsdb now caplen mem off st = Some st' \<and>
    ph_effect cfg (packet_commands dnsdb (dns_map (ph_dns st)) now (flow_map (ph_flows st) (ft_h ft) \<noteq> None)
      (session_side dnsdb (dns_map (ph_dns st)) ft) flags) st st'"
proof -
  let ?st = "st\<lparr> packet_handler_stat := packet_handler_stat st + 1 \<rparr>"
  let ?ft = "session_side dnsdb (dns_map (ph_dns st)) ft"
  from parse_headers_total [OF assms(2), of off] p have
    "headers_ok caplen (Parsed (ft, l4Proto, tcpHeader, udpHeader, curSize))" by auto
  then have h: "curSize \<le> caplen" "l4Proto = IPPROTO_UDP \<longrightarrow> udpHeader = Some (curSize - 8) \<and> 42 \<le> curSize"
    by (auto simp: IPPROTO_TCP_def IPPROTO_UDP_def)
  have k: "ft_h ?ft = ft_h ft" by (simp add: session_side_def)
  from h n assms(2) have r: "(if l4Proto = IPPROTO_UDP
      then do { h \<leftarrow> udpHeader; source \<leftarrow> rd 2 mem h; Some ((source :: u16) = 53) } else Some False) = Some False"
    by (auto simp: taken_for_reply_def rd_def)
  from process_packet_effect [of cfg ?st ?ft mem tcpHeader flags dnsdb now] assms(1) f k
  show ?thesis by (auto simp: packet_handler_def p r setup_session_hash_eq)
qed

section \<open>Properties\<close>

text \<open>
  C8. Parsing inverts the layout of the frames: from a frame whose headers are captured completely
  the handler gets the addresses, ports and protocols of its headers, the ingress port and the lower
  48 bits of the timestamp, whatever follows the headers.
\<close>

theorem packet_parse_roundtrip:
  assumes "l3_ok l3" "l4_ok l4" "length pad = 4" "length (frame ts pad port l3 l4) \<le> caplen"
  shows "parse_headers caplen (frame ts pad port l3 l4 @ ys) off =
    Some (Parsed (frame_tuple ts port off l3 l4, l4_number l4,
      if is_tcp l4 then Some (l4_offset l3) else None, if is_tcp l4 then None else Some (l4_offset l3),
      length (frame ts pad port l3 l4)))"
  by (rule parse_frame [OF assms])

definition example_l3 :: l3_header where
  "example_l3 = IP4_Header (replicate 9 0) [0, 0] 0x0100000a 0x0200000a"

definition example_l4 :: l4_header where
  "example_l4 = TCP_Header 443 50000 (replicate 9 0) TH_FIN (replicate 6 0)"

lemma example_headers [simp]:
  "l3_ok example_l3" "l4_ok example_l4" "length (frame ts (replicate 4 0) port example_l3 example_l4) = 54"
  by (simp_all add: example_l3_def example_l4_def frame_def ether_bytes_def)

theorem packet_parse_roundtrip_witness:
  "\<exists>l4Proto tcp udp cur. parse_headers 60 (frame 7 (replicate 4 0) 130 example_l3 example_l4 @ replicate 6 0) 0 =
     Some (Parsed (frame_tuple 7 130 0 example_l3 example_l4, l4Proto, tcp, udp, cur)) \<and>
   src_port (ft_h (frame_tuple 7 130 0 example_l3 example_l4)) = 443"
  using packet_parse_roundtrip [of example_l3 example_l4 "replicate 4 0" 7 130 60 "replicate 6 0" 0]
  by (simp add: frame_tuple_def) (simp add: example_l4_def)

fun l4_flags :: "l4_header \<Rightarrow> u8" where
  "l4_flags (TCP_Header sp dp a flags b) = flags"
| "l4_flags (UDP_Header sp dp a) = 0"

fun l4_source :: "l4_header \<Rightarrow> port_t" where
  "l4_source (TCP_Header sp dp a flags b) = sp"
| "l4_source (UDP_Header sp dp a) = sp"

lemma th_flags_append:
  "length xs = n \<Longrightarrow> th_flags (xs @ ys) (Some n) = (if 13 < length ys then Some (ys ! 13) else None)"
  by (simp add: th_flags_def nth_append)

lemma frame_l4:
  assumes "l3_ok l3" "l4_ok l4" "length pad = 4"
  shows "is_tcp l4 \<Longrightarrow> th_flags (frame ts pad port l3 l4 @ ys) (Some (l4_offset l3)) = Some (l4_flags l4)"
    and "rd 2 (frame ts pad port l3 l4 @ ys) (l4_offset l3) = Some (bswap_16 (l4_source l4))"
proof -
  let ?xs = "ether_bytes ts pad port (l3_type l3) @ l3_bytes (l4_number l4) l3"
  have x: "length ?xs = l4_offset l3"
    using assms by (cases l3) (simp_all add: ether_bytes_def l4_offset_def)
  have f: "frame ts pad port l3 l4 @ ys = ?xs @ l4_bytes l4 @ ys" by (simp add: frame_def)
  show "th_flags (frame ts pad port l3 l4 @ ys) (Some (l4_offset l3)) = Some (l4_flags l4)" if "is_tcp l4"
    unfolding f th_flags_append [OF x] using that assms(2) by (cases l4) (simp_all add: nth_append)
  obtain zs where "l4_bytes l4 = le_bytes 2 (bswap_16 (l4_source l4)) @ zs" by (cases l4) (simp_all add: be_bytes_2)
  then show "rd 2 (frame ts pad port l3 l4 @ ys) (l4_offset l3) = Some (bswap_16 (l4_source l4))"
    unfolding f x [symmetric] using rd_append [of ?xs "length ?xs" 2 "bswap_16 (l4_source l4)" "zs @ ys"] by simp
qed

lemma frame_not_reply:
  assumes "l3_ok l3" "l4_ok l4" "length pad = 4"
  shows "taken_for_reply (frame ts pad port l3 l4 @ ys) (l4_number l4) (length (frame ts pad port l3 l4)) \<longleftrightarrow>
    \<not> is_tcp l4 \<and> l4_source l4 = 0x3500"
proof (cases l4)
  case (TCP_Header sp dp a flags b)
  then show ?thesis by (simp add: taken_for_reply_def IPPROTO_TCP_def IPPROTO_UDP_def)
next
  case (UDP_Header sp dp a)
  have "length (frame ts pad port l3 l4) - 8 = l4_offset l3"
    using assms UDP_Header by (cases l3) (simp_all add: frame_def ether_bytes_def l4_offset_def)
  moreover have "bswap_16 sp = 53 \<longleftrightarrow> sp = 0x3500"
    using bswap_16_bswap_16 [of sp] by (metis bswap_53)
  ultimately show ?thesis using frame_l4(2) [OF assms, of ts port ys] UDP_Header by (simp add: taken_for_reply_def)
qed

text \<open>
  C7. Classification. For a completely captured frame that is not taken for a DNS reply, the commands
  sent to the flow database and to the DNS database are those of \<open>packet_commands\<close>: a SYN of a known flow
  is ignored, a FIN removes the flow, anything else is added as a flow when an address is a live
  entry of the DNS table (or the table is not used), UDP flows are reported to the Bloom filter as
  relevant or irrelevant accordingly, and addresses found timed out are removed from the DNS table.
  The tables are only read.
\<close>

theorem packet_handler_classifies:
  assumes "ph_ok cfg st" "l3_ok l3" "l4_ok l4" "length pad = 4"
    and "length (frame ts pad port l3 l4) \<le> caplen" "caplen \<le> length (frame ts pad port l3 l4 @ ys)"
    and "is_tcp l4 \<or> l4_source l4 \<noteq> 0x3500"
  shows "\<exists>st'. packet_handler cfg dnsdb now caplen (frame ts pad port l3 l4 @ ys) off st = Some st' \<and>
    ph_effect cfg (packet_commands dnsdb (dns_map (ph_dns st)) now
      (flow_map (ph_flows st) (ft_h (frame_tuple ts port off l3 l4)) \<noteq> None)
      (session_side dnsdb (dns_map (ph_dns st)) (frame_tuple ts port off l3 l4)) (l4_flags l4)) st st'"
proof -
  have t: "l4_proto (ft_h (frame_tuple ts port off l3 l4)) = L4_TCP \<longleftrightarrow> is_tcp l4"
    by (cases l4) (simp_all add: frame_tuple_def L4_TCP_def L4_UDP_def)
  show ?thesis
    using packet_handler_effect [OF assms(1,6) parse_frame [OF assms(2-5), of ys off], of "l4_flags l4" dnsdb now]
      frame_not_reply [OF assms(2-4)] frame_l4(1) [OF assms(2-4)] assms(7) t by auto
qed

definition example_packet_state :: packet_state where
  "example_packet_state = \<lparr> ph_flows = flow_hashtable_init small_config, ph_dns = dns_hashtable_init small_config,
     ph_packets = empty_ring 4 (PKT_TIMEOUT_FLOW 0), ph_replies = empty_ring 3 (DNS_ADD_PKT [] 0),
     packet_handler_stat = 0 \<rparr>"

lemma example_packet_state_ok: "ph_ok small_config example_packet_state"
  using flow_init_inv [OF cfg_ok_small] dns_init_inv [of small_config]
  by (simp add: ph_ok_def ph_inv_def example_packet_state_def empty_ring_inv)

theorem packet_handler_classifies_witness:
  "\<exists>st'. packet_handler small_config True 100 54 (frame 7 (replicate 4 0) 130 example_l3 example_l4) 0 example_packet_state = Some st' \<and>
     rb_items 4 (ph_packets st') = [PKT_REMOVE_FLOW (frame_tuple 7 130 0 example_l3 example_l4)]"
proof -
  let ?ft = "frame_tuple 7 130 0 example_l3 example_l4"
  have e: "l4_proto (ft_h ?ft) = L4_TCP" "l4_flags example_l4 = TH_FIN" "is_tcp example_l4"
    by (simp_all add: frame_tuple_def example_l4_def)
  have m: "flow_map (ph_flows example_packet_state) = Map.empty" "dns_map (ph_dns example_packet_state) = Map.empty"
    "rb_items 4 (ph_packets example_packet_state) = []"
    using flow_init_inv(2) [OF cfg_ok_small] dns_init_inv(2) [of small_config]
    by (simp_all add: example_packet_state_def empty_ring_inv)
  have "packet_commands True Map.empty 100 False ?ft TH_FIN = ([PKT_REMOVE_FLOW ?ft], [])"
    by (simp add: packet_commands_def packet_verdict_def e TH_FIN_def)
  moreover have "session_side True Map.empty ?ft = ?ft" by (simp add: session_side_def)
  ultimately show ?thesis
    using packet_handler_classifies [OF example_packet_state_ok, of example_l3 example_l4 "replicate 4 0" 7 130 54 "[]" True 100 0] e m
    by (auto simp: ph_effect_def q_accept_def)
qed

definition not_a_reply :: "nat \<Rightarrow> u8 list \<Rightarrow> int \<Rightarrow> bool" where
  "not_a_reply caplen mem off \<longleftrightarrow> (\<forall>ft l4Proto tcpHeader udpHeader curSize.
     parse_headers caplen mem off = Some (Parsed (ft, l4Proto, tcpHeader, udpHeader, curSize)) \<longrightarrow> \<not> taken_for_reply mem l4Proto curSize)"

lemma packet_handler_returns:
  assumes "ph_ok cfg st" "caplen \<le> length mem" "not_a_reply caplen mem off"
  shows "\<exists>st'. packet_handler cfg dnsdb now caplen mem off st = Some st' \<and> ph_ok cfg st' \<and> ph_flows st' = ph_flows st \<and> ph_dns st' = ph_dns st"
proof -
  from parse_headers_total [OF assms(2)] obtain p where
    p: "parse_headers caplen mem off = Some p" "headers_ok caplen p" by blast
  show ?thesis
  proof (cases p)
    case Returned
    with p assms(1) show ?thesis by (auto simp: packet_handler_def)
  next
    case (Parsed x)
    then obtain ft l4Proto tcpHeader udpHeader curSize where
      x: "p = Parsed (ft, l4Proto, tcpHeader, udpHeader, curSize)" by (metis prod_cases5)
    from p(2) x assms(2) have "\<exists>flags. l4_proto (ft_h ft) = L4_TCP \<longrightarrow> th_flags mem tcpHeader = Some flags"
      by (auto simp: th_flags_def L4_TCP_def L4_UDP_def)
    then obtain flags where "l4_proto (ft_h ft) = L4_TCP \<Longrightarrow> th_flags mem tcpHeader = Some flags" by blast
    from packet_handler_effect [OF assms(1,2) _ _ this] p(1) x assms(3) show ?thesis
      unfolding ph_effect_def not_a_reply_def by blast
  qed
qed

text \<open>
  C13. The callback is total while the DNS table has a free slot: for any bytes, as long as the packet is not taken for a DNS reply, the parser
  stays within the captured bytes, every table lookup ends, the tables are not changed and the rings stay well-formed. The free slot is
  a condition that the code does not ensure: in a full table the lookup of an address that is not stored never ends.
\<close>

theorem packet_handler_total:
  assumes "ph_inv cfg st" "card (dom (dns_map (ph_dns st))) < DNS_HASHTABLE_SIZE cfg" "caplen \<le> length mem" "not_a_reply caplen mem off"
  shows "\<exists>st'. packet_handler cfg dnsdb now caplen mem off st = Some st' \<and> ph_inv cfg st' \<and> ph_flows st' = ph_flows st \<and> ph_dns st' = ph_dns st"
proof -
  have "ph_ok cfg st" using assms(1,2) by (simp add: ph_ok_def)
  from packet_handler_returns [OF this assms(3,4), of dnsdb now] show ?thesis unfolding ph_ok_def by blast
qed

theorem packet_handler_total_witness:
  "\<exists>st'. packet_handler small_config True 100 5 (replicate 20 255) 0 example_packet_state = Some st' \<and> ph_inv small_config st'"
proof -
  have "not_a_reply 5 (replicate 20 255) 0" by (simp add: not_a_reply_def parse_headers_def parse_ether_def EXTRACT_def)
  with packet_handler_total [of small_config example_packet_state 5 "replicate 20 255" 0 True 100] example_packet_state_ok show ?thesis
    unfolding ph_ok_def by auto
qed

text \<open>
  C38. DNS replies. The source port is compared with 53 in network byte order: a reply from port 53 is handled as
  any other packet and never reaches the DNS database as a packet, while a packet from port 13568 is taken
  for a reply. Its copy is always 2048 bytes long, so it leaves the packet memory whenever that is not
  larger than the \<open>MAX_PKT_LEN\<close> bytes of a capture.
\<close>

theorem dns_reply_misdirected:
  assumes "ph_ok cfg st" "l3_ok l3" "l4_ok (UDP_Header sp dp a)" "length pad = 4"
    and "length (frame ts pad port l3 (UDP_Header sp dp a)) \<le> caplen"
    and "caplen \<le> length (frame ts pad port l3 (UDP_Header sp dp a) @ ys)"
    and "DNS_RINGBUFFER_SIZE cfg = N"
  shows "(sp = 53 \<longrightarrow> (\<exists>st'. packet_handler cfg dnsdb now caplen (frame ts pad port l3 (UDP_Header sp dp a) @ ys) off st = Some st' \<and>
        set (rb_items N (ph_replies st')) \<subseteq> set (rb_items N (ph_replies st)) \<union> range DNS_REMOVE_IP)) \<and>
    (sp = 13568 \<longrightarrow> length (frame ts pad port l3 (UDP_Header sp dp a) @ ys) \<le> 2048 \<longrightarrow>
        packet_handler cfg dnsdb now caplen (frame ts pad port l3 (UDP_Header sp dp a) @ ys) off st = None)"
proof (intro conjI impI)
  let ?l4 = "UDP_Header sp dp a" and ?f = "frame ts pad port l3 (UDP_Header sp dp a)"
  note parse = parse_frame [OF assms(2-5), of ys off]
  show "\<exists>st'. packet_handler cfg dnsdb now caplen (?f @ ys) off st = Some st' \<and>
      set (rb_items N (ph_replies st')) \<subseteq> set (rb_items N (ph_replies st)) \<union> range DNS_REMOVE_IP" if "sp = 53"
  proof -
    let ?ft = "frame_tuple ts port off l3 ?l4"
    have n: "\<not> taken_for_reply (?f @ ys) (l4_number ?l4) (length ?f)"
      unfolding frame_not_reply [OF assms(2-4)] using that by simp
    have "snd (packet_commands dnsdb m now known ft flags) \<in> lists (range DNS_REMOVE_IP)" for m known ft flags
      by (auto simp: packet_commands_def removals_def split: verdict.split)
    then have "set (snd (packet_commands dnsdb m now known ft flags)) \<subseteq> range DNS_REMOVE_IP" for m known ft flags
      by (simp add: in_lists_conv_set subset_iff)
    moreover have "l4_proto (ft_h ?ft) \<noteq> L4_TCP" by (simp add: frame_tuple_def L4_TCP_def L4_UDP_def)
    ultimately show ?thesis
      using packet_handler_effect [OF assms(1,6) parse n, of 0 dnsdb now] set_q_accept_all assms(7)
      unfolding ph_effect_def by fastforce
  qed
  show "packet_handler cfg dnsdb now caplen (?f @ ys) off st = None"
    if "sp = 13568" "length (?f @ ys) \<le> 2048"
  proof -
    have r: "rd 2 (?f @ ys) (l4_offset l3) = Some (53 :: u16)"
      using frame_l4(2) [OF assms(2-4), of ts port ys] that(1) bswap_53 by simp
    have "14 \<le> length ?f" using assms(4) by (simp add: frame_def ether_bytes_def)
    with that(2) have "length ys < 2048" by simp
    then have "put_dns_packet cfg caplen (?f @ ys) (length ?f) st' = None" for st'
      by (auto simp: put_dns_packet_def Let_def NS_HFIXEDSZ_def MAX_DNS_PKT_LEN_def max_def)
    with r show ?thesis by (simp add: packet_handler_def parse)
  qed
qed

theorem dns_reply_misdirected_witness:
  "packet_handler small_config True 100 42 (frame 7 (replicate 4 0) 130 example_l3 (UDP_Header 13568 53 [0, 8, 0, 0])) 0 example_packet_state = None"
proof -
  have "length (frame 7 (replicate 4 0) 130 example_l3 (UDP_Header 13568 53 [0, 8, 0, 0])) = 42"
    by (simp add: example_l3_def frame_def ether_bytes_def)
  with dns_reply_misdirected [OF example_packet_state_ok, of example_l3 13568 53 "[0, 8, 0, 0]" "replicate 4 0" 7 130 42 "[]" 3 True 100 0]
  show ?thesis by simp
qed

end
