(* ===== verification/Dns_Db.thy ===== *)
theory Dns_Db
  imports Dns_Hashtable Ring_Buffer
begin

text \<open>
  \<^verbatim>\<open>dns_db/dns_db.c\<close>: the thread that learns server addresses from DNS replies and drops the ones that
  timed out. The message parser of libresolv is an argument: a \<open>resolver\<close> holds what \<open>ns_initparse\<close>,
  \<open>ns_msg_count\<close> and \<open>ns_parserr\<close> return for the answer section (\<open>None\<close> for their error returns),
  and \<open>ns_rr\<close> what the accessor macros give for a record. \<open>ntop\<close> is \<open>inet_ntop\<close>, \<open>now\<close> the clock in seconds.

  Shown: the first address record with a relevant name is stored with its time-out and written to the
  pipe; nothing else is stored; every stored key has the type 0; and a record with a name that
  is not relevant makes the comparison loop leave the array of names.
\<close>

section \<open>Model\<close>

record ns_rr =
  rr_name :: string
  rr_type :: u32
  rr_ttl :: u32
  rr_rdata :: "u8 list"

record 'msg resolver =
  ns_initparse :: "u8 list \<Rightarrow> int \<Rightarrow> 'msg option"
  ns_msg_count :: "'msg \<Rightarrow> nat"
  ns_parserr :: "'msg \<Rightarrow> nat \<Rightarrow> ns_rr option"

record dns_db =
  dd_table :: dns_hashtable_t
  dns_pipe :: "(string \<times> int) list" \<comment> \<open>the lines \<open>"%s,%d\n"\<close> written so far\<close>
  dnsdb_stat :: u32

definition ns_t_a :: u32 where "ns_t_a = 1"
definition ns_t_aaaa :: u32 where "ns_t_aaaa = 28"
definition NS_MAXDNAME :: nat where "NS_MAXDNAME = 1025"

text \<open>\<open>dns_config.h\<close>: an array of names, each in 64 bytes.\<close>

definition MAX_DNSDB_DOMAIN_LENGTH :: nat where "MAX_DNSDB_DOMAIN_LENGTH = 64"
definition RELEVANT_DOMAIN_NAMES :: "string list" where "RELEVANT_DOMAIN_NAMES = [''googlevideo.com'']"

definition sizeof_names :: "string list \<Rightarrow> nat" where
  "sizeof_names names = MAX_DNSDB_DOMAIN_LENGTH * length names"

definition export_key :: "(l3_proto_t \<Rightarrow> address_t \<Rightarrow> string) \<Rightarrow> dns_hashtable_key_t \<Rightarrow> u32 \<Rightarrow> u32 \<Rightarrow> dns_db \<Rightarrow> dns_db" where
  "export_key ntop key type ttl db =
     (if type = ns_t_a then db\<lparr> dns_pipe := dns_pipe db @ [(ntop L3_IPV4 (dk_addr key), sint ttl)] \<rparr>
      else if type = ns_t_aaaa then db\<lparr> dns_pipe := dns_pipe db @ [(ntop L3_IPV6 (dk_addr key), sint ttl)] \<rparr>
      else db)"

text \<open>
  The loop over the relevant names: \<open>strnlen\<close> and \<open>strncmp\<close> compare the end of the record's name
  with the entry. The bound of the C loop is the size of the array in bytes.
\<close>

fun match_names :: "string list \<Rightarrow> string \<Rightarrow> nat list \<Rightarrow> bool option" where
  "match_names names name [] = Some False"
| "match_names names name (entry # es) =
     do { relevant \<leftarrow> aget names (int entry);
          let entry_len = min (length relevant) MAX_DNSDB_DOMAIN_LENGTH;
          let name_len = min (length name) NS_MAXDNAME;
          if entry_len \<le> name_len \<and> take entry_len (drop (name_len - entry_len) name) = take entry_len relevant
          then Some True
          else match_names names name es }"

text \<open>The \<open>memcpy\<close> of the address out of the record's data, into a zeroed key.\<close>

definition rr_key :: "ns_rr \<Rightarrow> dns_hashtable_key_t option" where
  "rr_key rr =
     (if rr_type rr = ns_t_a
      then if 4 \<le> length (rr_rdata rr)
        then Some \<lparr> dk_type = 0, dk_addr = set_ipv4 (of_le_bytes (take 4 (rr_rdata rr))) 0 \<rparr> else None
      else if 16 \<le> length (rr_rdata rr)
        then Some \<lparr> dk_type = 0, dk_addr = of_le_bytes (take 16 (rr_rdata rr)) \<rparr> else None)"

fun parse_rrs :: "config \<Rightarrow> string list \<Rightarrow> (l3_proto_t \<Rightarrow> address_t \<Rightarrow> string) \<Rightarrow> int \<Rightarrow> (nat \<Rightarrow> ns_rr option) \<Rightarrow>
    nat list \<Rightarrow> dns_db \<Rightarrow> dns_db option" where
  "parse_rrs cfg names ntop now parserr [] db = Some db"
| "parse_rrs cfg names ntop now parserr (rr_num # rs) db =
     (case parserr rr_num of None \<Rightarrow> Some db | Some rr \<Rightarrow>
        if rr_type rr \<noteq> ns_t_a \<and> rr_type rr \<noteq> ns_t_aaaa then parse_rrs cfg names ntop now parserr rs db
        else do {
          hit \<leftarrow> match_names names (rr_name rr) [0..<sizeof_names names];
          if hit then do {
            key \<leftarrow> rr_key rr;
            (_, table) \<leftarrow> dns_hashtable_add_or_change cfg (dd_table db) key (now + uint (rr_ttl rr));
            Some (export_key ntop key (rr_type rr) (rr_ttl rr) (db\<lparr> dd_table := table \<rparr>)) }
          else parse_rrs cfg names ntop now parserr rs db })"

definition parse_dns_packet :: "config \<Rightarrow> string list \<Rightarrow> 'msg resolver \<Rightarrow> (l3_proto_t \<Rightarrow> address_t \<Rightarrow> string) \<Rightarrow> int \<Rightarrow>
    u8 list \<Rightarrow> int \<Rightarrow> dns_db \<Rightarrow> dns_db option" where
  "parse_dns_packet cfg names ns ntop now pkt len db =
     (case ns_initparse ns pkt len of None \<Rightarrow> Some db | Some msg \<Rightarrow>
        let rr_count = ns_msg_count ns msg in
        if rr_count = 0 then Some db
        else parse_rrs cfg names ntop now (ns_parserr ns msg) [0..<rr_count] db)"

text \<open>One command of the loop of \<open>dns_db_thread\<close>.\<close>

definition dns_db_command :: "config \<Rightarrow> string list \<Rightarrow> 'msg resolver \<Rightarrow> (l3_proto_t \<Rightarrow> address_t \<Rightarrow> string) \<Rightarrow> int \<Rightarrow>
    dns_item_t \<Rightarrow> dns_db \<Rightarrow> dns_db option" where
  "dns_db_command cfg names ns ntop now packet db =
     (let db = db\<lparr> dnsdb_stat := dnsdb_stat db + 1 \<rparr> in
      case packet of
        DNS_ADD_PKT pkt len \<Rightarrow> parse_dns_packet cfg names ns ntop now pkt len db
      | DNS_REMOVE_IP address \<Rightarrow>
          do { (_, table) \<leftarrow> dns_hashtable_remove cfg (dd_table db) address; Some (db\<lparr> dd_table := table \<rparr>) })"

section \<open>Matching names\<close>

definition has_suffix :: "string \<Rightarrow> string \<Rightarrow> bool" where
  "has_suffix entry name \<longleftrightarrow> (\<exists>pre. name = pre @ entry)"

text \<open>Names as DNS and the configuration have them: shorter than their arrays.\<close>

definition name_ok :: "string \<Rightarrow> bool" where
  "name_ok name \<longleftrightarrow> length name < NS_MAXDNAME"

definition names_ok :: "string list \<Rightarrow> bool" where
  "names_ok names \<longleftrightarrow> (\<forall>n \<in> set names. length n < MAX_DNSDB_DOMAIN_LENGTH)"

lemma suffix_test:
  assumes "name_ok name" "length entry < MAX_DNSDB_DOMAIN_LENGTH"
  shows "(min (length entry) MAX_DNSDB_DOMAIN_LENGTH \<le> min (length name) NS_MAXDNAME \<and>
    take (min (length entry) MAX_DNSDB_DOMAIN_LENGTH) (drop (min (length name) NS_MAXDNAME - min (length entry) MAX_DNSDB_DOMAIN_LENGTH) name) =
      take (min (length entry) MAX_DNSDB_DOMAIN_LENGTH) entry) \<longleftrightarrow> has_suffix entry name"
proof -
  have m: "min (length entry) MAX_DNSDB_DOMAIN_LENGTH = length entry" "min (length name) NS_MAXDNAME = length name"
    using assms by (simp_all add: name_ok_def)
  have "(length entry \<le> length name \<and> drop (length name - length entry) name = entry) \<longleftrightarrow> has_suffix entry name"
    unfolding has_suffix_def by (metis append_take_drop_id append_eq_conv_conj diff_add_inverse2 le_add2 length_append)
  then show ?thesis unfolding m by auto
qed

lemma match_names_from:
  assumes "name_ok name" "names_ok names" "length names < n" "k \<le> length names"
  shows "match_names names name [k..<n] =
    (if \<exists>e \<in> set (drop k names). has_suffix e name then Some True else None)"
  using assms(4)
proof (induction "length names - k" arbitrary: k)
  case 0
  then have k: "k = length names" by simp
  with assms(3) have "[k..<n] = k # [Suc k..<n]" by (simp add: upt_conv_Cons)
  with k show ?case by simp
next
  case (Suc d)
  then have k: "k < length names" by simp
  with assms(3) have u: "[k..<n] = k # [Suc k..<n]" by (simp add: upt_conv_Cons)
  have e: "length (names ! k) < MAX_DNSDB_DOMAIN_LENGTH" using assms(2) k by (simp add: names_ok_def)
  have d: "drop k names = names ! k # drop (Suc k) names" using k by (simp add: Cons_nth_drop_Suc)
  have "d = length names - Suc k" using Suc.hyps(2) by linarith
  with Suc.hyps(1) [of "Suc k"] k have
    "match_names names name [Suc k..<n] = (if \<exists>e \<in> set (drop (Suc k) names). has_suffix e name then Some True else None)"
    by simp
  with k u d suffix_test [OF assms(1) e] show ?case by (simp add: Let_def)
qed

lemma match_names_eq:
  assumes "name_ok name" "names_ok names" "names \<noteq> []"
  shows "match_names names name [0..<sizeof_names names] =
    (if \<exists>e \<in> set names. has_suffix e name then Some True else None)"
  using match_names_from [OF assms(1,2), of "sizeof_names names" 0] assms(3)
  by (simp add: sizeof_names_def MAX_DNSDB_DOMAIN_LENGTH_def)

section \<open>The table the thread maintains\<close>

lemma add_or_change_cases:
  assumes "dns_table_inv cfg t" "dns_hashtable_add_or_change cfg t key v = Some (r, t')"
  shows "dns_table_inv cfg t' \<and> (dns_map t' = dns_map t \<or> dns_map t' = (dns_map t)(key \<mapsto> v))"
proof (cases "card (dom (dns_map t)) = DNS_HASHTABLE_SIZE cfg")
  case True
  with dns_put_full [OF assms(1)] assms show ?thesis by simp
next
  case False
  with dns_card_le [OF assms(1)] dns.put_ok [OF assms(1), of key v] assms(2) show ?thesis by auto
qed

text \<open>Every key the thread stores has the type that \<open>{0}\<close> gave it.\<close>

definition dns_db_inv :: "config \<Rightarrow> dns_hashtable_t \<Rightarrow> bool" where
  [inv_defs]: "dns_db_inv cfg t \<longleftrightarrow> dns_table_inv cfg t \<and> (\<forall>k \<in> dom (dns_map t). dk_type k = 0)"

lemma export_key_table [simp]: "dd_table (export_key ntop key type ttl db) = dd_table db"
  by (simp add: export_key_def)

lemma parse_rrs_inv:
  "dns_db_inv cfg (dd_table db) \<Longrightarrow> parse_rrs cfg names ntop now parserr rs db = Some db' \<Longrightarrow>
     dns_db_inv cfg (dd_table db')"
proof (induction cfg names ntop now parserr rs db rule: parse_rrs.induct)
  case (2 cfg names ntop now parserr rr_num rs db)
  show ?case
  proof (cases "parserr rr_num")
    case None
    with "2.prems" show ?thesis by simp
  next
    case (Some rr)
    show ?thesis
    proof (cases "rr_type rr \<noteq> ns_t_a \<and> rr_type rr \<noteq> ns_t_aaaa")
      case True
      with Some "2.IH"(1) "2.prems" show ?thesis by simp
    next
      case False
      with Some "2.prems"(2) obtain hit where hit: "match_names names (rr_name rr) [0..<sizeof_names names] = Some hit"
        by (auto split: bind_splits)
      show ?thesis
      proof (cases hit)
        case True
        with False Some hit "2.prems"(2) obtain key r t where
          k: "rr_key rr = Some key" and t: "dns_hashtable_add_or_change cfg (dd_table db) key (now + uint (rr_ttl rr)) = Some (r, t)"
          and db': "dd_table db' = t"
          by (fastforce split: bind_splits)
        from k have "dk_type key = 0" by (auto simp: rr_key_def split: if_splits)
        with add_or_change_cases [OF _ t] "2.prems"(1) db' show ?thesis
          by (fastforce simp: dns_db_inv_def split: if_splits)
      next
        case False
        with \<open>\<not> (rr_type rr \<noteq> ns_t_a \<and> rr_type rr \<noteq> ns_t_aaaa)\<close> Some hit "2.IH"(2) "2.prems" show ?thesis by auto
      qed
    qed
  qed
qed simp

lemma dns_db_command_inv:
  assumes "dns_db_inv cfg (dd_table db)" "dns_db_command cfg names ns ntop now packet db = Some db'"
  shows "dns_db_inv cfg (dd_table db')"
proof (cases packet)
  case (DNS_ADD_PKT pkt len)
  with assms show ?thesis
    by (auto simp: dns_db_command_def parse_dns_packet_def Let_def split: option.splits if_splits
        intro: parse_rrs_inv [rotated])
next
  case (DNS_REMOVE_IP k)
  with assms(2) obtain r t where t: "dns_hashtable_remove cfg (dd_table db) k = Some (r, t)" "dd_table db' = t"
    by (auto simp: dns_db_command_def split: bind_splits)
  show ?thesis
  proof (cases "dns_map (dd_table db) k")
    case (Some v)
    with dns_remove_hit [of cfg "dd_table db" k v] assms(1) t show ?thesis by (auto simp: dns_db_inv_def)
  next
    case None
    with t assms(1) show ?thesis using dns_remove_none [of cfg "dd_table db" k] by (auto simp: dns_db_inv_def)
  qed
qed

text \<open>Records that are no addresses are skipped.\<close>

definition is_address :: "ns_rr \<Rightarrow> bool" where
  "is_address rr \<longleftrightarrow> rr_type rr = ns_t_a \<or> rr_type rr = ns_t_aaaa"

definition first_address :: "(nat \<Rightarrow> ns_rr option) \<Rightarrow> nat \<Rightarrow> ns_rr \<Rightarrow> bool" where
  "first_address parserr i rr \<longleftrightarrow> parserr i = Some rr \<and> is_address rr \<and>
     (\<forall>j < i. \<exists>r. parserr j = Some r \<and> \<not> is_address r)"

lemma parse_rrs_skip:
  assumes "\<And>j. k \<le> j \<Longrightarrow> j < i \<Longrightarrow> \<exists>r. parserr j = Some r \<and> \<not> is_address r" "k \<le> i" "i < n"
  shows "parse_rrs cfg names ntop now parserr [k..<n] db = parse_rrs cfg names ntop now parserr [i..<n] db"
  using assms
proof (induction "i - k" arbitrary: k)
  case (Suc d)
  then obtain r where "parserr k = Some r" "\<not> is_address r" by (metis diff_is_0_eq' le_refl nat_le_linear nat_neq_iff Suc_neq_Zero leD)
  moreover have "[k..<n] = k # [Suc k..<n]" using Suc by (simp add: upt_conv_Cons)
  ultimately show ?case using Suc.hyps(1) [of "Suc k"] Suc by (simp add: is_address_def)
qed simp

lemma dns_db_command_first:
  assumes "ns_initparse ns pkt len = Some msg" "i < ns_msg_count ns msg" "first_address (ns_parserr ns msg) i rr"
  shows "dns_db_command cfg names ns ntop now (DNS_ADD_PKT pkt len) db =
    parse_rrs cfg names ntop now (ns_parserr ns msg) (i # [Suc i..<ns_msg_count ns msg]) (db\<lparr> dnsdb_stat := dnsdb_stat db + 1 \<rparr>)"
  using assms parse_rrs_skip [of 0 i "ns_parserr ns msg" "ns_msg_count ns msg" cfg names ntop now]
  by (simp add: dns_db_command_def parse_dns_packet_def Let_def first_address_def upt_conv_Cons del: parse_rrs.simps)

section \<open>Properties\<close>

text \<open>
  C26. When the first address record of a reply has a name that ends in a relevant domain name, the
  thread stores exactly the address of this record, valid until the clock plus its time to live, and writes one line
  with both to the pipe. Later records of the reply are not looked at.
\<close>

theorem dns_db_learns_first_match:
  assumes "dns_table_inv cfg (dd_table db)" "card (dom (dns_map (dd_table db))) < DNS_HASHTABLE_SIZE cfg"
    and "ns_initparse ns pkt len = Some msg" "i < ns_msg_count ns msg" "first_address (ns_parserr ns msg) i rr"
    and "names_ok names" "name_ok (rr_name rr)" "e \<in> set names" "has_suffix e (rr_name rr)" "rr_key rr = Some key"
  shows "\<exists>db'. dns_db_command cfg names ns ntop now (DNS_ADD_PKT pkt len) db = Some db' \<and>
    dns_table_inv cfg (dd_table db') \<and>
    dns_map (dd_table db') = (dns_map (dd_table db))(key \<mapsto> now + uint (rr_ttl rr)) \<and>
    dns_pipe db' = dns_pipe db @
      [(ntop (if rr_type rr = ns_t_a then L3_IPV4 else L3_IPV6) (dk_addr key), sint (rr_ttl rr))]"
proof -
  have m: "match_names names (rr_name rr) [0..<sizeof_names names] = Some True"
  proof -
    have "names \<noteq> []" using assms(8) by auto
    from match_names_eq [OF assms(7,6) this] assms(8,9) show ?thesis by auto
  qed
  from dns.put_ok [OF assms(1,2), of key "now + uint (rr_ttl rr)"] obtain t where
    t: "dns_hashtable_add_or_change cfg (dd_table db) key (now + uint (rr_ttl rr)) = Some (0, t)"
      "dns_table_inv cfg t" "dns_map t = (dns_map (dd_table db))(key \<mapsto> now + uint (rr_ttl rr))" by blast
  have a: "ns_parserr ns msg i = Some rr" "rr_type rr = ns_t_a \<or> rr_type rr = ns_t_aaaa"
    using assms(5) by (auto simp: first_address_def is_address_def)
  have ne: "ns_t_aaaa \<noteq> ns_t_a" by (simp add: ns_t_a_def ns_t_aaaa_def)
  show ?thesis unfolding dns_db_command_first [OF assms(3-5)]
    using a m t assms(10) ne by (auto simp: export_key_def)
qed

definition example_rr :: ns_rr where
  "example_rr = \<lparr> rr_name = ''a.googlevideo.com'', rr_type = ns_t_a, rr_ttl = 300, rr_rdata = [1, 2, 3, 4] \<rparr>"

definition example_resolver :: "ns_rr \<Rightarrow> unit resolver" where
  "example_resolver rr = \<lparr> ns_initparse = \<lambda>_ _. Some (), ns_msg_count = \<lambda>_. 1, ns_parserr = \<lambda>_ _. Some rr \<rparr>"

definition example_dns_db :: dns_db where
  "example_dns_db = \<lparr> dd_table = dns_hashtable_init small_config, dns_pipe = [], dnsdb_stat = 0 \<rparr>"

lemma example_dns_db_ok:
  "dns_table_inv small_config (dd_table example_dns_db)"
  "dns_map (dd_table example_dns_db) = Map.empty" "dns_pipe example_dns_db = []"
  using dns_init_inv [of small_config] by (simp_all add: example_dns_db_def)

lemma example_first: "is_address rr \<Longrightarrow> first_address (ns_parserr (example_resolver rr) ()) 0 rr"
  by (simp add: first_address_def example_resolver_def)

lemma RELEVANT_DOMAIN_NAMES_ok: "names_ok RELEVANT_DOMAIN_NAMES"
  by (simp add: names_ok_def RELEVANT_DOMAIN_NAMES_def MAX_DNSDB_DOMAIN_LENGTH_def)

theorem dns_db_learns_first_match_witness:
  "\<exists>db'. dns_db_command small_config RELEVANT_DOMAIN_NAMES (example_resolver example_rr) (\<lambda>_ _. ''1.2.3.4'') 1000
      (DNS_ADD_PKT [] 0) example_dns_db = Some db' \<and>
     ran (dns_map (dd_table db')) = {1300} \<and> dns_pipe db' = [(''1.2.3.4'', 300)]"
proof -
  have k: "rr_key example_rr = Some \<lparr> dk_type = 0, dk_addr = set_ipv4 (of_le_bytes [1, 2, 3, 4]) 0 \<rparr>"
    by (simp add: rr_key_def example_rr_def)
  have c: "card (dom (dns_map (dd_table example_dns_db))) < DNS_HASHTABLE_SIZE small_config"
    by (simp add: example_dns_db_ok)
  have n: "name_ok (rr_name example_rr)" "has_suffix ''googlevideo.com'' (rr_name example_rr)" "is_address example_rr"
    by (simp_all add: name_ok_def NS_MAXDNAME_def example_rr_def has_suffix_def is_address_def)
  have r: "ns_initparse (example_resolver example_rr) [] 0 = Some ()" "0 < ns_msg_count (example_resolver example_rr) ()"
    "''googlevideo.com'' \<in> set RELEVANT_DOMAIN_NAMES" "uint (rr_ttl example_rr) = 300" "sint (rr_ttl example_rr) = 300"
    by (simp_all add: example_resolver_def RELEVANT_DOMAIN_NAMES_def example_rr_def)
  show ?thesis
    using dns_db_learns_first_match [OF example_dns_db_ok(1) c r(1,2) example_first [OF n(3)] RELEVANT_DOMAIN_NAMES_ok n(1) r(3) n(2) k,
      of "\<lambda>_ _. ''1.2.3.4''" 1000] r(4,5) example_dns_db_ok(2,3) by auto
qed

text \<open>
  C39. The loop over the relevant names runs to the size of the array in bytes, not to the number of its names:
  when the first address record of a reply has no relevant name, the thread reads past the end of the array.
\<close>

theorem dns_irrelevant_name_overreads:
  assumes "ns_initparse ns pkt len = Some msg" "i < ns_msg_count ns msg" "first_address (ns_parserr ns msg) i rr"
    and "names_ok names" "names \<noteq> []" "name_ok (rr_name rr)" "\<not> (\<exists>e \<in> set names. has_suffix e (rr_name rr))"
  shows "dns_db_command cfg names ns ntop now (DNS_ADD_PKT pkt len) db = None"
proof -
  have "match_names names (rr_name rr) [0..<sizeof_names names] = None"
    using match_names_eq [OF assms(6,4,5)] assms(7) by auto
  with assms(3) show ?thesis
    unfolding dns_db_command_first [OF assms(1-3)] by (auto simp: first_address_def is_address_def)
qed

theorem dns_irrelevant_name_overreads_witness:
  "dns_db_command small_config RELEVANT_DOMAIN_NAMES (example_resolver (example_rr\<lparr> rr_name := ''example.org'' \<rparr>)) (\<lambda>_ _. []) 1000
     (DNS_ADD_PKT [] 0) example_dns_db = None"
proof -
  let ?rr = "example_rr\<lparr> rr_name := ''example.org'' \<rparr>"
  have "length pre + 15 = 11 \<Longrightarrow> False" for pre :: string by simp
  then have "\<not> has_suffix ''googlevideo.com'' (rr_name ?rr)"
    unfolding has_suffix_def by (auto dest: arg_cong [where f = length])
  then show ?thesis
    by (intro dns_irrelevant_name_overreads [OF _ _ example_first])
      (simp_all add: example_resolver_def RELEVANT_DOMAIN_NAMES_def RELEVANT_DOMAIN_NAMES_ok [unfolded RELEVANT_DOMAIN_NAMES_def]
        name_ok_def NS_MAXDNAME_def is_address_def example_rr_def)
qed

end
