(* ===== verification/Dns_Monitoring.thy ===== *)
theory Dns_Monitoring
  imports Packet_Handler Dns_Db
begin

text \<open>
  The packet handler and the DNS database together (\<^verbatim>\<open>packet_handler/packet_handler.c\<close>, \<^verbatim>\<open>dns_db/dns_db.c\<close>). They share the DNS
  table and the DNS ring: the DNS thread stores the addresses of relevant names, the packet handler looks up
  the addresses of each packet. Shown: the two never agree on a key, so that no flow is ever monitored when the DNS database is in use.
\<close>

section \<open>The shared state\<close>

text \<open>
  The DNS table of the packet handler is that of the DNS thread. A captured packet has all the bytes that libpcap declares, and the DNS
  table has a free slot while a packet is handled (otherwise a lookup does not return). The flow database takes commands and changes the flow
  table; the feature thread sends time-outs.
\<close>

type_synonym monitor = "packet_state \<times> dns_db"

inductive monitor_step :: "config \<Rightarrow> string list \<Rightarrow> 'msg resolver \<Rightarrow> (l3_proto_t \<Rightarrow> address_t \<Rightarrow> string) \<Rightarrow> monitor \<Rightarrow> monitor \<Rightarrow> bool"
  for cfg names ns ntop where
  Capture: "caplen \<le> length mem \<Longrightarrow> card (dom (dns_map (ph_dns st))) < DNS_HASHTABLE_SIZE cfg \<Longrightarrow>
     packet_handler cfg True now caplen mem off st = Some st' \<Longrightarrow> monitor_step cfg names ns ntop (st, db) (st', db)"
| Resolve: "ringbuffer_get (DNS_RINGBUFFER_SIZE cfg) (ph_replies st) = Some ((0, Some item), ring') \<Longrightarrow>
     dns_db_command cfg names ns ntop now item db = Some db' \<Longrightarrow>
     monitor_step cfg names ns ntop (st, db) (st\<lparr> ph_replies := ring', ph_dns := dd_table db' \<rparr>, db')"
| Flow_Db: "ringbuffer_get (PACKET_RINGBUFFER_SIZE cfg) (ph_packets st) = Some ((0, Some command), ring') \<Longrightarrow> flow_table_inv cfg flows \<Longrightarrow>
     monitor_step cfg names ns ntop (st, db) (st\<lparr> ph_packets := ring', ph_flows := flows \<rparr>, db)"
| Time_Out: "ringbuffer_put (PACKET_RINGBUFFER_SIZE cfg) (PKT_TIMEOUT_FLOW x) (ph_packets st) = Some (r, ring') \<Longrightarrow>
     monitor_step cfg names ns ntop (st, db) (st\<lparr> ph_packets := ring' \<rparr>, db)"

inductive monitor_reachable :: "config \<Rightarrow> string list \<Rightarrow> 'msg resolver \<Rightarrow> (l3_proto_t \<Rightarrow> address_t \<Rightarrow> string) \<Rightarrow> monitor \<Rightarrow> bool"
  for cfg names ns ntop where
  Start: "rb_inv (PACKET_RINGBUFFER_SIZE cfg) packets \<Longrightarrow> rb_items (PACKET_RINGBUFFER_SIZE cfg) packets = [] \<Longrightarrow>
     rb_inv (DNS_RINGBUFFER_SIZE cfg) replies \<Longrightarrow>
     monitor_reachable cfg names ns ntop
       (\<lparr> ph_flows = flow_hashtable_init cfg, ph_dns = dns_hashtable_init cfg, ph_packets = packets, ph_replies = replies, packet_handler_stat = 0 \<rparr>,
        \<lparr> dd_table = dns_hashtable_init cfg, dns_pipe = [], dnsdb_stat = 0 \<rparr>)"
| Step: "monitor_reachable cfg names ns ntop st \<Longrightarrow> monitor_step cfg names ns ntop st st' \<Longrightarrow> monitor_reachable cfg names ns ntop st'"

definition adds_flow :: "packet_item_t \<Rightarrow> bool" where
  "adds_flow command \<longleftrightarrow> (\<exists>ft. command = PKT_ADD_FLOW ft)"

fun monitor_inv :: "config \<Rightarrow> monitor \<Rightarrow> bool" where
  "monitor_inv cfg (st, db) \<longleftrightarrow> flow_table_inv cfg (ph_flows st) \<and> dns_db_inv cfg (dd_table db) \<and> ph_dns st = dd_table db \<and>
     rb_inv (PACKET_RINGBUFFER_SIZE cfg) (ph_packets st) \<and> rb_inv (DNS_RINGBUFFER_SIZE cfg) (ph_replies st) \<and>
     (\<forall>c \<in> set (rb_items (PACKET_RINGBUFFER_SIZE cfg) (ph_packets st)). \<not> adds_flow c)"

section \<open>The packet handler on keys without a type\<close>

lemma no_live_key:
  assumes "\<forall>k \<in> dom m. dk_type k = 0" "l3_proto (ft_h ft) \<in> {L3_IPV4, L3_IPV6}"
  shows "\<not> relevant True m now ft"
proof -
  have "m (src_dns_key ft) = None" "m (dst_dns_key ft) = None"
    using assms by (auto simp: dom_def src_dns_key_def dst_dns_key_def toDnsHashtableKey_def L3_IPV4_def L3_IPV6_def)
  then show ?thesis by (simp add: relevant_def live_def)
qed

lemma no_add_command:
  assumes "\<forall>k \<in> dom m. dk_type k = 0" "l3_proto (ft_h ft) \<in> {L3_IPV4, L3_IPV6}"
  shows "\<forall>c \<in> set (fst (packet_commands True m now known ft flags)). \<not> adds_flow c"
  using no_live_key [OF assms, of now]
  by (auto simp: packet_commands_def new_commands_def adds_flow_def split: verdict.split)

lemma put_dns_packet_keeps:
  assumes "rb_inv (DNS_RINGBUFFER_SIZE cfg) (ph_replies st)" "put_dns_packet cfg caplen mem cur st = Some st'"
  shows "ph_flows st' = ph_flows st \<and> ph_dns st' = ph_dns st \<and> ph_packets st' = ph_packets st \<and> rb_inv (DNS_RINGBUFFER_SIZE cfg) (ph_replies st')"
proof -
  let ?len = "max (caplen - cur) MAX_DNS_PKT_LEN"
  let ?item = "DNS_ADD_PKT (take ?len (drop cur mem)) (int ?len)"
  obtain r ring' where p: "ringbuffer_put (DNS_RINGBUFFER_SIZE cfg) ?item (ph_replies st) = Some (r, ring')" "rb_inv (DNS_RINGBUFFER_SIZE cfg) ring'"
    using ring.put_accept [OF assms(1), of ?item] by blast
  have "put_dns_packet cfg caplen mem cur st \<in> {None, Some st, Some (st\<lparr> ph_replies := ring' \<rparr>)}"
    unfolding put_dns_packet_def Let_def p(1) by simp
  with assms p(2) show ?thesis by auto
qed

lemma packet_handler_no_add:
  assumes ok: "ph_ok cfg st" and k: "\<forall>k \<in> dom (dns_map (ph_dns st)). dk_type k = 0" and mem: "caplen \<le> length mem"
    and r: "packet_handler cfg True now caplen mem off st = Some st'"
  shows "ph_flows st' = ph_flows st \<and> ph_dns st' = ph_dns st \<and> rb_inv (PACKET_RINGBUFFER_SIZE cfg) (ph_packets st') \<and>
    rb_inv (DNS_RINGBUFFER_SIZE cfg) (ph_replies st') \<and>
    (\<forall>c \<in> set (rb_items (PACKET_RINGBUFFER_SIZE cfg) (ph_packets st')).
       c \<in> set (rb_items (PACKET_RINGBUFFER_SIZE cfg) (ph_packets st)) \<or> \<not> adds_flow c)"
proof -
  let ?st = "st\<lparr> packet_handler_stat := packet_handler_stat st + 1 \<rparr>"
  from ok have inv: "rb_inv (PACKET_RINGBUFFER_SIZE cfg) (ph_packets st)" "rb_inv (DNS_RINGBUFFER_SIZE cfg) (ph_replies st)"
    by (auto simp: ph_ok_def ph_inv_def)
  from parse_headers_total [OF mem, of off] obtain p where p: "parse_headers caplen mem off = Some p" "headers_ok caplen p" by blast
  show ?thesis
  proof (cases p)
    case Returned
    with p r inv show ?thesis by (auto simp: packet_handler_def)
  next
    case (Parsed x)
    then obtain ft l4Proto tcpHeader udpHeader curSize where
      x: "p = Parsed (ft, l4Proto, tcpHeader, udpHeader, curSize)" by (metis prod_cases5)
    have h: "l3_proto (ft_h ft) \<in> {L3_IPV4, L3_IPV6}" "curSize \<le> caplen"
      "l4Proto = IPPROTO_UDP \<longrightarrow> udpHeader = Some (curSize - 8) \<and> 42 \<le> curSize"
      using p(2) x by (auto simp: IPPROTO_TCP_def IPPROTO_UDP_def)
    show ?thesis
    proof (cases "taken_for_reply mem l4Proto curSize")
      case True
      with r p(1) x h(2,3) have "put_dns_packet cfg caplen mem curSize ?st = Some st'"
        by (auto simp: packet_handler_def taken_for_reply_def)
      from put_dns_packet_keeps [OF _ this] inv show ?thesis by simp
    next
      case False
      from p(2) x mem have "\<exists>flags. l4_proto (ft_h ft) = L4_TCP \<longrightarrow> th_flags mem tcpHeader = Some flags"
        by (auto simp: th_flags_def L4_TCP_def L4_UDP_def)
      then obtain flags where f: "l4_proto (ft_h ft) = L4_TCP \<Longrightarrow> th_flags mem tcpHeader = Some flags" by blast
      let ?m = "dns_map (ph_dns st)"
      let ?cs = "packet_commands True ?m now (flow_map (ph_flows st) (ft_h ft) \<noteq> None) (session_side True ?m ft) flags"
      from packet_handler_effect [OF ok mem p(1) [unfolded x] False f, of True now] r have e: "ph_effect cfg ?cs st st'" by simp
      have "l3_proto (ft_h (session_side True ?m ft)) \<in> {L3_IPV4, L3_IPV6}" using h(1) by (simp add: session_side_def)
      from no_add_command [OF k this, of now "flow_map (ph_flows st) (ft_h ft) \<noteq> None" flags] e
        set_q_accept_all [of "PACKET_RINGBUFFER_SIZE cfg" "fst ?cs" "rb_items (PACKET_RINGBUFFER_SIZE cfg) (ph_packets st)"]
      show ?thesis unfolding ph_effect_def ph_ok_def ph_inv_def by auto
    qed
  qed
qed

section \<open>Reachable states\<close>

lemma monitor_step_inv:
  assumes "monitor_step cfg names ns ntop st st'" "monitor_inv cfg st"
  shows "monitor_inv cfg st'"
  using assms(1)
proof cases
  case (Capture caplen mem p now off p' db)
  with assms(2) have i: "ph_ok cfg p" "\<forall>k \<in> dom (dns_map (ph_dns p)). dk_type k = 0"
    by (auto simp: ph_ok_def ph_inv_def dns_db_inv_def)
  from packet_handler_no_add [OF i Capture(3,5)] assms(2) Capture(1,2) show ?thesis by auto
next
  case (Resolve p item ring' now db db')
  from Resolve(1) assms(2) have i: "rb_inv (DNS_RINGBUFFER_SIZE cfg) (ph_replies p)" "dns_db_inv cfg (dd_table db)" by auto
  from ring.get_cases [OF i(1) Resolve(3)] dns_db_command_inv [OF i(2) Resolve(4)] assms(2) Resolve(1,2) show ?thesis by auto
next
  case (Flow_Db p command ring' flows db)
  from Flow_Db(1) assms(2) have i: "rb_inv (PACKET_RINGBUFFER_SIZE cfg) (ph_packets p)" by simp
  from ring.get_cases [OF i Flow_Db(3)] assms(2) Flow_Db(1,2,4) show ?thesis by auto
next
  case (Time_Out x p r ring' db)
  from Time_Out(1) assms(2) have i: "rb_inv (PACKET_RINGBUFFER_SIZE cfg) (ph_packets p)" by simp
  from ring.put_cases [OF i Time_Out(3)] assms(2) Time_Out(1,2) show ?thesis by (auto simp: adds_flow_def)
qed

lemma monitor_reachable_inv:
  "monitor_reachable cfg names ns ntop st \<Longrightarrow> cfg_ok cfg \<Longrightarrow> monitor_inv cfg st"
proof (induction rule: monitor_reachable.induct)
  case (Start packets replies)
  with flow_init_inv [of cfg] dns_init_inv [of cfg] show ?case by (simp add: dns_db_inv_def cfg_ok_def)
next
  case (Step st st')
  then show ?case using monitor_step_inv by blast
qed

section \<open>Properties\<close>

text \<open>
  C35. With the DNS database in use no flow is ever monitored: whatever packets are captured and whatever the DNS database learns, in any order,
  the packet ring never holds a command that adds a flow. The DNS thread stores every address under a key whose type is zero, while
  the packet handler looks up keys with the type of the packet's protocol.
\<close>

theorem learned_addresses_never_match:
  assumes "cfg_ok cfg" "monitor_reachable cfg names ns ntop (st, db)"
  shows "PKT_ADD_FLOW ft \<notin> set (rb_items (PACKET_RINGBUFFER_SIZE cfg) (ph_packets st))"
  using monitor_reachable_inv [OF assms(2,1)] by (auto simp: adds_flow_def)

theorem learned_addresses_never_match_witness:
  "\<exists>st db. monitor_reachable small_config RELEVANT_DOMAIN_NAMES (example_resolver example_rr) (\<lambda>_ _. []) (st, db) \<and>
     rb_items (PACKET_RINGBUFFER_SIZE small_config) (ph_packets st) \<noteq> [] \<and>
     PKT_ADD_FLOW (example_key 1) \<notin> set (rb_items (PACKET_RINGBUFFER_SIZE small_config) (ph_packets st))"
proof -
  let ?reach = "monitor_reachable small_config RELEVANT_DOMAIN_NAMES (example_resolver example_rr) (\<lambda>_ _. [])"
  let ?db = "\<lparr> dd_table = dns_hashtable_init small_config, dns_pipe = [], dnsdb_stat = 0 \<rparr>"
  let ?mem = "frame 7 (replicate 4 0) 130 example_l3 example_l4" and ?ft = "frame_tuple 7 130 0 example_l3 example_l4"
  have start: "?reach (example_packet_state, ?db)"
    unfolding example_packet_state_def by (rule monitor_reachable.Start) (simp_all add: empty_ring_inv)
  have m: "dns_map (ph_dns example_packet_state) = Map.empty" "flow_map (ph_flows example_packet_state) = Map.empty"
    "rb_items 4 (ph_packets example_packet_state) = []"
    using flow_init_inv(2) [OF cfg_ok_small] dns_init_inv(2) [of small_config] by (simp_all add: example_packet_state_def empty_ring_inv)
  have tcp: "is_tcp example_l4" by (simp add: example_l4_def)
  have n: "\<not> taken_for_reply ?mem (l4_number example_l4) (length ?mem)" "th_flags ?mem (Some (l4_offset example_l3)) = Some TH_FIN"
    using frame_not_reply [of example_l3 example_l4 "replicate 4 0" 7 130 "[]"] frame_l4(1) [of example_l3 example_l4 "replicate 4 0" 7 130 "[]"]
    by (simp_all add: example_l4_def)
  have "packet_commands True Map.empty 100 False (session_side True Map.empty ?ft) TH_FIN = ([PKT_REMOVE_FLOW ?ft], [])"
    by (simp add: packet_commands_def packet_verdict_def session_side_def TH_FIN_def frame_tuple_def example_l4_def)
  moreover have "\<exists>st'. packet_handler small_config True 100 54 ?mem 0 example_packet_state = Some st' \<and>
      ph_effect small_config (packet_commands True Map.empty 100 False (session_side True Map.empty ?ft) TH_FIN) example_packet_state st'"
    using packet_handler_effect [OF example_packet_state_ok _ parse_frame [of example_l3 example_l4 "replicate 4 0" 7 130 54 "[]" 0], of TH_FIN True 100] n m
    by (simp add: tcp)
  ultimately obtain st' where c: "packet_handler small_config True 100 54 ?mem 0 example_packet_state = Some st'"
    "rb_items 4 (ph_packets st') = [PKT_REMOVE_FLOW ?ft]" using m(3) by (auto simp: ph_effect_def q_accept_def)
  have "monitor_step small_config RELEVANT_DOMAIN_NAMES (example_resolver example_rr) (\<lambda>_ _. []) (example_packet_state, ?db) (st', ?db)"
    by (rule monitor_step.Capture [OF _ _ c(1)]) (simp_all add: m)
  from monitor_reachable.Step [OF start this] have r: "?reach (st', ?db)" .
  from learned_addresses_never_match [OF cfg_ok_small r, of "example_key 1"] r c(2) show ?thesis
    by (intro exI [of _ st'] exI [of _ ?db]) simp
qed

end
