(* ===== verification/Prepare_Dataplane.thy ===== *)
theory Prepare_Dataplane
  imports Flow_Db
begin

text \<open>
  \<^verbatim>\<open>dataplane/prepare_dataplane.c\<close> and \<^verbatim>\<open>port_config.h\<close>: what the data plane thread does before its loop. It empties the
  tables of the switch, fills the static ones, configures the ports, and builds \<open>DEVPORT_MAPPING\<close> together with the forwarding table. The driver
  is a record of functions on the state of the switch. A step gives \<open>None\<close> when it leaves an array and \<open>Inl ()\<close> when it ends the program with
  \<open>exit(1)\<close>. The generated static tables and the port tables are arguments.

  Shown: preparation ends, with \<open>exit(1)\<close> or with a port map that satisfies what the flow database relies on and that agrees with the forwarding table.
\<close>

section \<open>Model\<close>

datatype dp_table = Forward_Table | Iat_Compute_Log_Table | Compute_Size_Log_Table | Header_Length_Table
  | Pkt_Count_Table | Bloom_Filter_Table nat | Add_Size_Log_Table | Add_Size_Log_Square_Table | Add_Size_Log_Cube_Table
  | Iat_Read_Update_Last_Timestamp_Table | Add_Iat_Log_Table | Add_Iat_Log_Square_Table | Add_Iat_Log_Cube_Table
  | Classification_Ipv4 | Classification_Ipv6

record log_square_entry_t =
  ls_match :: u32
  ls_mask :: u32
  ls_value :: u32
  ls_square :: u32
  ls_cube :: u32

record port_entry_t =
  pe_port :: u8
  pe_lane :: u8
  pe_speed :: nat
  pe_fec :: nat

record forward_entry_t =
  fe_from_port :: u8
  fe_from_lane :: u8
  fe_to_port :: u8
  fe_to_lane :: u8

text \<open>The tables of \<open>port_config.h\<close>, with the enumerators \<open>BF_SPEED_100G\<close> and \<open>BF_FEC_TYP_RS\<close> of the driver as arguments.\<close>

definition port_entries :: "nat \<Rightarrow> nat \<Rightarrow> port_entry_t list" where
  "port_entries speed fec =
     [\<lparr> pe_port = 1, pe_lane = 0, pe_speed = speed, pe_fec = fec \<rparr>, \<lparr> pe_port = 2, pe_lane = 0, pe_speed = speed, pe_fec = fec \<rparr>]"

definition forward_entries :: "forward_entry_t list" where
  "forward_entries =
     [\<lparr> fe_from_port = 1, fe_from_lane = 0, fe_to_port = 2, fe_to_lane = 0 \<rparr>,
      \<lparr> fe_from_port = 2, fe_from_lane = 0, fe_to_port = 1, fe_to_lane = 0 \<rparr>]"

record 'sw pal =
  port_del_all :: "'sw \<Rightarrow> 'sw"
  get_entry_count :: "dp_table \<Rightarrow> 'sw \<Rightarrow> int \<times> nat"
  get_first_entry_handle :: "dp_table \<Rightarrow> 'sw \<Rightarrow> int"
  get_next_entry_handles :: "dp_table \<Rightarrow> int \<Rightarrow> nat \<Rightarrow> 'sw \<Rightarrow> int list"
  table_delete :: "dp_table \<Rightarrow> int \<Rightarrow> 'sw \<Rightarrow> 'sw"
  table_reset_default_entry :: "dp_table \<Rightarrow> 'sw \<Rightarrow> 'sw"
  set_property :: "dp_table \<Rightarrow> 'sw \<Rightarrow> 'sw"
  tm_set_cpuport :: "'sw \<Rightarrow> 'sw"
  log_table_add :: "dp_table \<Rightarrow> log_square_entry_t \<Rightarrow> 'sw \<Rightarrow> int \<times> 'sw"
  header_length_add :: "nat \<Rightarrow> 'sw \<Rightarrow> int \<times> 'sw"
  front_port_to_dev_port_get :: "u8 \<Rightarrow> u8 \<Rightarrow> int \<times> int"
  is_port_internal :: "int \<Rightarrow> 'sw \<Rightarrow> int \<times> bool"
  port_add :: "int \<Rightarrow> nat \<Rightarrow> nat \<Rightarrow> 'sw \<Rightarrow> int \<times> 'sw"
  port_enable :: "int \<Rightarrow> 'sw \<Rightarrow> int \<times> 'sw"
  forward_table_add :: "int \<Rightarrow> int \<Rightarrow> 'sw \<Rightarrow> int \<times> 'sw"

record 'sw prep =
  pr_switch :: 'sw
  DEVPORT_MAPPING :: "int list"

type_synonym 'sw prep_step = "'sw prep \<Rightarrow> (unit + 'sw prep) option"

fun run_steps :: "'sw prep_step list \<Rightarrow> 'sw prep_step" where
  "run_steps [] st = Some (Inr st)"
| "run_steps (f # fs) st = (case f st of None \<Rightarrow> None | Some (Inl u) \<Rightarrow> Some (Inl u) | Some (Inr st') \<Rightarrow> run_steps fs st')"

definition call :: "('sw \<Rightarrow> 'sw) \<Rightarrow> 'sw prep_step" where
  "call f st = Some (Inr (st\<lparr> pr_switch := f (pr_switch st) \<rparr>))"

definition DP_EXIT_ON_ERROR :: "('sw \<Rightarrow> int \<times> 'sw) \<Rightarrow> 'sw prep_step" where
  "DP_EXIT_ON_ERROR f st = (let (status, sw) = f (pr_switch st) in
     Some (if status \<noteq> 0 then Inl () else Inr (st\<lparr> pr_switch := sw \<rparr>)))"

text \<open>\<open>CLEAR_TABLE\<close>: the handles go to an array of \<open>MAX_FLOWS\<close> elements.\<close>

definition CLEAR_TABLE :: "config \<Rightarrow> 'sw pal \<Rightarrow> dp_table \<Rightarrow> 'sw prep_step" where
  "CLEAR_TABLE cfg pal tbl st =
     (let (status, n) = get_entry_count pal tbl (pr_switch st) in
      if status \<noteq> 0 then Some (Inl ())
      else if max 1 n > MAX_FLOWS cfg then None
      else
        let h = get_first_entry_handle pal tbl (pr_switch st);
            hs = (if n > 1 then h # get_next_entry_handles pal tbl h (n - 1) (pr_switch st) else [h])
        in Some (Inr (st\<lparr> pr_switch := table_reset_default_entry pal tbl (fold (table_delete pal tbl) (take n hs) (pr_switch st)) \<rparr>)))"

definition SET_ASSYM :: "'sw pal \<Rightarrow> dp_table \<Rightarrow> 'sw prep_step" where
  "SET_ASSYM pal tbl = call (set_property pal tbl)"

definition front_panel_to_devport :: "'sw pal \<Rightarrow> u8 \<Rightarrow> u8 \<Rightarrow> (int \<Rightarrow> 'sw prep_step) \<Rightarrow> 'sw prep_step" where
  "front_panel_to_devport pal port lane k st =
     (let (status, dev_port) = front_port_to_dev_port_get pal port lane in if status \<noteq> 0 then Some (Inl ()) else k dev_port st)"

definition prepare_port :: "'sw pal \<Rightarrow> port_entry_t \<Rightarrow> 'sw prep_step" where
  "prepare_port pal e = front_panel_to_devport pal (pe_port e) (pe_lane e) (\<lambda>dev_port st.
     let (status, is_internal) = is_port_internal pal dev_port (pr_switch st) in
     if status \<noteq> 0 \<or> is_internal then Some (Inl ())
     else run_steps [DP_EXIT_ON_ERROR (port_add pal dev_port (pe_speed e) (pe_fec e)), DP_EXIT_ON_ERROR (port_enable pal dev_port)] st)"

text \<open>\<open>(int16_t) to_port\<close>\<close>

definition int16 :: "int \<Rightarrow> int" where
  "int16 i = sint (word_of_int i :: 16 word)"

definition set_devport_mapping :: "int \<Rightarrow> int \<Rightarrow> 'sw prep_step" where
  "set_devport_mapping from_port to_port st =
     map_option (\<lambda>m. Inr (st\<lparr> DEVPORT_MAPPING := m \<rparr>)) (aset (DEVPORT_MAPPING st) from_port (int16 to_port))"

definition prepare_forward :: "'sw pal \<Rightarrow> forward_entry_t \<Rightarrow> 'sw prep_step" where
  "prepare_forward pal e =
     front_panel_to_devport pal (fe_from_port e) (fe_from_lane e) (\<lambda>from_port.
       front_panel_to_devport pal (fe_to_port e) (fe_to_lane e) (\<lambda>to_port.
         run_steps [set_devport_mapping from_port to_port, DP_EXIT_ON_ERROR (forward_table_add pal from_port to_port)]))"

definition reset_devport_mapping :: "'sw prep_step" where
  "reset_devport_mapping st = Some (Inr (st\<lparr> DEVPORT_MAPPING := replicate MAX_DEV_PORT_ID (- 1) \<rparr>))"

definition asymmetric_tables :: "dp_table list" where
  "asymmetric_tables = [Pkt_Count_Table, Bloom_Filter_Table 1, Bloom_Filter_Table 2, Bloom_Filter_Table 3, Bloom_Filter_Table 4,
     Add_Size_Log_Table, Add_Size_Log_Square_Table, Add_Size_Log_Cube_Table, Iat_Read_Update_Last_Timestamp_Table, Add_Iat_Log_Table,
     Add_Iat_Log_Square_Table, Add_Iat_Log_Cube_Table, Classification_Ipv4, Classification_Ipv6]"

definition cleared_tables :: "dp_table list" where
  "cleared_tables = [Forward_Table, Iat_Compute_Log_Table, Compute_Size_Log_Table, Header_Length_Table]"

definition prepare_dataplane ::
  "config \<Rightarrow> 'sw pal \<Rightarrow> log_square_entry_t list \<Rightarrow> log_square_entry_t list \<Rightarrow> nat \<Rightarrow> port_entry_t list \<Rightarrow> forward_entry_t list \<Rightarrow> 'sw prep_step" where
  "prepare_dataplane cfg pal iat_log_square size_log_square header_lengths ports forwards =
     run_steps ([call (port_del_all pal)] @ map (CLEAR_TABLE cfg pal) cleared_tables @ map (SET_ASSYM pal) asymmetric_tables @ [call (tm_set_cpuport pal)] @
       map (\<lambda>e. DP_EXIT_ON_ERROR (log_table_add pal Iat_Compute_Log_Table e)) iat_log_square @
       map (\<lambda>e. DP_EXIT_ON_ERROR (log_table_add pal Compute_Size_Log_Table e)) size_log_square @
       map (\<lambda>i. DP_EXIT_ON_ERROR (header_length_add pal i)) [0..<header_lengths] @
       map (prepare_port pal) ports @ [reset_devport_mapping] @ map (prepare_forward pal) forwards)"

section \<open>Steps\<close>

text \<open>\<open>leads I f J\<close>: from a state with \<open>I\<close> the step has a result, and it exits or establishes \<open>J\<close>.\<close>

definition leads :: "('sw prep \<Rightarrow> bool) \<Rightarrow> 'sw prep_step \<Rightarrow> ('sw prep \<Rightarrow> bool) \<Rightarrow> bool" where
  "leads I f J \<longleftrightarrow> (\<forall>st. I st \<longrightarrow> f st = Some (Inl ()) \<or> (\<exists>st'. f st = Some (Inr st') \<and> J st'))"

lemma leads_append: "leads I (run_steps fs) J \<Longrightarrow> leads J (run_steps gs) K \<Longrightarrow> leads I (run_steps (fs @ gs)) K"
proof -
  have "run_steps (fs @ gs) st = (case run_steps fs st of None \<Rightarrow> None | Some (Inl u) \<Rightarrow> Some (Inl u) | Some (Inr st') \<Rightarrow> run_steps gs st')" for st
    by (induction fs arbitrary: st) (auto split: option.split sum.split)
  then show "leads I (run_steps fs) J \<Longrightarrow> leads J (run_steps gs) K \<Longrightarrow> leads I (run_steps (fs @ gs)) K"
    unfolding leads_def by (metis (no_types, lifting) option.simps(5) sum.simps(5,6))
qed

lemma leads_single: "leads I f J \<Longrightarrow> leads I (run_steps [f]) J"
  unfolding leads_def by fastforce

lemma leads_map: "(\<And>x. x \<in> set xs \<Longrightarrow> leads I (f x) I) \<Longrightarrow> leads I (run_steps (map f xs)) I"
proof (induction xs)
  case (Cons x xs)
  have "leads I (run_steps ([f x] @ map f xs)) I"
    by (rule leads_append [of _ _ I]) (use Cons leads_single in auto)
  then show ?case by (simp del: run_steps.simps)
qed (simp add: leads_def)

section \<open>The contract of the driver\<close>

text \<open>
  What the code relies on: \<open>fwd\<close> is the contents of the forwarding table, as a list of entries (handle, ingress port, egress port). Ports have 9 bits, the
  handles of the table can be enumerated, a delete removes the entry of a handle, an add succeeds only for a new ingress port, and nothing else changes
  the table.
\<close>

type_synonym 'sw forwarding = "'sw \<Rightarrow> (int \<times> int \<times> int) list"

definition pal_ok :: "'sw pal \<Rightarrow> 'sw forwarding \<Rightarrow> bool" where
  "pal_ok pal fwd \<longleftrightarrow>
     (\<forall>port lane d. front_port_to_dev_port_get pal port lane = (0, d) \<longrightarrow> 0 \<le> d \<and> d < int MAX_DEV_PORT_ID) \<and>
     (\<forall>sw n. get_entry_count pal Forward_Table sw = (0, n) \<longrightarrow> n = length (fwd sw)) \<and>
     (\<forall>sw. fwd sw \<noteq> [] \<longrightarrow> get_first_entry_handle pal Forward_Table sw = fst (hd (fwd sw))) \<and>
     (\<forall>sw n. fwd sw \<noteq> [] \<longrightarrow> get_next_entry_handles pal Forward_Table (fst (hd (fwd sw))) n sw = map fst (take n (tl (fwd sw)))) \<and>
     (\<forall>h sw. fwd (table_delete pal Forward_Table h sw) = filter (\<lambda>e. fst e \<noteq> h) (fwd sw)) \<and>
     (\<forall>p q sw s sw'. forward_table_add pal p q sw = (s, sw') \<longrightarrow> s = 0 \<longrightarrow>
        (\<forall>e \<in> set (fwd sw). fst (snd e) \<noteq> p) \<and> (\<exists>h. fwd sw' = fwd sw @ [(h, p, q)])) \<and>
     (\<forall>tbl h sw. tbl \<noteq> Forward_Table \<longrightarrow> fwd (table_delete pal tbl h sw) = fwd sw) \<and>
     (\<forall>tbl sw. fwd (table_reset_default_entry pal tbl sw) = fwd sw) \<and>
     (\<forall>tbl sw. fwd (set_property pal tbl sw) = fwd sw) \<and>
     (\<forall>tbl e sw. fwd (snd (log_table_add pal tbl e sw)) = fwd sw) \<and>
     (\<forall>i sw. fwd (snd (header_length_add pal i sw)) = fwd sw) \<and>
     (\<forall>p a b sw. fwd (snd (port_add pal p a b sw)) = fwd sw) \<and>
     (\<forall>p sw. fwd (snd (port_enable pal p sw)) = fwd sw) \<and>
     (\<forall>sw. fwd (tm_set_cpuport pal sw) = fwd sw)"

text \<open>The tables that are cleared have no more entries than the array for their handles.\<close>

definition capacities_ok :: "config \<Rightarrow> 'sw pal \<Rightarrow> bool" where
  "capacities_ok cfg pal \<longleftrightarrow> 0 < MAX_FLOWS cfg \<and> (\<forall>tbl \<in> set cleared_tables. \<forall>sw. snd (get_entry_count pal tbl sw) \<le> MAX_FLOWS cfg)"

lemma pal_okD:
  assumes "pal_ok pal fwd"
  shows "front_port_to_dev_port_get pal port lane = (0, d) \<Longrightarrow> 0 \<le> d \<and> d < int MAX_DEV_PORT_ID"
    and "get_entry_count pal Forward_Table sw = (0, n) \<Longrightarrow> n = length (fwd sw)"
    and "fwd sw \<noteq> [] \<Longrightarrow> get_first_entry_handle pal Forward_Table sw = fst (hd (fwd sw))"
    and "fwd sw \<noteq> [] \<Longrightarrow> get_next_entry_handles pal Forward_Table (fst (hd (fwd sw))) n sw = map fst (take n (tl (fwd sw)))"
    and "fwd (table_delete pal Forward_Table h sw) = filter (\<lambda>e. fst e \<noteq> h) (fwd sw)"
    and "forward_table_add pal p q sw = (0, sw') \<Longrightarrow> (\<forall>e \<in> set (fwd sw). fst (snd e) \<noteq> p) \<and> (\<exists>h. fwd sw' = fwd sw @ [(h, p, q)])"
  using assms unfolding pal_ok_def by simp_all

lemma pal_ok_frame:
  assumes "pal_ok pal fwd"
  shows "tbl \<noteq> Forward_Table \<Longrightarrow> fwd (table_delete pal tbl h sw) = fwd sw" "fwd (table_reset_default_entry pal tbl sw) = fwd sw"
    "fwd (set_property pal tbl sw) = fwd sw" "fwd (snd (log_table_add pal tbl e sw)) = fwd sw" "fwd (snd (header_length_add pal i sw)) = fwd sw"
    "fwd (snd (port_add pal p a b sw)) = fwd sw" "fwd (snd (port_enable pal p sw)) = fwd sw" "fwd (tm_set_cpuport pal sw) = fwd sw"
  using assms unfolding pal_ok_def by simp_all

section \<open>The steps of the preparation\<close>

definition cleared :: "'sw forwarding \<Rightarrow> 'sw prep \<Rightarrow> bool" where
  "cleared fwd st \<longleftrightarrow> fwd (pr_switch st) = []"

lemma exit_on_error_keeps: "(\<And>sw. fwd (snd (f sw)) = fwd sw) \<Longrightarrow> leads (cleared fwd) (DP_EXIT_ON_ERROR f) (cleared fwd)"
  by (auto simp: leads_def cleared_def DP_EXIT_ON_ERROR_def case_prod_beta Let_def)

lemma call_keeps: "(\<And>sw. fwd (f sw) = fwd sw) \<Longrightarrow> leads (cleared fwd) (call f) (cleared fwd)"
  by (simp add: leads_def cleared_def call_def)

lemma fold_delete:
  assumes "pal_ok pal fwd"
  shows "fwd (fold (table_delete pal tbl) hs sw) = (if tbl = Forward_Table then filter (\<lambda>e. fst e \<notin> set hs) (fwd sw) else fwd sw)"
  by (induction hs arbitrary: sw) (simp_all add: pal_okD(5) [OF assms] pal_ok_frame(1) [OF assms])

lemma clear_table_total:
  assumes "capacities_ok cfg pal" "tbl \<in> set cleared_tables"
  shows "CLEAR_TABLE cfg pal tbl st = Some (Inl ()) \<or>
    (\<exists>n. get_entry_count pal tbl (pr_switch st) = (0, n) \<and>
       CLEAR_TABLE cfg pal tbl st = Some (Inr (st\<lparr> pr_switch := table_reset_default_entry pal tbl (fold (table_delete pal tbl)
         (take n (let h = get_first_entry_handle pal tbl (pr_switch st) in
            if n > 1 then h # get_next_entry_handles pal tbl h (n - 1) (pr_switch st) else [h])) (pr_switch st)) \<rparr>)))"
proof -
  obtain s n where c: "get_entry_count pal tbl (pr_switch st) = (s, n)" by (metis surj_pair)
  with assms have "max 1 n \<le> MAX_FLOWS cfg" unfolding capacities_ok_def by (metis Suc_leI max.bounded_iff One_nat_def snd_conv)
  with c show ?thesis by (cases "s = 0") (auto simp: CLEAR_TABLE_def Let_def)
qed

lemma clear_forward:
  assumes "pal_ok pal fwd" "capacities_ok cfg pal"
  shows "leads (\<lambda>_. True) (CLEAR_TABLE cfg pal Forward_Table) (cleared fwd)"
  unfolding leads_def
proof (intro allI impI)
  fix st :: "'a prep"
  let ?sw = "pr_switch st"
  have "Forward_Table \<in> set cleared_tables" by (simp add: cleared_tables_def)
  from clear_table_total [OF assms(2) this, of st] show
    "CLEAR_TABLE cfg pal Forward_Table st = Some (Inl ()) \<or> (\<exists>st'. CLEAR_TABLE cfg pal Forward_Table st = Some (Inr st') \<and> cleared fwd st')"
  proof
    assume "\<exists>n. get_entry_count pal Forward_Table ?sw = (0, n) \<and>
       CLEAR_TABLE cfg pal Forward_Table st = Some (Inr (st\<lparr> pr_switch := table_reset_default_entry pal Forward_Table (fold (table_delete pal Forward_Table)
         (take n (let h = get_first_entry_handle pal Forward_Table ?sw in
            if n > 1 then h # get_next_entry_handles pal Forward_Table h (n - 1) ?sw else [h])) ?sw) \<rparr>))"
    then obtain n where n: "get_entry_count pal Forward_Table ?sw = (0, n)" and
      r: "CLEAR_TABLE cfg pal Forward_Table st = Some (Inr (st\<lparr> pr_switch := table_reset_default_entry pal Forward_Table (fold (table_delete pal Forward_Table)
         (take n (let h = get_first_entry_handle pal Forward_Table ?sw in
            if n > 1 then h # get_next_entry_handles pal Forward_Table h (n - 1) ?sw else [h])) ?sw) \<rparr>))" by blast
    from pal_okD(2) [OF assms(1) n] have len: "n = length (fwd ?sw)" .
    have "take n (let h = get_first_entry_handle pal Forward_Table ?sw in
        if n > 1 then h # get_next_entry_handles pal Forward_Table h (n - 1) ?sw else [h]) = map fst (fwd ?sw)"
    proof (cases "fwd ?sw")
      case (Cons e es)
      with pal_okD(3,4) [OF assms(1), of ?sw] len show ?thesis by (cases es) (simp_all add: Let_def)
    qed (simp add: len)
    with r show ?thesis
      by (auto simp: cleared_def pal_ok_frame(2) [OF assms(1)] fold_delete [OF assms(1)] filter_empty_conv)
  qed blast
qed

lemma clear_other:
  assumes "pal_ok pal fwd" "capacities_ok cfg pal" "tbl \<in> set cleared_tables" "tbl \<noteq> Forward_Table"
  shows "leads (cleared fwd) (CLEAR_TABLE cfg pal tbl) (cleared fwd)"
  unfolding leads_def
proof (intro allI impI)
  fix st :: "'a prep"
  assume "cleared fwd st"
  with clear_table_total [OF assms(2,3), of st] assms(4)
  show "CLEAR_TABLE cfg pal tbl st = Some (Inl ()) \<or> (\<exists>st'. CLEAR_TABLE cfg pal tbl st = Some (Inr st') \<and> cleared fwd st')"
    by (auto simp: cleared_def pal_ok_frame(2) [OF assms(1)] fold_delete [OF assms(1)])
qed

lemma prepare_port_keeps:
  assumes "pal_ok pal fwd"
  shows "leads (cleared fwd) (prepare_port pal e) (cleared fwd)"
proof -
  let ?steps = "\<lambda>d. [DP_EXIT_ON_ERROR (port_add pal d (pe_speed e) (pe_fec e)), DP_EXIT_ON_ERROR (port_enable pal d)]"
  have "leads (cleared fwd) (run_steps (?steps d)) (cleared fwd)" for d
    using leads_append [of "cleared fwd" "[hd (?steps d)]" "cleared fwd" "tl (?steps d)" "cleared fwd"]
      leads_single [OF exit_on_error_keeps [of fwd "port_add pal d (pe_speed e) (pe_fec e)", OF pal_ok_frame(6) [OF assms]]]
      leads_single [OF exit_on_error_keeps [of fwd "port_enable pal d", OF pal_ok_frame(7) [OF assms]]] by simp
  then show ?thesis
    unfolding leads_def prepare_port_def front_panel_to_devport_def by (simp add: case_prod_beta Let_def)
qed

section \<open>The port map\<close>

text \<open>\<open>port_map_ok\<close>: the port map has an entry exactly for the ingress ports of the forwarding table, and the same egress port.\<close>

definition port_map_ok :: "'sw forwarding \<Rightarrow> 'sw prep \<Rightarrow> bool" where
  "port_map_ok fwd st \<longleftrightarrow> devmap_ok (DEVPORT_MAPPING st) \<and>
     (\<forall>p q. 0 \<le> p \<and> p < int MAX_DEV_PORT_ID \<and> q \<noteq> - 1 \<longrightarrow>
        (DEVPORT_MAPPING st ! nat p = q \<longleftrightarrow> (p, q) \<in> snd ` set (fwd (pr_switch st))))"

lemma int16_port: "0 \<le> d \<Longrightarrow> d < int MAX_DEV_PORT_ID \<Longrightarrow> int16 d = d"
  unfolding int16_def MAX_DEV_PORT_ID_def sint_sbintrunc' by (simp add: signed_take_bit_int_eq_self)

lemma reset_mapping: "leads (cleared fwd) reset_devport_mapping (port_map_ok fwd)"
  by (auto simp: leads_def cleared_def reset_devport_mapping_def port_map_ok_def devmap_ok_def MAX_DEV_PORT_ID_def)

lemma forward_step:
  assumes P: "pal_ok pal fwd" and d: "0 \<le> p" "p < int MAX_DEV_PORT_ID" "0 \<le> q" "q < int MAX_DEV_PORT_ID"
  shows "leads (port_map_ok fwd) (run_steps [set_devport_mapping p q, DP_EXIT_ON_ERROR (forward_table_add pal p q)]) (port_map_ok fwd)"
  unfolding leads_def
proof (intro allI impI)
  fix st :: "'a prep"
  assume ok: "port_map_ok fwd st"
  let ?m = "DEVPORT_MAPPING st" and ?m' = "(DEVPORT_MAPPING st)[nat p := q]"
  let ?run = "run_steps [set_devport_mapping p q, DP_EXIT_ON_ERROR (forward_table_add pal p q)] st"
  from ok have len: "length ?m = MAX_DEV_PORT_ID" by (simp add: port_map_ok_def devmap_ok_def)
  then have s: "set_devport_mapping p q st = Some (Inr (st\<lparr> DEVPORT_MAPPING := ?m' \<rparr>))"
    using d by (simp add: set_devport_mapping_def aset_Some int16_port)
  obtain r sw where a: "forward_table_add pal p q (pr_switch st) = (r, sw)" by (metis surj_pair)
  show "?run = Some (Inl ()) \<or> (\<exists>st'. ?run = Some (Inr st') \<and> port_map_ok fwd st')"
  proof (cases "r = 0")
    case True
    from pal_okD(6) [OF P] a True obtain h where f: "\<forall>e \<in> set (fwd (pr_switch st)). fst (snd e) \<noteq> p" "fwd sw = fwd (pr_switch st) @ [(h, p, q)]" by blast
    have "devmap_ok ?m'" using ok d by (auto simp: port_map_ok_def devmap_ok_def dest!: set_update_subset_insert [THEN subsetD])
    moreover have "(?m' ! nat p' = q' \<longleftrightarrow> (p', q') \<in> snd ` set (fwd sw))" if p': "0 \<le> p'" "p' < int MAX_DEV_PORT_ID" "q' \<noteq> - 1" for p' q'
    proof (cases "p' = p")
      case True
      moreover have "(p, q') \<notin> snd ` set (fwd (pr_switch st))" using f(1) by force
      ultimately show ?thesis using len d f(2) by auto
    next
      case False
      then have "nat p' \<noteq> nat p" using p'(1) d(1) by simp
      with ok p' False f(2) show ?thesis by (auto simp: port_map_ok_def)
    qed
    ultimately have "port_map_ok fwd (st\<lparr> DEVPORT_MAPPING := ?m', pr_switch := sw \<rparr>)" by (simp add: port_map_ok_def)
    then show ?thesis using s a True by (simp add: DP_EXIT_ON_ERROR_def)
  next
    case False
    then show ?thesis using s a by (simp add: DP_EXIT_ON_ERROR_def)
  qed
qed

lemma forward_keeps:
  assumes "pal_ok pal fwd"
  shows "leads (port_map_ok fwd) (prepare_forward pal e) (port_map_ok fwd)"
proof -
  obtain s p where p: "front_port_to_dev_port_get pal (fe_from_port e) (fe_from_lane e) = (s, p)" by (metis surj_pair)
  obtain s' q where q: "front_port_to_dev_port_get pal (fe_to_port e) (fe_to_lane e) = (s', q)" by (metis surj_pair)
  show ?thesis
  proof (cases "s = 0 \<and> s' = 0")
    case True
    with pal_okD(1) [OF assms] p q have "0 \<le> p" "p < int MAX_DEV_PORT_ID" "0 \<le> q" "q < int MAX_DEV_PORT_ID" by blast+
    from forward_step [OF assms this] p q True show ?thesis
      by (simp add: leads_def prepare_forward_def front_panel_to_devport_def del: run_steps.simps)
  next
    case False
    with p q show ?thesis by (auto simp: leads_def prepare_forward_def front_panel_to_devport_def)
  qed
qed

lemma prepare_leads:
  assumes P: "pal_ok pal fwd" and C: "capacities_ok cfg pal"
  shows "leads (\<lambda>_. True) (prepare_dataplane cfg pal iat sizes n ports forwards) (port_map_ok fwd)"
proof -
  let ?I = "cleared fwd"
  have tables: "leads (\<lambda>_. True) (run_steps (map (CLEAR_TABLE cfg pal) cleared_tables)) ?I"
  proof -
    have "leads ?I (run_steps (map (CLEAR_TABLE cfg pal) (tl cleared_tables))) ?I"
      by (rule leads_map, rule clear_other [OF P C]) (auto simp: cleared_tables_def)
    from leads_append [OF leads_single [OF clear_forward [OF P C]] this] show ?thesis
      by (simp add: cleared_tables_def del: run_steps.simps)
  qed
  have first: "leads (\<lambda>_. True) (run_steps [call (port_del_all pal)]) (\<lambda>_. True)" by (simp add: leads_def call_def)
  have asym: "leads ?I (run_steps (map (SET_ASSYM pal) asymmetric_tables)) ?I"
    by (rule leads_map) (simp add: SET_ASSYM_def call_keeps pal_ok_frame(3) [OF P])
  have cpu: "leads ?I (run_steps [call (tm_set_cpuport pal)]) ?I" by (rule leads_single [OF call_keeps]) (rule pal_ok_frame(8) [OF P])
  have logs: "leads ?I (run_steps (map (\<lambda>e. DP_EXIT_ON_ERROR (log_table_add pal tbl e)) es)) ?I" for tbl es
    by (rule leads_map, rule exit_on_error_keeps, rule pal_ok_frame(4) [OF P])
  have lengths: "leads ?I (run_steps (map (\<lambda>i. DP_EXIT_ON_ERROR (header_length_add pal i)) is)) ?I" for "is"
    by (rule leads_map, rule exit_on_error_keeps, rule pal_ok_frame(5) [OF P])
  have port: "leads ?I (run_steps (map (prepare_port pal) ports)) ?I" by (rule leads_map, rule prepare_port_keeps [OF P])
  have fwds: "leads (port_map_ok fwd) (run_steps (map (prepare_forward pal) forwards)) (port_map_ok fwd)"
    by (rule leads_map, rule forward_keeps [OF P])
  show ?thesis
    unfolding prepare_dataplane_def
    by (intro leads_append [OF first] leads_append [OF tables] leads_append [OF asym] leads_append [OF cpu] leads_append [OF logs]
        leads_append [OF lengths] leads_append [OF port] leads_append [OF leads_single [OF reset_mapping]] fwds)
qed

section \<open>Properties\<close>

text \<open>
  C21. The preparation of the data plane ends, with \<open>exit(1)\<close> or with a port map that fulfils what the flow database relies on (every entry is a
  port of the switch or \<open>-1\<close>) and that has the same entries as the forwarding table of the switch, whatever was in the tables before.
\<close>

theorem port_map_matches_forwarding:
  assumes "pal_ok pal fwd" "capacities_ok cfg pal"
  shows "prepare_dataplane cfg pal iat_log_square size_log_square header_lengths ports forwards st = Some (Inl ()) \<or>
    (\<exists>st'. prepare_dataplane cfg pal iat_log_square size_log_square header_lengths ports forwards st = Some (Inr st') \<and>
       devmap_ok (DEVPORT_MAPPING st') \<and>
       (\<forall>p q. 0 \<le> p \<and> p < int MAX_DEV_PORT_ID \<and> q \<noteq> - 1 \<longrightarrow>
          (DEVPORT_MAPPING st' ! nat p = q \<longleftrightarrow> (p, q) \<in> snd ` set (fwd (pr_switch st')))))"
  using prepare_leads [OF assms, of iat_log_square size_log_square header_lengths ports forwards]
  unfolding leads_def port_map_ok_def by blast

text \<open>A driver that fulfils the contract: the state is the forwarding table.\<close>

definition ref_pal :: "(int \<times> int \<times> int) list pal" where
  "ref_pal = \<lparr> port_del_all = \<lambda>sw. sw,
     get_entry_count = \<lambda>tbl sw. if tbl = Forward_Table then if length sw \<le> 2 then (0, length sw) else (1, 0) else (0, 0),
     get_first_entry_handle = \<lambda>tbl sw. fst (hd sw), get_next_entry_handles = \<lambda>tbl h n sw. map fst (take n (tl sw)),
     table_delete = \<lambda>tbl h sw. if tbl = Forward_Table then filter (\<lambda>e. fst e \<noteq> h) sw else sw,
     table_reset_default_entry = \<lambda>_ sw. sw, set_property = \<lambda>_ sw. sw, tm_set_cpuport = \<lambda>sw. sw, log_table_add = \<lambda>_ _ sw. (0, sw),
     header_length_add = \<lambda>_ sw. (0, sw), front_port_to_dev_port_get = \<lambda>port lane. (0, 128 + uint port), is_port_internal = \<lambda>_ _. (0, False),
     port_add = \<lambda>_ _ _ sw. (0, sw), port_enable = \<lambda>_ sw. (0, sw),
     forward_table_add = \<lambda>p q sw. if \<exists>e \<in> set sw. fst (snd e) = p then (1, sw) else (0, sw @ [(int (length sw), p, q)]) \<rparr>"

lemma ref_pal_ok: "pal_ok ref_pal (\<lambda>sw. sw)"
proof -
  have "uint (w :: u8) < 256" for w using uint_lt2p [of w] by simp
  then have "128 + uint (w :: u8) < 512" for w by (smt (verit))
  then show ?thesis by (simp add: pal_ok_def ref_pal_def MAX_DEV_PORT_ID_def)
qed

lemma ref_capacities_ok: "capacities_ok small_config ref_pal"
  by (simp add: capacities_ok_def ref_pal_def cleared_tables_def)

lemma ref_pal_prepares:
  "\<exists>st'. prepare_dataplane small_config ref_pal [] [] 0 (port_entries 0 0) forward_entries \<lparr> pr_switch = [(7, 5, 6)], DEVPORT_MAPPING = [] \<rparr> = Some (Inr st') \<and>
     pr_switch st' = [(0, 129, 130), (1, 130, 129)]"
  by (simp add: prepare_dataplane_def call_def cleared_tables_def asymmetric_tables_def CLEAR_TABLE_def SET_ASSYM_def port_entries_def forward_entries_def
      prepare_port_def front_panel_to_devport_def DP_EXIT_ON_ERROR_def reset_devport_mapping_def prepare_forward_def set_devport_mapping_def
      ref_pal_def MAX_DEV_PORT_ID_def aset_def)

theorem port_map_matches_forwarding_witness:
  "\<exists>st'. prepare_dataplane small_config ref_pal [] [] 0 (port_entries 0 0) forward_entries \<lparr> pr_switch = [(7, 5, 6)], DEVPORT_MAPPING = [] \<rparr> = Some (Inr st') \<and>
     DEVPORT_MAPPING st' ! 129 = 130 \<and> DEVPORT_MAPPING st' ! 130 = 129"
proof -
  let ?run = "prepare_dataplane small_config ref_pal [] [] 0 (port_entries 0 0) forward_entries \<lparr> pr_switch = [(7, 5, 6)], DEVPORT_MAPPING = [] \<rparr>"
  from ref_pal_prepares obtain st' where st': "?run = Some (Inr st')" "pr_switch st' = [(0, 129, 130), (1, 130, 129)]" by blast
  from port_map_matches_forwarding [OF ref_pal_ok ref_capacities_ok, of "[]" "[]" 0 "port_entries 0 0" forward_entries
      "\<lparr> pr_switch = [(7, 5, 6)], DEVPORT_MAPPING = [] \<rparr>"] st'(1)
  have m: "\<forall>p q. 0 \<le> p \<and> p < int MAX_DEV_PORT_ID \<and> q \<noteq> - 1 \<longrightarrow> (DEVPORT_MAPPING st' ! nat p = q \<longleftrightarrow> (p, q) \<in> snd ` set (pr_switch st'))"
    by simp
  from m [rule_format, of 129 130] m [rule_format, of 130 129] st' show ?thesis by (auto simp: MAX_DEV_PORT_ID_def)
qed

end
