(* ===== verification/Dataplane_Start.thy ===== *)
theory Dataplane_Start
  imports Dataplane Prepare_Dataplane
begin

text \<open>
  The start of the data plane thread (\<^verbatim>\<open>dataplane/dataplane.c\<close>, before its loop): it connects to the switch, whose status it
  ignores, prepares the tables and the ports, and prepares the feature registers. Shown: the thread exits, or it enters its loop in a state from which
  the interleavings with the flow database are described.
\<close>

section \<open>Model\<close>

text \<open>\<open>Inl\<close> is \<open>exit(1)\<close>, \<open>None\<close> an access outside an array. The result is the port map, the registers and the state of the loop.\<close>

definition dataplane_thread_start ::
  "config \<Rightarrow> 'sw pal \<Rightarrow> 'sw sde \<Rightarrow> log_square_entry_t list \<Rightarrow> log_square_entry_t list \<Rightarrow> nat \<Rightarrow> port_entry_t list \<Rightarrow> forward_entry_t list \<Rightarrow>
    int list \<Rightarrow> feature_state \<Rightarrow> 'sw dataplane \<Rightarrow> (unit + int list \<times> feature_state \<times> 'sw dataplane) option" where
  "dataplane_thread_start cfg pal sde iat_log_square size_log_square header_lengths ports forwards devmap fs dp =
     (let (_, _, sw) = switch_connect sde (dp_switch dp);
          dp = dp\<lparr> dp_switch := sw, dp_status := 0 \<rparr>
      in case prepare_dataplane cfg pal iat_log_square size_log_square header_lengths ports forwards \<lparr> pr_switch = sw, DEVPORT_MAPPING = devmap \<rparr> of
           None \<Rightarrow> None
         | Some (Inl u) \<Rightarrow> Some (Inl u)
         | Some (Inr st) \<Rightarrow> do {
             (fs, sw) \<leftarrow> prepare_features cfg sde fs (pr_switch st);
             Some (Inr (DEVPORT_MAPPING st, fs, dp\<lparr> dp_switch := sw, dp_features := fs_features fs \<rparr>)) })"

section \<open>What the preparation leaves unchanged\<close>

text \<open>\<open>c\<close> is a part of the switch that no call of the preparation changes, such as the classification tables.\<close>

definition pal_keeps :: "'sw pal \<Rightarrow> ('sw \<Rightarrow> 'c) \<Rightarrow> bool" where
  "pal_keeps pal c \<longleftrightarrow> (\<forall>sw. c (port_del_all pal sw) = c sw) \<and> (\<forall>t h sw. c (table_delete pal t h sw) = c sw) \<and>
     (\<forall>t sw. c (table_reset_default_entry pal t sw) = c sw) \<and> (\<forall>t sw. c (set_property pal t sw) = c sw) \<and> (\<forall>sw. c (tm_set_cpuport pal sw) = c sw) \<and>
     (\<forall>t e sw. c (snd (log_table_add pal t e sw)) = c sw) \<and> (\<forall>i sw. c (snd (header_length_add pal i sw)) = c sw) \<and>
     (\<forall>p a b sw. c (snd (port_add pal p a b sw)) = c sw) \<and> (\<forall>p sw. c (snd (port_enable pal p sw)) = c sw) \<and>
     (\<forall>p q sw. c (snd (forward_table_add pal p q sw)) = c sw)"

definition sde_keeps :: "'sw sde \<Rightarrow> ('sw \<Rightarrow> 'c) \<Rightarrow> bool" where
  "sde_keeps sde c \<longleftrightarrow> (\<forall>sw. c (snd (pipe_mgr_init sde sw)) = c sw) \<and> (\<forall>sw. c (snd (snd (pipe_mgr_client_init sde sw))) = c sw) \<and>
     (\<forall>r p sw. c (snd (register_reset_all sde r p sw)) = c sw)"

definition step_keeps :: "('sw \<Rightarrow> 'c) \<Rightarrow> 'sw prep_step \<Rightarrow> bool" where
  "step_keeps c f \<longleftrightarrow> (\<forall>st st'. f st = Some (Inr st') \<longrightarrow> c (pr_switch st') = c (pr_switch st))"

lemma run_steps_keep: "\<forall>f \<in> set fs. step_keeps c f \<Longrightarrow> step_keeps c (run_steps fs)"
proof (induction fs)
  case (Cons f fs)
  then have f: "step_keeps c f" and k: "step_keeps c (run_steps fs)" by simp_all
  show ?case unfolding step_keeps_def
  proof (intro allI impI)
    fix st st' assume "run_steps (f # fs) st = Some (Inr st')"
    then obtain st1 where "f st = Some (Inr st1)" "run_steps fs st1 = Some (Inr st')" by (auto split: option.splits sum.splits)
    with f k show "c (pr_switch st') = c (pr_switch st)" unfolding step_keeps_def by metis
  qed
qed (simp add: step_keeps_def)

lemma exit_step_keeps: "(\<And>sw. c (snd (f sw)) = c sw) \<Longrightarrow> step_keeps c (DP_EXIT_ON_ERROR f)"
  unfolding step_keeps_def DP_EXIT_ON_ERROR_def by (auto split: prod.splits if_splits) (metis snd_conv)

lemma call_step_keeps: "(\<And>sw. c (f sw) = c sw) \<Longrightarrow> step_keeps c (call f)"
  unfolding step_keeps_def call_def by auto

lemma front_panel_keeps: "(\<And>d. step_keeps c (k d)) \<Longrightarrow> step_keeps c (front_panel_to_devport pal port lane k)"
  unfolding step_keeps_def front_panel_to_devport_def by (auto split: prod.splits if_splits)

lemma fold_keeps: "(\<And>x sw. c (f x sw) = c sw) \<Longrightarrow> c (fold f xs sw) = c sw"
  by (induction xs arbitrary: sw) simp_all

lemma prepare_dataplane_keeps:
  assumes "pal_keeps pal c"
  shows "step_keeps c (prepare_dataplane cfg pal iat_log_square size_log_square header_lengths ports forwards)"
proof -
  note k = assms [unfolded pal_keeps_def]
  have clear: "step_keeps c (CLEAR_TABLE cfg pal t)" for t
    using k fold_keeps [of c "table_delete pal t"] by (auto simp: step_keeps_def CLEAR_TABLE_def Let_def split: prod.splits if_splits)
  have ports: "step_keeps c (prepare_port pal e)" for e
  proof -
    have "step_keeps c (run_steps [DP_EXIT_ON_ERROR (port_add pal d (pe_speed e) (pe_fec e)), DP_EXIT_ON_ERROR (port_enable pal d)])" for d
      by (rule run_steps_keep) (use k in \<open>auto intro!: exit_step_keeps\<close>)
    then show ?thesis unfolding prepare_port_def
      by (intro front_panel_keeps) (auto simp: step_keeps_def split: prod.splits if_splits simp del: run_steps.simps)
  qed
  have "step_keeps c (set_devport_mapping p q)" for p q by (auto simp: step_keeps_def set_devport_mapping_def)
  with k have fwd: "step_keeps c (prepare_forward pal e)" for e
    unfolding prepare_forward_def by (intro front_panel_keeps run_steps_keep) (auto intro!: exit_step_keeps)
  have "step_keeps c reset_devport_mapping" by (auto simp: step_keeps_def reset_devport_mapping_def)
  with clear ports fwd k show ?thesis unfolding prepare_dataplane_def SET_ASSYM_def
    by (intro run_steps_keep) (auto intro!: exit_step_keeps call_step_keeps)
qed

section \<open>Property\<close>

definition egress_flags_ok :: "feature_register_t list \<Rightarrow> bool" where
  "egress_flags_ok rs \<longleftrightarrow> (\<forall>r \<in> set rs. on_egress r = 0 \<or> on_egress r = 1)"

lemma prepare_features_ok:
  assumes "sde_keeps sde c" "egress_flags_ok (fs_features fs)"
  shows "\<exists>fs' sw'. prepare_features cfg sde fs sw = Some (fs', sw') \<and> c sw' = c sw \<and> registers_ok cfg (fs_features fs') \<and>
    (\<forall>r \<in> set (fs_features fs'). prepared cfg r)"
proof -
  from prepare_all_ok [of "fs_features fs" c sde cfg "last_flow_update fs" sw] assms(1) obtain rs' upd' sw' where
    r: "prepare_all cfg sde (fs_features fs) (last_flow_update fs) sw = Some (rs', upd', sw')" "c sw' = c sw"
      "map on_egress rs' = map on_egress (fs_features fs)" "\<forall>r \<in> set rs'. prepared cfg r" by (auto simp: sde_keeps_def)
  from r(3) have "on_egress ` set rs' = on_egress ` set (fs_features fs)" by (metis list.set_map)
  with assms(2) have "\<forall>r \<in> set rs'. on_egress r = 0 \<or> on_egress r = 1" by (force simp: egress_flags_ok_def)
  with r show ?thesis by (auto simp: prepare_features_def registers_ok_def prepared_def)
qed

lemma switch_connect_keeps: "sde_keeps sde c \<Longrightarrow> switch_connect sde sw = (s, h, sw') \<Longrightarrow> c sw' = c sw"
  unfolding switch_connect_def sde_keeps_def by (auto simp: Let_def split: prod.splits if_splits) (metis snd_conv)+

lemma dataplane_thread_starts:
  assumes "pal_ok pal fwd" "capacities_ok cfg pal" "pal_keeps pal tab" "sde_keeps sde tab" "egress_flags_ok (fs_features fs)"
  shows "dataplane_thread_start cfg pal sde iat_log_square size_log_square header_lengths ports forwards devmap fs dp = Some (Inl ()) \<or>
    (\<exists>devmap' fs' dp'. dataplane_thread_start cfg pal sde iat_log_square size_log_square header_lengths ports forwards devmap fs dp =
       Some (Inr (devmap', fs', dp')) \<and> devmap_ok devmap' \<and> registers_ok cfg (fs_features fs') \<and> dp_features dp' = fs_features fs' \<and>
       (\<forall>r \<in> set (fs_features fs'). prepared cfg r) \<and> entry_hdls dp' = entry_hdls dp \<and> dp_status dp' = SUCCESS \<and> tab (dp_switch dp') = tab (dp_switch dp))"
proof -
  obtain s h sw where c: "switch_connect sde (dp_switch dp) = (s, h, sw)" by (metis prod_cases3)
  have t: "tab sw = tab (dp_switch dp)" using switch_connect_keeps [OF assms(4) c] .
  let ?p = "prepare_dataplane cfg pal iat_log_square size_log_square header_lengths ports forwards"
  from prepare_leads [OF assms(1,2), of iat_log_square size_log_square header_lengths ports forwards]
  consider "?p \<lparr> pr_switch = sw, DEVPORT_MAPPING = devmap \<rparr> = Some (Inl ())"
    | st where "?p \<lparr> pr_switch = sw, DEVPORT_MAPPING = devmap \<rparr> = Some (Inr st)" "devmap_ok (DEVPORT_MAPPING st)"
    unfolding leads_def port_map_ok_def by blast
  then show ?thesis
  proof cases
    case 1
    then show ?thesis by (simp add: dataplane_thread_start_def c)
  next
    case (2 st)
    have "tab (pr_switch st) = tab sw"
      using prepare_dataplane_keeps [OF assms(3)] 2(1) unfolding step_keeps_def by fastforce
    moreover from prepare_features_ok [OF assms(4,5), of cfg "pr_switch st"] obtain fs' sw' where
      "prepare_features cfg sde fs (pr_switch st) = Some (fs', sw')" "tab sw' = tab (pr_switch st)" "registers_ok cfg (fs_features fs')"
      "\<forall>r \<in> set (fs_features fs'). prepared cfg r" by blast
    ultimately show ?thesis using 2 t by (simp add: dataplane_thread_start_def c SUCCESS_def)
  qed
qed

end
