(* ===== verification/Controller.thy ===== *)
theory Controller
  imports Flow_Pipeline Dns_Monitoring Dataplane_Start
begin

text \<open>
  \<^verbatim>\<open>controller.c\<close> (the start of the controller), \<^verbatim>\<open>runtime_config/runtime_config.c\<close> and \<^verbatim>\<open>logging/statistics.c\<close>. The state
  is the static memory that the threads share. \<open>access\<close> and \<open>pthread_create\<close> are arguments, by the value they return. The initialisation of the locks
  has no counterpart.

  Shown: the states in which the threads are started are the initial states of the relations that describe their interleavings, so that the
  results on reachable states hold of the running program; the rates of the statistics thread add up to its counters.
\<close>

section \<open>Runtime configuration\<close>

definition file_exists :: "(string \<Rightarrow> int) \<Rightarrow> string \<Rightarrow> bool" where
  "file_exists access file_name \<longleftrightarrow> access file_name = 0"

definition is_enabled :: "(string \<Rightarrow> int) \<Rightarrow> string \<Rightarrow> bool" where
  "is_enabled access option_name \<longleftrightarrow> file_exists access option_name"

section \<open>Start\<close>

datatype thread = Feature_Export_Thread | Dataplane_Thread | Flowdb_Thread | Packet_Thread | Bloom_Filter_Maintenance | Dns_Db_Thread | Statistics_Thread

record controller =
  use_sessions_cached :: bool
  packet_ringbuffer :: packet_ring
  dataplane_ringbuffer :: dp_ring
  dns_ringbuffer :: "dns_item_t ringbuffer"
  flow_hashtable :: flow_hashtable_t
  session_hashtable :: session_hashtable_t
  dns_hashtable :: dns_hashtable_t
  bloom_filter :: bloom_filter_t
  threads :: "thread list" \<comment> \<open>the threads that have been started\<close>

definition load_runtime_config :: "(string \<Rightarrow> int) \<Rightarrow> controller \<Rightarrow> controller" where
  "load_runtime_config access c = c\<lparr> use_sessions_cached := \<not> is_enabled access ''controller_disable_sessions'' \<rparr>"

definition use_sessions :: "controller \<Rightarrow> bool" where
  "use_sessions c = use_sessions_cached c"

definition init_data_structures :: "config \<Rightarrow> controller \<Rightarrow> controller" where
  "init_data_structures cfg c = c
     \<lparr> packet_ringbuffer := ringbuffer_init (packet_ringbuffer c),
       dataplane_ringbuffer := ringbuffer_init (dataplane_ringbuffer c),
       dns_ringbuffer := ringbuffer_init (dns_ringbuffer c),
       flow_hashtable := flow_hashtable_init cfg,
       session_hashtable := session_hashtable_init cfg (session_hashtable c),
       dns_hashtable := dns_hashtable_init cfg,
       bloom_filter := bloom_filter_init cfg \<rparr>"

text \<open>\<open>THREAD_CREATE_OR_EXIT\<close> for each thread: \<open>Inl\<close> is \<open>exit\<close> with a status, after some threads have been started.\<close>

fun THREAD_CREATE_OR_EXIT :: "(thread \<Rightarrow> int) \<Rightarrow> thread list \<Rightarrow> controller \<Rightarrow> (int \<times> controller) + controller" where
  "THREAD_CREATE_OR_EXIT pthread_create [] c = Inr c"
| "THREAD_CREATE_OR_EXIT pthread_create (t # ts) c =
     (if pthread_create t \<noteq> 0 then Inl (1, c) else THREAD_CREATE_OR_EXIT pthread_create ts (c\<lparr> threads := threads c @ [t] \<rparr>))"

definition thread_order :: "bool \<Rightarrow> bool \<Rightarrow> thread list" where
  "thread_order USE_DNS_DB SHOW_STATISTICS =
     [Feature_Export_Thread, Dataplane_Thread, Flowdb_Thread, Packet_Thread, Bloom_Filter_Maintenance] @
     (if USE_DNS_DB then [Dns_Db_Thread] else []) @ (if SHOW_STATISTICS then [Statistics_Thread] else [])"

definition low_level_controller ::
  "config \<Rightarrow> (string \<Rightarrow> int) \<Rightarrow> (thread \<Rightarrow> int) \<Rightarrow> bool \<Rightarrow> bool \<Rightarrow> controller \<Rightarrow> (int \<times> controller) + controller" where
  "low_level_controller cfg access pthread_create USE_DNS_DB SHOW_STATISTICS c =
     THREAD_CREATE_OR_EXIT pthread_create (thread_order USE_DNS_DB SHOW_STATISTICS)
       (init_data_structures cfg (load_runtime_config access c))"

section \<open>Statistics\<close>

text \<open>\<open>READ_STAT\<close>: what is printed with \<open>%d\<close> (the counter and its increase), and the value that is remembered.\<close>

definition READ_STAT :: "u32 \<Rightarrow> u32 \<Rightarrow> (int \<times> int) \<times> u32" where
  "READ_STAT stat last_stat = ((sint stat, sint (stat - last_stat)), stat)"

text \<open>The counters that the thread reads, in its order, with the text that it prints before each.\<close>

definition statistics :: "(string \<times> string) list" where
  "statistics =
     [(''dns_ringbuffer'', ''DNS ringbuffer drop stats''), (''packet_ringbuffer'', ''packet ringbuffer drop stats''),
      (''dp_ringbuffer'', ''data plane ringbuffer drop stats''), (''packet_handler'', ''packet handler stats''), (''dnsdb'', ''DNSdb stats''),
      (''flowdb'', ''Flowdb stats''), (''dataplane_commands'', ''data plane stats''), (''dataplane_add'', ''DP add''),
      (''dataplane_remove'', ''DP remove''), (''dataplane_reset'', ''DP reset''), (''dataplane_bloom_add'', ''DP bloom set''),
      (''dataplane_bloom_remove'', ''DP bloom clear'')]"

fun read_stats :: "(string \<times> string) list \<Rightarrow> (string \<Rightarrow> u32) \<Rightarrow> (string \<Rightarrow> u32) \<Rightarrow> (string \<times> int \<times> int) list \<times> (string \<Rightarrow> u32)" where
  "read_stats [] stat last_stat = ([], last_stat)"
| "read_stats ((name, str) # xs) stat last_stat =
     (let (printed, l) = READ_STAT (stat name) (last_stat name);
          (lines, last_stat) = read_stats xs stat (last_stat(name := l))
      in ((str, printed) # lines, last_stat))"

text \<open>The turns of the thread, for the values of the counters at the successive turns.\<close>

fun statistics_thread :: "(string \<Rightarrow> u32) list \<Rightarrow> (string \<Rightarrow> u32) \<Rightarrow> (string \<times> int \<times> int) list list" where
  "statistics_thread [] last_stat = []"
| "statistics_thread (stat # stats) last_stat =
     (let (lines, last_stat) = read_stats statistics stat last_stat in lines # statistics_thread stats last_stat)"

lemma read_stats_lines:
  "distinct (map fst xs) \<Longrightarrow> read_stats xs stat l =
     (map (\<lambda>(n, str). (str, sint (stat n), sint (stat n - l n))) xs, \<lambda>n. if n \<in> fst ` set xs then stat n else l n)"
proof (induction xs arbitrary: l)
  case (Cons x xs)
  obtain n str where x: "x = (n, str)" by (cases x)
  with Cons.prems have d: "n \<notin> fst ` set xs" "distinct (map fst xs)" by auto
  let ?line = "\<lambda>l (m, s). (s, sint (stat m), sint (stat m - l m))"
  have "map (?line (l(n := stat n))) xs = map (?line l) xs"
    using d(1) by (intro map_cong) (auto simp: image_iff)
  moreover have "(\<lambda>m. if m \<in> fst ` set xs then stat m else (l(n := stat n)) m) = (\<lambda>m. if m \<in> fst ` set (x # xs) then stat m else l m)"
    by (auto simp: x fun_eq_iff)
  ultimately have "read_stats xs stat (l(n := stat n)) = (map (?line l) xs, \<lambda>m. if m \<in> fst ` set (x # xs) then stat m else l m)"
    using Cons.IH [OF d(2), of "l(n := stat n)"] by presburger
  then show ?case by (simp add: x READ_STAT_def del: fun_upd_apply)
qed simp

text \<open>The printed rates add up to the counter, modulo its width, whatever the number of turns and of wrap-arounds.\<close>

lemma statistics_rates_add_up:
  assumes "i < length statistics"
  shows "word_of_int (\<Sum>lines \<leftarrow> statistics_thread stats l. snd (snd (lines ! i))) = last (l # stats) (fst (statistics ! i)) - l (fst (statistics ! i))"
proof (induction stats arbitrary: l)
  case (Cons stat stats)
  let ?n = "fst (statistics ! i)" and ?l = "\<lambda>n. if n \<in> fst ` set statistics then stat n else l n"
  have d: "distinct (map fst statistics)" by (simp add: statistics_def)
  have "fst (statistics ! i) \<in> fst ` set statistics" using assms by simp
  then have "?l ?n = stat ?n" by simp
  moreover have "last (?l # stats) ?n = last (stat # stats) ?n" using \<open>?l ?n = stat ?n\<close> by (cases stats) simp_all
  ultimately show ?case
    using Cons.IH [of ?l] assms by (simp add: read_stats_lines [OF d] split_beta)
qed simp

section \<open>The threads' views of the memory\<close>

text \<open>What the compiler and the loader guarantee of static memory: the sizes of the arrays, and zeros.\<close>

definition static_memory :: "config \<Rightarrow> controller \<Rightarrow> bool" where
  "static_memory cfg c \<longleftrightarrow> length (rb_data (packet_ringbuffer c)) = PACKET_RINGBUFFER_SIZE cfg \<and>
     length (rb_data (dataplane_ringbuffer c)) = DATAPLANE_RINGBUFFER_SIZE cfg \<and>
     length (rb_data (dns_ringbuffer c)) = DNS_RINGBUFFER_SIZE cfg \<and>
     flow_count (session_hashtable c) = replicate (FEATURE_SIZE cfg) 0 \<and> threads c = []"

definition flow_db_of :: "controller \<Rightarrow> flow_db" where
  "flow_db_of c = \<lparr> flow_id_heap = [], session_id_heap = [], db_flows = flow_hashtable c, db_sessions = session_hashtable c,
     db_bloom = bloom_filter c, db_ring = dataplane_ringbuffer c, uuid_mapping = [], flowdb_stat = 0 \<rparr>"

definition monitor_of :: "controller \<Rightarrow> monitor" where
  "monitor_of c =
     (\<lparr> ph_flows = flow_hashtable c, ph_dns = dns_hashtable c, ph_packets = packet_ringbuffer c, ph_replies = dns_ringbuffer c, packet_handler_stat = 0 \<rparr>,
      \<lparr> dd_table = dns_hashtable c, dns_pipe = [], dnsdb_stat = 0 \<rparr>)"

lemma threads_started:
  "\<forall>t \<in> set ts. pthread_create t = 0 \<Longrightarrow> THREAD_CREATE_OR_EXIT pthread_create ts c = Inr (c\<lparr> threads := threads c @ ts \<rparr>)"
  by (induction ts arbitrary: c) auto

lemma thread_fails:
  "\<exists>t \<in> set ts. pthread_create t \<noteq> 0 \<Longrightarrow>
     THREAD_CREATE_OR_EXIT pthread_create ts c = Inl (1, c\<lparr> threads := threads c @ takeWhile (\<lambda>t. pthread_create t = 0) ts \<rparr>)"
  by (induction ts arbitrary: c) auto

lemma boot_views:
  assumes "static_memory cfg c" "c' = (init_data_structures cfg (load_runtime_config access c))\<lparr> threads := ts \<rparr>"
  shows "flow_db_of c' = boot_db cfg (ringbuffer_init (dataplane_ringbuffer c))"
    "monitor_of c' =
      (\<lparr> ph_flows = flow_hashtable_init cfg, ph_dns = dns_hashtable_init cfg, ph_packets = ringbuffer_init (packet_ringbuffer c),
         ph_replies = ringbuffer_init (dns_ringbuffer c), packet_handler_stat = 0 \<rparr>,
       \<lparr> dd_table = dns_hashtable_init cfg, dns_pipe = [], dnsdb_stat = 0 \<rparr>)"
  using assms
  by (simp_all add: flow_db_of_def monitor_of_def boot_db_def init_data_structures_def load_runtime_config_def static_memory_def
      boot_session_table_def session_hashtable_init_def)

text \<open>The initial state of the flow database and of the monitor.\<close>

lemma initial_states:
  assumes "cfg_ok cfg" "static_memory cfg c" "c' = (init_data_structures cfg (load_runtime_config access c))\<lparr> threads := ts \<rparr>"
  obtains db ring where "flowdb_start cfg (flow_db_of c') = Some db" "flow_db_of c' = boot_db cfg ring"
    "rb_inv (DATAPLANE_RINGBUFFER_SIZE cfg) ring" "rb_items (DATAPLANE_RINGBUFFER_SIZE cfg) ring = []" "monitor_reachable cfg names ns ntop (monitor_of c')"
proof -
  note v = boot_views [OF assms(2,3)]
  have d: "rb_inv (DATAPLANE_RINGBUFFER_SIZE cfg) (ringbuffer_init (dataplane_ringbuffer c))"
    and p: "rb_inv (PACKET_RINGBUFFER_SIZE cfg) (ringbuffer_init (packet_ringbuffer c))"
    and r: "rb_inv (DNS_RINGBUFFER_SIZE cfg) (ringbuffer_init (dns_ringbuffer c))"
    using assms(1,2) by (auto simp: cfg_ok_def static_memory_def intro: rb_inv_init)
  from flowdb_start_ok [OF assms(1) d] obtain db where f: "flowdb_start cfg (boot_db cfg (ringbuffer_init (dataplane_ringbuffer c))) = Some db"
    by blast
  moreover have "monitor_reachable cfg names ns ntop (monitor_of c')"
    using monitor_reachable.Start [OF p rb_items_init r] v(2) by simp
  ultimately show thesis using that v(1) d rb_items_init by metis
qed

text \<open>
  C22. The start of the controller. When every thread can be created, all of them have been started in the order of the code, sessions are used unless
  the file \<open>controller_disable_sessions\<close> exists, the packet handler and the DNS database are in an initial state of the monitor, the start of the flow
  database succeeds, and the start of the data plane thread exits or returns a well-formed port map and prepared registers; the two threads are then in
  an initial state of the pipeline, if the classification tables of the switch were empty. When a thread cannot be created, the program exits with
  status 1 with the threads before it running.
\<close>

theorem controller_starts:
  assumes "cfg_ok cfg" "static_memory cfg c"
    and "pal_ok pal fwd" "capacities_ok cfg pal" "pal_keeps pal tab" "sde_keeps sde tab" "egress_flags_ok (fs_features fs)"
    and "length (entry_hdls dp) = FEATURE_SIZE cfg" "tab (dp_switch dp) = Map.empty"
  shows "(\<exists>t c'. t \<in> set (thread_order dns stats) \<and> pthread_create t \<noteq> 0 \<and>
        low_level_controller cfg access pthread_create dns stats c = Inl (1, c') \<and>
        threads c' = takeWhile (\<lambda>t. pthread_create t = 0) (thread_order dns stats)) \<or>
    (\<forall>t \<in> set (thread_order dns stats). pthread_create t = 0) \<and>
      (\<exists>c' db. low_level_controller cfg access pthread_create dns stats c = Inr c' \<and> threads c' = thread_order dns stats \<and>
        (use_sessions c' \<longleftrightarrow> access ''controller_disable_sessions'' \<noteq> 0) \<and> monitor_reachable cfg names ns ntop (monitor_of c') \<and>
        flowdb_start cfg (flow_db_of c') = Some db \<and>
        (let start = dataplane_thread_start cfg pal sde iat_log_square size_log_square header_lengths ports forwards devmap fs dp in
         start = Some (Inl ()) \<or>
         (\<exists>devmap' fs' dp'. start = Some (Inr (devmap', fs', dp')) \<and> devmap_ok devmap' \<and> (\<forall>r \<in> set (fs_features fs'). prepared cfg r) \<and>
            orderly_reachable cfg (use_sessions c') devmap' PF PS sde tab (db, dp'))))"
proof (cases "\<forall>t \<in> set (thread_order dns stats). pthread_create t = 0")
  case True
  let ?c = "init_data_structures cfg (load_runtime_config access c)"
  let ?c' = "?c\<lparr> threads := thread_order dns stats \<rparr>"
  have "threads ?c = []" using assms(2) by (simp add: init_data_structures_def load_runtime_config_def static_memory_def)
  then have l: "low_level_controller cfg access pthread_create dns stats c = Inr ?c'"
    using threads_started [OF True, of ?c] by (simp add: low_level_controller_def)
  have u: "use_sessions ?c' \<longleftrightarrow> access ''controller_disable_sessions'' \<noteq> 0"
    by (simp add: use_sessions_def init_data_structures_def load_runtime_config_def is_enabled_def file_exists_def)
  from initial_states [OF assms(1,2) refl] obtain db ring where
    i: "flowdb_start cfg (flow_db_of ?c') = Some db" "flow_db_of ?c' = boot_db cfg ring" "rb_inv (DATAPLANE_RINGBUFFER_SIZE cfg) ring"
      "rb_items (DATAPLANE_RINGBUFFER_SIZE cfg) ring = []" and m: "monitor_reachable cfg names ns ntop (monitor_of ?c')" .
  have "orderly_reachable cfg us devmap' PF PS sde tab (db, dp')"
    if "entry_hdls dp' = entry_hdls dp" "registers_ok cfg (dp_features dp')" "dp_status dp' = SUCCESS" "tab (dp_switch dp') = tab (dp_switch dp)"
    for us devmap' dp'
    using that i assms(8,9) by (intro pipeline_reachable.Start) simp_all
  with dataplane_thread_starts [OF assms(3-7), of iat_log_square size_log_square header_lengths ports forwards devmap dp]
  have "let start = dataplane_thread_start cfg pal sde iat_log_square size_log_square header_lengths ports forwards devmap fs dp in
         start = Some (Inl ()) \<or>
         (\<exists>devmap' fs' dp'. start = Some (Inr (devmap', fs', dp')) \<and> devmap_ok devmap' \<and> (\<forall>r \<in> set (fs_features fs'). prepared cfg r) \<and>
            orderly_reachable cfg (use_sessions ?c') devmap' PF PS sde tab (db, dp'))"
    by fastforce
  with l u i(1) m True show ?thesis by (intro disjI2 conjI exI [of _ ?c'] exI [of _ db]) simp_all
next
  case False
  then obtain t where t: "t \<in> set (thread_order dns stats)" "pthread_create t \<noteq> 0" by blast
  let ?c = "init_data_structures cfg (load_runtime_config access c)"
  have "threads ?c = []" using assms(2) by (simp add: init_data_structures_def load_runtime_config_def static_memory_def)
  moreover from t have "\<exists>t \<in> set (thread_order dns stats). pthread_create t \<noteq> 0" by blast
  from thread_fails [OF this, of ?c] have "low_level_controller cfg access pthread_create dns stats c =
     Inl (1, ?c\<lparr> threads := threads ?c @ takeWhile (\<lambda>t. pthread_create t = 0) (thread_order dns stats) \<rparr>)"
    by (simp add: low_level_controller_def)
  ultimately show ?thesis using t by auto
qed

text \<open>A switch that only has a forwarding table, and whose classification tables refuse every entry.\<close>

definition forwarding_sde :: "(int \<times> int \<times> int) list sde" where
  "forwarding_sde = \<lparr> pipe_mgr_init = \<lambda>sw. (0, sw), pipe_mgr_client_init = \<lambda>sw. (0, 1, sw), pipe_mgr_client_cleanup = \<lambda>_ sw. (0, sw),
     ipv4_table_add = \<lambda>_ _ _ sw. (1, 0, sw), ipv6_table_add = \<lambda>_ _ _ sw. (1, 0, sw),
     ipv4_table_delete = \<lambda>_ sw. (1, sw), ipv6_table_delete = \<lambda>_ sw. (1, sw), write_bloom_filter = \<lambda>_ _ _ _ sw. (0, sw),
     write_last_timestamp = \<lambda>_ _ _ sw. (0, sw), register_reset_all = \<lambda>_ _ sw. (0, sw),
     stful_database_sync = \<lambda>_ sw. (0, sw), register_range_read = \<lambda>_ xs sw. (0, xs, sw) \<rparr>"

definition idle_dataplane :: "(int \<times> int \<times> int) list dataplane" where
  "idle_dataplane = \<lparr> dp_switch = [(7, 5, 6)], entry_hdls = replicate 8 0, dp_features = [], dp_status = 0, dp_errors = [],
     dataplane_commands_stat = 0, dataplane_add_stat = 0, dataplane_remove_stat = 0, dataplane_reset_stat = 0,
     dataplane_bloom_add_stat = 0, dataplane_bloom_remove_stat = 0 \<rparr>"

definition example_controller :: controller where
  "example_controller = \<lparr> use_sessions_cached = True, packet_ringbuffer = empty_ring 4 (PKT_TIMEOUT_FLOW 0),
     dataplane_ringbuffer = empty_ring 3 (DP_ADD_BLOOM_FILTER [] 0), dns_ringbuffer = empty_ring 3 undefined,
     flow_hashtable = flow_hashtable_init small_config, session_hashtable = boot_session_table small_config,
     dns_hashtable = dns_hashtable_init small_config, bloom_filter = bloom_filter_init small_config, threads = [] \<rparr>"

theorem controller_starts_witness:
  "\<exists>c' db. low_level_controller small_config (\<lambda>_. 0) (\<lambda>_. 0) True True example_controller = Inr c' \<and> \<not> use_sessions c' \<and>
     length (threads c') = 7 \<and> flowdb_start small_config (flow_db_of c') = Some db \<and>
     (dataplane_thread_start small_config ref_pal forwarding_sde [] [] 0 (port_entries 0 0) forward_entries []
        \<lparr> fs_features = features small_config (\<lambda>_. 1), last_flow_update = [] \<rparr> idle_dataplane = Some (Inl ()) \<or>
      (\<exists>devmap dp. orderly_reachable small_config False devmap (\<lambda>_. 0) (\<lambda>_. 0) forwarding_sde (\<lambda>_. Map.empty) (db, dp)))"
proof -
  have m: "static_memory small_config example_controller"
    by (simp add: static_memory_def example_controller_def empty_ring_def ringbuffer_init_def boot_session_table_def session_hashtable_init_def)
  let ?fs = "\<lparr> fs_features = features small_config (\<lambda>_. 1), last_flow_update = [] \<rparr>"
  have k: "pal_keeps ref_pal (\<lambda>_. Map.empty)" "sde_keeps forwarding_sde (\<lambda>_. Map.empty)" "egress_flags_ok (fs_features ?fs)"
    "length (entry_hdls idle_dataplane) = FEATURE_SIZE small_config" "(\<lambda>_. Map.empty) (dp_switch idle_dataplane) = Map.empty"
    by (simp_all add: pal_keeps_def sde_keeps_def egress_flags_ok_def features_def mk_register_def idle_dataplane_def)
  from controller_starts [OF cfg_ok_small m ref_pal_ok ref_capacities_ok k, where pthread_create = "\<lambda>_. 0" and access = "\<lambda>_. 0" and dns = True and stats = True
      and devmap = "[]" and PF = "\<lambda>_. 0" and PS = "\<lambda>_. 0" and names = "[]" and ns = "undefined :: unit resolver" and ntop = "\<lambda>_ _. []"
      and iat_log_square = "[]" and size_log_square = "[]" and header_lengths = 0 and ports = "port_entries 0 0" and forwards = forward_entries]
  obtain c' db where "low_level_controller small_config (\<lambda>_. 0) (\<lambda>_. 0) True True example_controller = Inr c'"
    "threads c' = thread_order True True" "\<not> use_sessions c'" "flowdb_start small_config (flow_db_of c') = Some db"
    "dataplane_thread_start small_config ref_pal forwarding_sde [] [] 0 (port_entries 0 0) forward_entries [] ?fs idle_dataplane = Some (Inl ()) \<or>
      (\<exists>devmap dp. orderly_reachable small_config False devmap (\<lambda>_. 0) (\<lambda>_. 0) forwarding_sde (\<lambda>_. Map.empty) (db, dp))"
    unfolding Let_def by auto blast
  then show ?thesis by (auto simp: thread_order_def)
qed

end
