(* ===== verification/Export.thy ===== *)
theory Export
  imports Features Session_Hashtable
begin

text \<open>
  \<^verbatim>\<open>export/export_features.c\<close>: the thread that prints the features of every session to a pipe, as text (the branch
  without \<open>EXPORT_NUMPY\<close>). What is written is a string; \<open>ntop\<close> is \<open>inet_ntop\<close>, \<open>debug\<close> tells whether \<open>DEBUG\<close> is defined, and the clock
  values are arguments. \<open>None\<close> is a read outside an array.

  Shown: the text can be read back to one row per session, with its client, its counters and its
  feature values; the names of the first line are one column off.
\<close>

section \<open>Model\<close>

text \<open>The conversions of \<open>printf\<close>: \<open>%d\<close>, \<open>%lu\<close> and \<open>%09ld\<close>.\<close>

fun digits :: "nat \<Rightarrow> string" where
  "digits n = (if n < 10 then [char_of (48 + n)] else digits (n div 10) @ [char_of (48 + n mod 10)])"

declare digits.simps [simp del]

definition dec :: "int \<Rightarrow> string" where
  "dec i = (if i < 0 then CHR ''-'' # digits (nat (- i)) else digits (nat i))"

definition zero_pad :: "nat \<Rightarrow> string \<Rightarrow> string" where
  "zero_pad n s = replicate (n - length s) CHR ''0'' @ s"

definition newline :: char where "newline = CHR 0x0A"

definition print_session_five_tuple ::
  "(l3_proto_t \<Rightarrow> address_t \<Rightarrow> string) \<Rightarrow> bool \<Rightarrow> five_tuple_t \<Rightarrow> int \<Rightarrow> int \<Rightarrow> string" where
  "print_session_five_tuple ntop debug ft session_id fcount =
     (let client = (if to_server (ft_sh ft) then ntop (l3_proto (ft_h ft)) (src_addr (ft_h ft)) else ntop (l3_proto (ft_h ft)) (dst_addr (ft_h ft)))
      in client @ '';'' @ dec (if to_server (ft_sh ft) then 1 else 0) @ '';'' @ dec (uint (ingress_ts ft)) @ '';'' @ dec fcount @ '';'' @
         (if debug then dec session_id @ '';'' @ dec (uint (dev_port ft)) @ '';'' else []))"

fun print_names :: "feature_register_t list \<Rightarrow> string" where
  "print_names [] = []"
| "print_names (r # rs) = fr_name r @ '';'' @ print_names rs"

definition print_header :: "bool \<Rightarrow> int \<Rightarrow> int \<Rightarrow> feature_register_t list \<Rightarrow> string" where
  "print_header debug tv_sec tv_nsec rs =
     dec tv_sec @ ''.'' @ zero_pad 9 (dec tv_nsec) @ [newline] @
     ''uuid;clientIP;toServer;firstPacketDPTs;flowCount;'' @ (if debug then ''session_id;dev_port;'' else []) @ print_names rs @ [newline]"

fun print_values :: "int \<Rightarrow> int \<Rightarrow> feature_register_t list \<Rightarrow> string option" where
  "print_values session_id offset [] = Some []"
| "print_values session_id offset (r # rs) =
     do { v \<leftarrow> aget (fr_values r) (session_id + on_egress r * offset);
          s \<leftarrow> print_values session_id offset rs;
          Some (dec (uint v) @ '';'' @ s) }"

text \<open>One turn of the loop over the sessions, and the loop over the indices \<open>is\<close>.\<close>

definition print_session ::
  "(l3_proto_t \<Rightarrow> address_t \<Rightarrow> string) \<Rightarrow> bool \<Rightarrow> session_hashtable_t \<Rightarrow> feature_register_t list \<Rightarrow> nat \<Rightarrow> string option" where
  "print_session ntop debug t rs i =
     do { entry_index \<leftarrow> aget (session_feature_index_to_entry_map t) (int i);
          if entry_index = - 1 then Some []
          else do {
            e \<leftarrow> aget (sh_entries t) entry_index;
            let session_id = e_value e;
            let ft = e_key e;
            fcount \<leftarrow> aget (flow_count t) session_id;
            vs \<leftarrow> print_values session_id (session_id_egress_offset ft) rs;
            Some (print_session_five_tuple ntop debug ft session_id fcount @ vs @ [newline]) } }"

fun print_sessions ::
  "(l3_proto_t \<Rightarrow> address_t \<Rightarrow> string) \<Rightarrow> bool \<Rightarrow> session_hashtable_t \<Rightarrow> feature_register_t list \<Rightarrow> nat list \<Rightarrow> string option" where
  "print_sessions ntop debug t rs [] = Some []"
| "print_sessions ntop debug t rs (i # is) =
     do { s \<leftarrow> print_session ntop debug t rs i; ss \<leftarrow> print_sessions ntop debug t rs is; Some (s @ ss) }"

definition print_flow_data ::
  "config \<Rightarrow> (l3_proto_t \<Rightarrow> address_t \<Rightarrow> string) \<Rightarrow> bool \<Rightarrow> session_hashtable_t \<Rightarrow> feature_register_t list \<Rightarrow> string option" where
  "print_flow_data cfg ntop debug t rs =
     do { s \<leftarrow> print_sessions ntop debug t rs [MIN_SESSION_ID..<FEATURE_SIZE cfg]; Some (s @ [newline]) }"

text \<open>
  The thread: it polls the monotonic clock until the condition of the inner loop holds, reads the registers, copies the session table and prints. The
  readings of the clock are a list of pairs (seconds, nanoseconds); the wait is \<open>None\<close> while none of them is due.
\<close>

record export_thread =
  et_last :: "int \<times> int"
  hashtable_copy :: session_hashtable_t
  et_file :: string

definition export_due :: "int \<times> int \<Rightarrow> int \<times> int \<Rightarrow> bool" where
  "export_due now last_read \<longleftrightarrow> fst now > fst last_read \<and> snd now \<ge> snd last_read"

fun export_poll :: "(int \<times> int) list \<Rightarrow> int \<times> int \<Rightarrow> (int \<times> int) option" where
  "export_poll [] last_read = None"
| "export_poll (now # clock) last_read = (if export_due now last_read then Some now else export_poll clock last_read)"

text \<open>One turn of the endless loop; \<open>Some None\<close> when no reading was due. \<open>tv\<close> is the real-time clock, \<open>ts\<close> the time that the ageing reads.\<close>

definition feature_export_turn ::
  "config \<Rightarrow> 'sw sde \<Rightarrow> (l3_proto_t \<Rightarrow> address_t \<Rightarrow> string) \<Rightarrow> bool \<Rightarrow> (int \<times> int) list \<Rightarrow> int \<times> int \<Rightarrow> u32 \<Rightarrow> session_hashtable_t \<Rightarrow>
    feature_state \<Rightarrow> packet_ring \<Rightarrow> 'sw \<Rightarrow> export_thread \<Rightarrow> (export_thread \<times> feature_state \<times> packet_ring \<times> 'sw) option option" where
  "feature_export_turn cfg sde ntop debug clock tv ts sessions fs ring sw th =
     (case export_poll clock (et_last th) of None \<Rightarrow> Some None | Some now \<Rightarrow>
        do { (fs, ring, sw) \<leftarrow> read_features cfg sde ts sessions fs ring sw;
             let th = th\<lparr> et_last := now, hashtable_copy := session_hashtable_copy (hashtable_copy th) sessions,
                          et_file := et_file th @ print_header debug (fst tv) (snd tv) (fs_features fs) \<rparr>;
             s \<leftarrow> print_flow_data cfg ntop debug (hashtable_copy th) (fs_features fs);
             Some (Some (th\<lparr> et_file := et_file th @ s \<rparr>, fs, ring, sw)) })"

section \<open>Reading numbers back\<close>

definition undigits :: "string \<Rightarrow> nat" where
  "undigits s = foldl (\<lambda>n c. 10 * n + (of_char c - 48)) 0 s"

definition undec :: "string \<Rightarrow> int" where
  "undec s = (case s of [] \<Rightarrow> 0 | c # cs \<Rightarrow> if c = CHR ''-'' then - int (undigits cs) else int (undigits s))"

lemma digit_char: "d < 10 \<Longrightarrow> of_char (char_of (48 + d) :: char) = (48 + d :: nat)"
  by (simp add: of_char_of)

lemma undigits_digits [simp]: "undigits (digits n) = n"
proof (induction n rule: digits.induct)
  case (1 n)
  then show ?case
    by (subst digits.simps) (auto simp: undigits_def digit_char)
qed

lemma digits_chars: "c \<in> set (digits n) \<Longrightarrow> 48 \<le> (of_char c :: nat) \<and> (of_char c :: nat) < 58"
proof (induction n rule: digits.induct)
  case (1 n)
  from "1.prems" "1.IH" show ?case by (subst (asm) digits.simps) (auto simp: digit_char split: if_splits)
qed

lemma digits_no [simp]:
  "CHR '';'' \<notin> set (digits n)" "newline \<notin> set (digits n)" "CHR ''-'' \<notin> set (digits n)" "digits n \<noteq> []"
proof -
  have "of_char CHR '';'' = (59 :: nat)" "of_char newline = (10 :: nat)" "of_char CHR ''-'' = (45 :: nat)"
    by (simp_all add: newline_def)
  then show "CHR '';'' \<notin> set (digits n)" "newline \<notin> set (digits n)" "CHR ''-'' \<notin> set (digits n)"
    using digits_chars [of "CHR '';''" n] digits_chars [of newline n] digits_chars [of "CHR ''-''" n] by linarith+
  show "digits n \<noteq> []" by (subst digits.simps) simp
qed

lemma undec_dec [simp]: "undec (dec i) = i"
proof (cases "i < 0")
  case True
  then show ?thesis by (simp add: undec_def dec_def)
next
  case False
  obtain c cs where c: "digits (nat i) = c # cs" using digits_no(4) by (cases "digits (nat i)") auto
  then have "c \<noteq> CHR ''-''" using digits_no(3) [of "nat i"] by auto
  with False c show ?thesis using undigits_digits [of "nat i"] by (simp add: undec_def dec_def)
qed

lemma dec_no [simp]: "CHR '';'' \<notin> set (dec i)" "newline \<notin> set (dec i)"
  by (auto simp: dec_def newline_def [symmetric]) (simp add: newline_def)

section \<open>Lines and cells\<close>

fun split_on :: "char \<Rightarrow> string \<Rightarrow> string list" where
  "split_on c [] = [[]]"
| "split_on c (x # xs) = (if x = c then [] # split_on c xs else (x # hd (split_on c xs)) # tl (split_on c xs))"

lemma split_on_append: "c \<notin> set s \<Longrightarrow> split_on c (s @ c # t) = s # split_on c t"
  by (induction s) auto

definition terminated :: "char \<Rightarrow> string list \<Rightarrow> string" where
  "terminated c ss = concat (map (\<lambda>s. s @ [c]) ss)"

lemma terminated_simps [simp]:
  "terminated c [] = []" "terminated c (s # ss) = s @ c # terminated c ss" "terminated c (ss @ ts) = terminated c ss @ terminated c ts"
  by (simp_all add: terminated_def)

lemma split_terminated: "\<forall>s \<in> set ss. c \<notin> set s \<Longrightarrow> split_on c (terminated c ss @ t) = ss @ split_on c t"
  by (induction ss) (auto simp: split_on_append)

lemma set_terminated: "set (terminated c ss) \<subseteq> insert c (\<Union> (set ` set ss))"
  by (induction ss) auto

section \<open>Rows\<close>

text \<open>
  A row as a reader of the file has it, the row that stands for a session, and the reader. \<open>cells\<close> are the strings between the semicolons.
\<close>

record export_row =
  er_client :: string
  er_to_server :: int
  er_ts :: int
  er_flow_count :: int
  er_debug :: "int list" \<comment> \<open>session id and device port, if printed\<close>
  er_values :: "int list"

definition client_of :: "(l3_proto_t \<Rightarrow> address_t \<Rightarrow> string) \<Rightarrow> five_tuple_t \<Rightarrow> string" where
  "client_of ntop ft = ntop (l3_proto (ft_h ft)) (if to_server (ft_sh ft) then src_addr (ft_h ft) else dst_addr (ft_h ft))"

definition session_entry :: "session_hashtable_t \<Rightarrow> nat \<Rightarrow> session_hashtable_entry_t" where
  "session_entry t i = sh_entries t ! nat (session_feature_index_to_entry_map t ! i)"

definition feature_value :: "session_hashtable_entry_t \<Rightarrow> feature_register_t \<Rightarrow> int" where
  "feature_value e r = uint (fr_values r ! nat (e_value e + on_egress r * session_id_egress_offset (e_key e)))"

definition row_of :: "(l3_proto_t \<Rightarrow> address_t \<Rightarrow> string) \<Rightarrow> bool \<Rightarrow> session_hashtable_t \<Rightarrow> feature_register_t list \<Rightarrow> nat \<Rightarrow> export_row" where
  "row_of ntop debug t rs i = (let e = session_entry t i; ft = e_key e in
     \<lparr> er_client = client_of ntop ft, er_to_server = (if to_server (ft_sh ft) then 1 else 0), er_ts = uint (ingress_ts ft),
       er_flow_count = flow_count t ! i, er_debug = (if debug then [int i, uint (dev_port ft)] else []), er_values = map (feature_value e) rs \<rparr>)"

definition row_cells :: "export_row \<Rightarrow> string list" where
  "row_cells r = er_client r # map dec ([er_to_server r, er_ts r, er_flow_count r] @ er_debug r @ er_values r)"

definition parse_row :: "bool \<Rightarrow> string \<Rightarrow> export_row" where
  "parse_row debug line = (let cells = butlast (split_on CHR '';'' line); ns = map undec (tl cells); n = (if debug then 5 else 3) in
     \<lparr> er_client = hd cells, er_to_server = ns ! 0, er_ts = ns ! 1, er_flow_count = ns ! 2, er_debug = drop 3 (take n ns), er_values = drop n ns \<rparr>)"

definition parse_rows :: "bool \<Rightarrow> string \<Rightarrow> export_row list" where
  "parse_rows debug file = map (parse_row debug) (takeWhile (\<lambda>l. l \<noteq> []) (split_on newline file))"

text \<open>\<open>inet_ntop\<close> writes digits, colons and points only.\<close>

definition ntop_ok :: "(l3_proto_t \<Rightarrow> address_t \<Rightarrow> string) \<Rightarrow> bool" where
  "ntop_ok ntop \<longleftrightarrow> (\<forall>p a. CHR '';'' \<notin> set (ntop p a) \<and> newline \<notin> set (ntop p a))"

definition session_in :: "session_hashtable_t \<Rightarrow> nat \<Rightarrow> bool" where
  "session_in t i \<longleftrightarrow> session_feature_index_to_entry_map t ! i \<noteq> - 1"

lemma session_entry_ok:
  assumes "session_table_inv cfg us t" "i < FEATURE_SIZE cfg" "session_in t i"
  shows "aget (sh_entries t) (session_feature_index_to_entry_map t ! i) = Some (session_entry t i)" "e_value (session_entry t i) = int i"
    "0 \<le> int i + session_id_egress_offset (e_key (session_entry t i))"
    "int i + session_id_egress_offset (e_key (session_entry t i)) < int (FEATURE_SIZE cfg)"
    "session_entry t i \<in># elems (sh_entries t)"
proof -
  note D = session_table_invD [OF assms(1)]
  from index_map_ok_slot [OF D(3) assms(2)] assms(3) obtain j where
    j: "j < length (sh_entries t)" "occ (sh_entries t) j" "e_value (sh_entries t ! j) = int i" "session_feature_index_to_entry_map t ! i = int j"
    by (auto simp: session_in_def)
  then have e: "session_entry t i = sh_entries t ! j" by (simp add: session_entry_def)
  have m: "sh_entries t ! j \<in># elems (sh_entries t)" using j(1,2) by (auto simp: elems_def)
  from j e m D(4) show "aget (sh_entries t) (session_feature_index_to_entry_map t ! i) = Some (session_entry t i)"
    "e_value (session_entry t i) = int i" "0 \<le> int i + session_id_egress_offset (e_key (session_entry t i))"
    "int i + session_id_egress_offset (e_key (session_entry t i)) < int (FEATURE_SIZE cfg)" "session_entry t i \<in># elems (sh_entries t)"
    by (auto simp: egress_ok_def)
qed

lemma print_values_ok:
  assumes "0 \<le> e_value e" "e_value e < int (FEATURE_SIZE cfg)" "0 \<le> e_value e + session_id_egress_offset (e_key e)"
    "e_value e + session_id_egress_offset (e_key e) < int (FEATURE_SIZE cfg)"
  shows "registers_ok cfg rs \<Longrightarrow>
    print_values (e_value e) (session_id_egress_offset (e_key e)) rs = Some (terminated CHR '';'' (map (\<lambda>r. dec (feature_value e r)) rs))"
proof (induction rs)
  case (Cons r rs)
  have "registers_ok cfg rs" using Cons.prems by (simp add: registers_ok_def)
  moreover have "aget (fr_values r) (e_value e + on_egress r * session_id_egress_offset (e_key e)) =
      Some (fr_values r ! nat (e_value e + on_egress r * session_id_egress_offset (e_key e)))"
    using Cons.prems assms by (intro aget_Some) (auto simp: registers_ok_def)
  ultimately show ?case using Cons.IH by (simp add: feature_value_def)
qed simp

lemma print_session_ok:
  assumes "session_table_inv cfg us t" "registers_ok cfg rs" "i < FEATURE_SIZE cfg"
  shows "print_session ntop debug t rs i =
    Some (if session_in t i then terminated CHR '';'' (row_cells (row_of ntop debug t rs i)) @ [newline] else [])"
proof (cases "session_in t i")
  case True
  note e = session_entry_ok [OF assms(1,3) True]
  have l: "length (session_feature_index_to_entry_map t) = FEATURE_SIZE cfg" "length (flow_count t) = FEATURE_SIZE cfg"
    using session_table_invD(3,9) [OF assms(1)] by (auto simp: index_map_ok_def)
  have "print_values (int i) (session_id_egress_offset (e_key (session_entry t i))) rs =
      Some (terminated CHR '';'' (map (\<lambda>r. dec (feature_value (session_entry t i) r)) rs))"
    using print_values_ok [of "session_entry t i" cfg rs] e assms(2,3) by simp
  with True e(1,2) l assms(3) show ?thesis
    by (simp add: print_session_def session_in_def print_session_five_tuple_def row_of_def row_cells_def client_of_def Let_def o_def
        newline_def)
next
  case False
  have "length (session_feature_index_to_entry_map t) = FEATURE_SIZE cfg"
    using session_table_invD(3) [OF assms(1)] by (auto simp: index_map_ok_def)
  with False assms(3) show ?thesis by (simp add: print_session_def session_in_def)
qed

lemma print_sessions_ok:
  assumes "session_table_inv cfg us t" "registers_ok cfg rs"
  shows "set is \<subseteq> {..<FEATURE_SIZE cfg} \<Longrightarrow> print_sessions ntop debug t rs is =
    Some (terminated newline (map (\<lambda>i. terminated CHR '';'' (row_cells (row_of ntop debug t rs i))) (filter (session_in t) is)))"
  by (induction "is") (simp_all add: print_session_ok [OF assms])

lemma row_cells_no:
  assumes "ntop_ok ntop" "s \<in> set (row_cells (row_of ntop debug t rs i))"
  shows "CHR '';'' \<notin> set s" "newline \<notin> set s"
  using assms by (auto simp: row_cells_def row_of_def client_of_def ntop_ok_def Let_def)

lemma parse_row_cells:
  assumes "ntop_ok ntop"
  shows "parse_row debug (terminated CHR '';'' (row_cells (row_of ntop debug t rs i))) = row_of ntop debug t rs i"
proof -
  let ?r = "row_of ntop debug t rs i"
  have "split_on CHR '';'' (terminated CHR '';'' (row_cells ?r)) = row_cells ?r @ [[]]"
    using split_terminated [of "row_cells ?r" "CHR '';''" "[]"] row_cells_no(1) [OF assms] by simp
  moreover have "er_debug ?r = (if debug then [int i, uint (dev_port (e_key (session_entry t i)))] else [])" by (simp add: row_of_def Let_def)
  ultimately show ?thesis
    by (cases debug) (simp_all add: parse_row_def row_cells_def Let_def o_def numeral_eq_Suc)
qed

lemma lines_of_rows:
  assumes "ntop_ok ntop"
  shows "takeWhile (\<lambda>l. l \<noteq> []) (split_on newline (terminated newline
      (map (\<lambda>i. terminated CHR '';'' (row_cells (row_of ntop debug t rs i))) is) @ [newline])) =
    map (\<lambda>i. terminated CHR '';'' (row_cells (row_of ntop debug t rs i))) is"
proof -
  let ?line = "\<lambda>i. terminated CHR '';'' (row_cells (row_of ntop debug t rs i))"
  have n: "newline \<notin> set (?line i)" for i
  proof
    assume "newline \<in> set (?line i)"
    with set_terminated [of "CHR '';''" "row_cells (row_of ntop debug t rs i)"] row_cells_no(2) [OF assms] show False
      by (auto simp: newline_def)
  qed
  have e: "?line i \<noteq> []" for i by (simp add: row_cells_def)
  have "split_on newline (terminated newline (map ?line is) @ [newline]) = map ?line is @ [[], []]"
    using split_terminated [of "map ?line is" newline "[newline]"] n by auto
  then show ?thesis using e by simp (subst takeWhile_append2, auto)
qed

lemma parse_rows_ok:
  assumes "ntop_ok ntop"
  shows "parse_rows debug (terminated newline (map (\<lambda>i. terminated CHR '';'' (row_cells (row_of ntop debug t rs i))) is) @ [newline]) =
    map (row_of ntop debug t rs) is"
  by (simp add: parse_rows_def lines_of_rows [OF assms] parse_row_cells [OF assms] o_def)

lemma session_in_iff:
  assumes "session_table_inv cfg us t" "i < FEATURE_SIZE cfg"
  shows "session_in t i \<longleftrightarrow> int i \<in> ran (session_map us t)"
    and "session_map us t c = Some (int i) \<Longrightarrow> session_key_of us t c = Some (e_key (session_entry t i))"
proof -
  note D = session_table_invD [OF assms(1)]
  have entry: "session_in t i \<and> tmap (session_key us) (sh_entries t) c' = Some (e_key (session_entry t i), int i)"
    if c: "session_map us t c' = Some (int i)" for c'
  proof -
    from c obtain k where k: "tmap (session_key us) (sh_entries t) c' = Some (k, int i)" by (auto simp: session_map_def)
    then obtain e where e: "e \<in># elems (sh_entries t)" "e_key e = k" "e_value e = int i"
      using tmap_Some_iff [OF D(7)] by blast
    then obtain j where j: "j < length (sh_entries t)" "occ (sh_entries t) j" "sh_entries t ! j = e"
      by (auto simp: elems_def in_set_conv_nth)
    with index_map_ok_entry [OF D(3), of j] e(3) have "session_feature_index_to_entry_map t ! i = int j" by simp
    with j(3) e(2) k show ?thesis by (simp add: session_in_def session_entry_def)
  qed
  show "session_key_of us t c = Some (e_key (session_entry t i))" if "session_map us t c = Some (int i)"
    using entry [OF that] by (simp add: session_key_of_def)
  show "session_in t i \<longleftrightarrow> int i \<in> ran (session_map us t)"
  proof
    assume s: "session_in t i"
    note e = session_entry_ok [OF assms s]
    then have "tmap (session_key us) (sh_entries t) (session_key us (e_key (session_entry t i))) = Some (e_key (session_entry t i), int i)"
      using tmap_Some_iff [OF D(7)] by blast
    then show "int i \<in> ran (session_map us t)" by (auto simp: ran_def session_map_def)
  qed (use entry in \<open>auto simp: ran_def\<close>)
qed

section \<open>Properties\<close>

text \<open>
  Printing never leaves an array, and reading the lines and cells of the text again gives one row
  for each session of the table, in the order of the session ids, with the client, the direction, the first timestamp, the flow count and, for each
  feature, the value at the session's id (shifted by the session's egress offset for a feature that is read on egress).
\<close>

lemma export_rows_ok:
  assumes "session_table_inv cfg us t" "registers_ok cfg rs" "ntop_ok ntop"
  shows "\<exists>s. print_flow_data cfg ntop debug t rs = Some s \<and>
    parse_rows debug s = map (row_of ntop debug t rs) (filter (\<lambda>i. int i \<in> ran (session_map us t)) [MIN_SESSION_ID..<FEATURE_SIZE cfg]) \<and>
    (\<forall>i c. MIN_SESSION_ID \<le> i \<longrightarrow> i < FEATURE_SIZE cfg \<longrightarrow> session_map us t c = Some (int i) \<longrightarrow>
      session_key_of us t c = Some (e_key (session_entry t i)))"
proof -
  let ?is = "[MIN_SESSION_ID..<FEATURE_SIZE cfg]"
  have f: "filter (session_in t) ?is = filter (\<lambda>i. int i \<in> ran (session_map us t)) ?is"
    using session_in_iff(1) [OF assms(1)] by (intro filter_cong) auto
  have "set ?is \<subseteq> {..<FEATURE_SIZE cfg}" by auto
  from print_sessions_ok [OF assms(1,2) this, of ntop debug] parse_rows_ok [OF assms(3), of debug t rs] session_in_iff(2) [OF assms(1)]
  show ?thesis by (simp add: print_flow_data_def f)
qed

definition example_ntop :: "l3_proto_t \<Rightarrow> address_t \<Rightarrow> string" where
  "example_ntop p a = ''10.0.0.1''"

lemma example_export:
  "\<exists>t. session_table_inv small_config False t \<and> session_map False t = [session_key False (example_key 1) \<mapsto> 4]"
  "registers_ok small_config (features small_config (\<lambda>_. 0))" "ntop_ok example_ntop"
proof -
  note b = boot_session_table_inv [OF cfg_ok_small, of False]
  have "session_id_free small_config (session_map False (boot_session_table small_config)) (example_key 1) 4"
    by (simp add: session_id_free_def b(2) example_key_def zero_five_tuple_def)
  from session_add_new [OF b(1) session_table_never_full [OF b(1)] _ this] b(2)
  show "\<exists>t. session_table_inv small_config False t \<and> session_map False t = [session_key False (example_key 1) \<mapsto> 4]" by auto
qed (simp_all add: registers_ok_def features_def mk_register_def ntop_ok_def example_ntop_def newline_def)

lemma export_poll_due:
  "\<exists>now \<in> set clock. export_due now l \<Longrightarrow> \<exists>now. export_poll clock l = Some now \<and> now \<in> set clock \<and> export_due now l"
  by (induction clock) auto

lemma round_registers_ok:
  "list_all2 (round_ok cfg) rs rs' \<Longrightarrow> registers_ok cfg rs \<Longrightarrow> registers_ok cfg rs'"
proof (induction rs rs' rule: list_all2_induct)
  case (Cons r rs r' rs')
  from Cons(1) have "length (fr_values r') = FEATURE_SIZE cfg" "on_egress r' = on_egress r"
    using feature_ok_buffers(5) [of cfg r'] by (simp_all add: round_ok_def)
  moreover have "registers_ok cfg rs" "on_egress r = 0 \<or> on_egress r = 1" using Cons.prems by (auto simp: registers_ok_def)
  ultimately show ?case using Cons.IH by (auto simp: registers_ok_def)
qed (simp add: registers_ok_def)

text \<open>
  C20. As soon as a clock reading is due, a turn of the export thread ends without leaving an array and appends a header and a block of rows to the file.
  The block can be read back: reading its lines and cells again gives one row for each session of the table, in the order of the session ids, with the
  client, the direction, the first timestamp, the flow count and the feature totals of the session as they are after this turn's reading of the
  registers.
\<close>

theorem export_turn_roundtrip:
  assumes "fs_features fs = r # rs" "\<forall>r \<in> set (fs_features fs). feature_ok cfg r" "driver_reads cfg sde"
    and "process_register r = Process_And_Age" "\<forall>r \<in> set rs. process_register r = Process"
    and "session_table_inv cfg us sessions" "length (last_flow_update fs) = FEATURE_SIZE cfg"
    and "rb_inv (PACKET_RINGBUFFER_SIZE cfg) ring"
    and "registers_ok cfg (fs_features fs)" "ntop_ok ntop" "\<exists>now \<in> set clock. export_due now (et_last th)"
  shows "\<exists>th' fs' ring' sw' s. feature_export_turn cfg sde ntop debug clock tv ts sessions fs ring sw th = Some (Some (th', fs', ring', sw')) \<and>
    export_due (et_last th') (et_last th) \<and> list_all2 (round_ok cfg) (fs_features fs) (fs_features fs') \<and>
    et_file th' = et_file th @ print_header debug (fst tv) (snd tv) (fs_features fs') @ s \<and>
    parse_rows debug s = map (row_of ntop debug sessions (fs_features fs'))
      (filter (\<lambda>i. int i \<in> ran (session_map us sessions)) [MIN_SESSION_ID..<FEATURE_SIZE cfg])"
proof -
  from export_poll_due [OF assms(11)] obtain now where p: "export_poll clock (et_last th) = Some now" "export_due now (et_last th)" by blast
  from read_features_ok [OF assms(1-8), of ts sw] obtain fs' ring' sw' where
    r: "read_features cfg sde ts sessions fs ring sw = Some (fs', ring', sw')" "list_all2 (round_ok cfg) (fs_features fs) (fs_features fs')" by blast
  from export_rows_ok [OF assms(6) round_registers_ok [OF r(2) assms(9)] assms(10), of debug] obtain s where
    "print_flow_data cfg ntop debug sessions (fs_features fs') = Some s"
    "parse_rows debug s = map (row_of ntop debug sessions (fs_features fs'))
      (filter (\<lambda>i. int i \<in> ran (session_map us sessions)) [MIN_SESSION_ID..<FEATURE_SIZE cfg])" by blast
  with p r show ?thesis by (simp add: feature_export_turn_def session_hashtable_copy_def)
qed

theorem export_turn_roundtrip_witness:
  "\<exists>sessions th' fs' ring' sw'. feature_export_turn (small_config\<lparr> PACKET_RINGBUFFER_SIZE := 16 \<rparr>) (counter_sde (\<lambda>k. replicate 8 1)) example_ntop False
     [(3, 8), (4, 7), (5, 9)] (1, 2) 100 sessions \<lparr> fs_features = [example_register], last_flow_update = replicate 8 0 \<rparr>
     (empty_ring 16 (PKT_TIMEOUT_FLOW 0)) 0 \<lparr> et_last = (3, 8), hashtable_copy = sessions, et_file = [] \<rparr> = Some (Some (th', fs', ring', sw')) \<and>
     et_last th' = (5, 9)"
proof -
  let ?cfg = "small_config\<lparr> PACKET_RINGBUFFER_SIZE := 16 \<rparr>" and ?clock = "[(3, 8), (4, 7), (5, 9)] :: (int \<times> int) list"
  let ?fs = "\<lparr> fs_features = [example_register], last_flow_update = replicate 8 0 \<rparr>" and ?t = "boot_session_table (small_config\<lparr> PACKET_RINGBUFFER_SIZE := 16 \<rparr>)"
  let ?th = "\<lparr> et_last = (3, 8), hashtable_copy = ?t, et_file = [] \<rparr>"
  have F: "FEATURE_SIZE ?cfg = 8" by (simp add: FEATURE_SIZE_def NUM_PIPES_def)
  have "cfg_ok ?cfg" using cfg_ok_small by (simp add: cfg_ok_def FLOW_HASHTABLE_SIZE_def)
  then have t: "session_table_inv ?cfg True ?t" by (rule boot_session_table_inv)
  have d: "driver_reads ?cfg (counter_sde (\<lambda>k. replicate 8 1))" by (simp add: driver_reads_def counter_sde_def F)
  have r: "\<forall>r \<in> set (fs_features ?fs). feature_ok ?cfg r" using example_register_simps(1) by (simp add: feature_ok_def F)
  have q: "rb_inv (PACKET_RINGBUFFER_SIZE ?cfg) (empty_ring 16 (PKT_TIMEOUT_FLOW 0))" by (simp add: empty_ring_inv)
  have k: "registers_ok ?cfg (fs_features ?fs)" by (simp add: registers_ok_def example_register_def prepare_feature_def mk_register_def F)
  have c: "\<exists>now \<in> set ?clock. export_due now (et_last ?th)" by (simp add: export_due_def)
  from export_turn_roundtrip [of ?fs example_register "[]" ?cfg, OF _ r d _ _ t _ q k example_export(3) c, of False "(1, 2)" 100 0]
  obtain th' fs' ring' sw' where e: "feature_export_turn ?cfg (counter_sde (\<lambda>k. replicate 8 1)) example_ntop False ?clock (1, 2) 100 ?t ?fs
     (empty_ring 16 (PKT_TIMEOUT_FLOW 0)) 0 ?th = Some (Some (th', fs', ring', sw'))"
    by (auto simp: example_register_simps F)
  moreover from e have "et_last th' = (5, 9)"
    by (auto simp: feature_export_turn_def export_due_def Let_def split: bind_splits)
  ultimately show ?thesis by blast
qed

lemma print_names_terminated: "print_names rs = terminated CHR '';'' (map fr_name rs)"
  by (induction rs) simp_all

definition feature_names_ok :: "feature_register_t list \<Rightarrow> bool" where
  "feature_names_ok rs \<longleftrightarrow> (\<forall>r \<in> set rs. CHR '';'' \<notin> set (fr_name r) \<and> newline \<notin> set (fr_name r))"

definition header_cells :: "bool \<Rightarrow> feature_register_t list \<Rightarrow> string list" where
  "header_cells debug rs = [''uuid'', ''clientIP'', ''toServer'', ''firstPacketDPTs'', ''flowCount''] @
     (if debug then [''session_id'', ''dev_port''] else []) @ map fr_name rs"

lemma header_lines:
  assumes "feature_names_ok rs"
  shows "split_on newline (print_header debug sec nsec rs) ! 1 = terminated CHR '';'' (header_cells debug rs)"
proof -
  let ?first = "dec sec @ ''.'' @ zero_pad 9 (dec nsec)"
  have c: "\<forall>s \<in> set (header_cells debug rs). newline \<notin> set s"
    using assms by (auto simp: header_cells_def feature_names_ok_def newline_def)
  then have n: "newline \<notin> set (terminated CHR '';'' (header_cells debug rs))"
    using set_terminated [of "CHR '';''" "header_cells debug rs"] by (auto simp: newline_def)
  have f: "newline \<notin> set ?first" by (auto simp: zero_pad_def) (simp_all add: newline_def)
  have "print_header debug sec nsec rs = terminated newline [?first, terminated CHR '';'' (header_cells debug rs)]"
    by (cases debug) (simp_all add: print_header_def print_names_terminated header_cells_def)
  moreover have "split_on newline (terminated newline [?first, terminated CHR '';'' (header_cells debug rs)] @ []) =
      [?first, terminated CHR '';'' (header_cells debug rs)] @ split_on newline []"
    using f n by (intro split_terminated) simp
  ultimately show ?thesis by simp
qed

lemma split_header:
  assumes "feature_names_ok rs"
  shows "split_on CHR '';'' (terminated CHR '';'' (header_cells debug rs)) = header_cells debug rs @ [[]]"
proof -
  have "\<forall>s \<in> set (header_cells debug rs). CHR '';'' \<notin> set s"
    using assms by (auto simp: header_cells_def feature_names_ok_def)
  from split_terminated [OF this, of "[]"] show ?thesis by simp
qed

text \<open>
  The line of names is one column off: it starts with \<open>uuid\<close>, which no row has, so that it has one cell more than every row, and every value stands
  under the name of the column before its own.
\<close>

theorem export_header_misaligned:
  assumes "session_table_inv cfg us t" "registers_ok cfg rs" "ntop_ok ntop" "feature_names_ok rs"
    and "print_flow_data cfg ntop debug t rs = Some s" "line \<in> set (takeWhile (\<lambda>l. l \<noteq> []) (split_on newline s))"
  shows "let cells = split_on CHR '';''; names = cells (split_on newline (print_header debug tv_sec tv_nsec rs) ! 1) in
    hd names = ''uuid'' \<and> length names = length (cells line) + 1"
proof -
  let ?is = "filter (session_in t) [MIN_SESSION_ID..<FEATURE_SIZE cfg]" and ?line = "\<lambda>i. terminated CHR '';'' (row_cells (row_of ntop debug t rs i))"
  have "set [MIN_SESSION_ID..<FEATURE_SIZE cfg] \<subseteq> {..<FEATURE_SIZE cfg}" by auto
  from print_sessions_ok [OF assms(1,2) this, of ntop debug] assms(5) have "s = terminated newline (map ?line ?is) @ [newline]"
    by (simp add: print_flow_data_def)
  with assms(6) lines_of_rows [OF assms(3), of debug t rs ?is] obtain i where l: "line = ?line i" by auto
  have "split_on CHR '';'' line = row_cells (row_of ntop debug t rs i) @ [[]]"
    unfolding l using split_terminated [of "row_cells (row_of ntop debug t rs i)" "CHR '';''" "[]"] row_cells_no(1) [OF assms(3)] by simp
  then show ?thesis
    unfolding Let_def header_lines [OF assms(4)] split_header [OF assms(4)]
    by (simp add: header_cells_def row_cells_def row_of_def Let_def)
qed

theorem export_header_misaligned_witness:
  "\<exists>t s line. print_flow_data small_config example_ntop False t (features small_config (\<lambda>_. 0)) = Some s \<and>
     length (split_on CHR '';'' (split_on newline (print_header False 1 2 (features small_config (\<lambda>_. 0))) ! 1)) = length (split_on CHR '';'' line) + 1"
proof -
  let ?rs = "features small_config (\<lambda>_. 0)"
  from example_export(1) obtain t where t: "session_table_inv small_config False t"
    "session_map False t = [session_key False (example_key 1) \<mapsto> 4]" by blast
  have n: "feature_names_ok ?rs" by (simp add: feature_names_ok_def features_def mk_register_def newline_def)
  have i: "session_in t 4" using session_in_iff(1) [OF t(1), of 4] t(2) by simp
  let ?is = "filter (session_in t) [MIN_SESSION_ID..<FEATURE_SIZE small_config]" and ?line = "\<lambda>i. terminated CHR '';'' (row_cells (row_of example_ntop False t ?rs i))"
  have "set [MIN_SESSION_ID..<FEATURE_SIZE small_config] \<subseteq> {..<FEATURE_SIZE small_config}" by auto
  from print_sessions_ok [OF t(1) example_export(2) this, of example_ntop False]
  have s: "print_flow_data small_config example_ntop False t ?rs = Some (terminated newline (map ?line ?is) @ [newline])"
    by (simp add: print_flow_data_def)
  have "?line 4 \<in> set (takeWhile (\<lambda>l. l \<noteq> []) (split_on newline (terminated newline (map ?line ?is) @ [newline])))"
    unfolding lines_of_rows [OF example_export(3)] using i by (auto simp: MIN_SESSION_ID_def)
  from export_header_misaligned [OF t(1) example_export(2,3) n s this, of 1 2] s show ?thesis
    unfolding Let_def by blast
qed

end
