(* ===== verification/Benchmark.thy ===== *)
theory Benchmark
  imports Controller Export
begin

text \<open>
  \<^verbatim>\<open>benchmark.c\<close>: the threads of the benchmark library, which drive the switch API, the features and the export with synthetic flows. The measured times
  are not modelled. Beside \<open>sde\<close>, the threads call the driver directly: \<open>bench_driver\<close> holds those functions. \<open>None\<close> is an access outside an array.

  Shown: a benchmark of the classification tables loses no entry, and leaves the tables as it found them when it runs to its end and no delete fails; the benchmark of the export prints, in each of
  its rounds, one row per session from \<open>MIN_SESSION_ID\<close> on, with the client that it generated.
\<close>

section \<open>Model\<close>

record 'sw bench_driver =
  pipe_mgr_begin_batch :: "'sw \<Rightarrow> 'sw"
  pipe_mgr_end_batch :: "'sw \<Rightarrow> 'sw"
  register_write :: "nat \<Rightarrow> int \<Rightarrow> int \<Rightarrow> u32 \<Rightarrow> 'sw \<Rightarrow> int \<times> 'sw" \<comment> \<open>\<open>write_fn\<close> of a feature\<close>

definition NUM_K :: nat where "NUM_K = 50"
definition NUM_BENCH_FEATURE :: nat where "NUM_BENCH_FEATURE = 2 ^ 18"
definition MAX_IP4_FLOWS :: nat where "MAX_IP4_FLOWS = 98304"

definition num_ops :: "config \<Rightarrow> int" where
  "num_ops cfg = min (int (MAX_FLOWS cfg)) (int MAX_IP4_FLOWS) - 8192 - 4098"

text \<open>The flow of the classification benchmarks, with the source address of operation \<open>i\<close>.\<close>

definition bench_tuple :: "u32 \<Rightarrow> five_tuple_t" where
  "bench_tuple i = zero_five_tuple
     \<lparr> ft_h := \<lparr> src_addr = set_ipv4 i 0, dst_addr = set_ipv4 1 0, src_port = 1, dst_port = 1, l3_proto = L3_IPV4, l4_proto = L4_TCP \<rparr>,
       dev_port := 1, ingress_ts := 1 \<rparr>"

text \<open>The loop of insertions: \<open>False\<close> when the thread returns at an error. \<open>hdls\<close> is the array \<open>entry_hdls\<close>.\<close>

fun bench_insert :: "'sw bench_driver \<Rightarrow> 'sw sde \<Rightarrow> nat list \<Rightarrow> entry_hdl list \<Rightarrow> 'sw \<Rightarrow> (bool \<times> entry_hdl list \<times> 'sw) option" where
  "bench_insert drv sde [] hdls sw = Some (True, hdls, sw)"
| "bench_insert drv sde (i # is) hdls sw =
     do { let sw = pipe_mgr_begin_batch drv sw;
          h \<leftarrow> aget hdls (int i);
          (status, h, sw) \<leftarrow> switch_add_classification_entry sde (bench_tuple (of_nat i)) (of_nat i) h sw;
          hdls \<leftarrow> aset hdls (int i) h;
          let sw = pipe_mgr_end_batch drv sw;
          if status = ERR_SWITCH then Some (False, hdls, sw) else bench_insert drv sde is hdls sw }"

text \<open>The loop of removals; \<open>extra\<close> is what is done in the batch after a removal.\<close>

fun bench_remove ::
  "'sw bench_driver \<Rightarrow> 'sw sde \<Rightarrow> ('sw \<Rightarrow> 'sw option) \<Rightarrow> nat list \<Rightarrow> entry_hdl list \<Rightarrow> 'sw \<Rightarrow> 'sw option" where
  "bench_remove drv sde extra [] hdls sw = Some sw"
| "bench_remove drv sde extra (i # is) hdls sw =
     do { let sw = pipe_mgr_begin_batch drv sw;
          h \<leftarrow> aget hdls (int i);
          let (_, sw) = switch_remove_classification_entry sde (bench_tuple (of_nat i)) h sw;
          sw \<leftarrow> extra sw;
          bench_remove drv sde extra is hdls (pipe_mgr_end_batch drv sw) }"

text \<open>The rounds. A thread that returns at an error does not disconnect.\<close>

fun bench_rounds ::
  "'sw bench_driver \<Rightarrow> 'sw sde \<Rightarrow> ('sw \<Rightarrow> 'sw option) \<Rightarrow> nat \<Rightarrow> nat \<Rightarrow> entry_hdl list \<Rightarrow> 'sw \<Rightarrow> (bool \<times> 'sw) option" where
  "bench_rounds drv sde extra n 0 hdls sw = Some (True, sw)"
| "bench_rounds drv sde extra n (Suc k) hdls sw =
     do { (ok, hdls, sw) \<leftarrow> bench_insert drv sde [0..<n] hdls sw;
          if \<not> ok then Some (False, sw)
          else do { sw \<leftarrow> bench_remove drv sde extra [0..<n] hdls sw; bench_rounds drv sde extra n k hdls sw } }"

text \<open>\<open>junk\<close> is the contents of the uninitialised array; an array of a size that is not positive is no array.\<close>

definition bench_classification ::
  "config \<Rightarrow> 'sw bench_driver \<Rightarrow> 'sw sde \<Rightarrow> ('sw \<Rightarrow> 'sw option) \<Rightarrow> (nat \<Rightarrow> entry_hdl) \<Rightarrow> 'sw \<Rightarrow> (bool \<times> 'sw) option" where
  "bench_classification cfg drv sde extra junk sw =
     (if num_ops cfg \<le> 0 then None else do {
        let (_, sess_hdl, sw) = switch_connect sde sw;
        (ok, sw) \<leftarrow> bench_rounds drv sde extra (nat (num_ops cfg)) NUM_K (map junk [0..<nat (num_ops cfg)]) sw;
        Some (ok, if ok then snd (switch_disconnect sde sess_hdl sw) else sw) })"

definition bench_classification_insert_remove ::
  "config \<Rightarrow> 'sw bench_driver \<Rightarrow> 'sw sde \<Rightarrow> (nat \<Rightarrow> entry_hdl) \<Rightarrow> 'sw \<Rightarrow> (bool \<times> 'sw) option" where
  "bench_classification_insert_remove cfg drv sde junk sw = bench_classification cfg drv sde Some junk sw"

text \<open>The register writes of the benchmark with zeroing: the index is that of the feature, not that of the flow.\<close>

fun write_zeros :: "'sw bench_driver \<Rightarrow> (nat \<times> int) list \<Rightarrow> 'sw \<Rightarrow> 'sw option" where
  "write_zeros drv [] sw = Some sw"
| "write_zeros drv ((reg, index) # xs) sw =
     do { target \<leftarrow> aget PIPES 0; write_zeros drv xs (snd (register_write drv reg target index 0 sw)) }"

definition bench_classification_remove_with_zero ::
  "config \<Rightarrow> 'sw bench_driver \<Rightarrow> 'sw sde \<Rightarrow> feature_register_t list \<Rightarrow> (nat \<Rightarrow> entry_hdl) \<Rightarrow> 'sw \<Rightarrow> (bool \<times> 'sw) option" where
  "bench_classification_remove_with_zero cfg drv sde rs junk sw =
     bench_classification cfg drv sde
       (\<lambda>sw. write_zeros drv (map (\<lambda>j. (reg_id (rs ! j), int j mod int (MAX_FLOWS cfg))) [0..<length rs]) sw) junk sw"

fun reset_rounds :: "config \<Rightarrow> 'sw bench_driver \<Rightarrow> feature_register_t list \<Rightarrow> nat list \<Rightarrow> 'sw \<Rightarrow> 'sw option" where
  "reset_rounds cfg drv rs [] sw = Some sw"
| "reset_rounds cfg drv rs (j # js) sw =
     do { sw \<leftarrow> write_zeros drv (map (\<lambda>r. (reg_id r, int j mod int (MAX_FLOWS cfg))) rs) (pipe_mgr_begin_batch drv sw);
          reset_rounds cfg drv rs js (pipe_mgr_end_batch drv sw) }"

definition bench_feature_reset :: "config \<Rightarrow> 'sw bench_driver \<Rightarrow> 'sw sde \<Rightarrow> feature_register_t list \<Rightarrow> 'sw \<Rightarrow> 'sw option" where
  "bench_feature_reset cfg drv sde rs sw =
     do { let (_, sess_hdl, sw) = switch_connect sde sw;
          sw \<leftarrow> reset_rounds cfg drv rs (concat (replicate NUM_K [0..<NUM_BENCH_FEATURE])) sw;
          Some (snd (switch_disconnect sde sess_hdl sw)) }"

text \<open>Repeated readings of the registers: \<open>clock\<close> is the time that the ageing reads in each.\<close>

fun read_rounds :: "config \<Rightarrow> 'sw sde \<Rightarrow> session_hashtable_t \<Rightarrow> u32 list \<Rightarrow> feature_state \<times> packet_ring \<times> 'sw \<Rightarrow>
    (feature_state \<times> packet_ring \<times> 'sw) option" where
  "read_rounds cfg sde sessions [] x = Some x"
| "read_rounds cfg sde sessions (now # clock) (fs, ring, sw) =
     do { x \<leftarrow> read_features cfg sde now sessions fs ring sw; read_rounds cfg sde sessions clock x }"

definition bench_feature_reader :: "config \<Rightarrow> 'sw sde \<Rightarrow> session_hashtable_t \<Rightarrow> (nat \<Rightarrow> u32) \<Rightarrow> feature_state \<Rightarrow> packet_ring \<Rightarrow> 'sw \<Rightarrow>
    (feature_state \<times> packet_ring \<times> 'sw) option" where
  "bench_feature_reader cfg sde sessions clock fs ring sw =
     (let (_, _, sw) = switch_connect sde sw in read_rounds cfg sde sessions (map clock [0..<100]) (fs, ring, sw))"

text \<open>\<open>background_feature_reader\<close> for the readings that it makes before \<open>run_feature_reader\<close> is reset.\<close>

definition background_feature_reader :: "config \<Rightarrow> 'sw sde \<Rightarrow> session_hashtable_t \<Rightarrow> u32 list \<Rightarrow> feature_state \<Rightarrow> packet_ring \<Rightarrow> 'sw \<Rightarrow>
    (feature_state \<times> packet_ring \<times> 'sw) option" where
  "background_feature_reader cfg sde sessions clock fs ring sw =
     do { let (_, sess_hdl, sw) = switch_connect sde sw;
          (fs, ring, sw) \<leftarrow> read_rounds cfg sde sessions clock (fs, ring, sw);
          Some (fs, ring, snd (switch_disconnect sde sess_hdl sw)) }"

text \<open>The sessions of the export benchmark.\<close>

definition bench_session :: "u32 \<Rightarrow> five_tuple_t" where
  "bench_session i = zero_five_tuple
     \<lparr> ft_h := \<lparr> src_addr = set_ipv4 i 0, dst_addr = set_ipv4 1 0, src_port = 4321, dst_port = 1234, l3_proto = L3_IPV4, l4_proto = L4_TCP \<rparr>,
       ft_sh := \<lparr> client_addr = set_ipv4 i 0, to_server = True \<rparr>, dev_port := 1, ingress_ts := 1 \<rparr>"

fun bench_sessions :: "config \<Rightarrow> bool \<Rightarrow> nat list \<Rightarrow> session_hashtable_t \<Rightarrow> session_hashtable_t option" where
  "bench_sessions cfg us [] t = Some t"
| "bench_sessions cfg us (i # is) t =
     do { (_, t) \<leftarrow> session_hashtable_add_or_increase_flow_count cfg us t (bench_session (of_nat i)) (int i); bench_sessions cfg us is t }"

fun bench_print :: "config \<Rightarrow> (l3_proto_t \<Rightarrow> address_t \<Rightarrow> string) \<Rightarrow> bool \<Rightarrow> session_hashtable_t \<Rightarrow> feature_register_t list \<Rightarrow> (int \<times> int) list \<Rightarrow> string option" where
  "bench_print cfg ntop debug t rs [] = Some []"
| "bench_print cfg ntop debug t rs (tv # tvs) =
     do { s \<leftarrow> print_flow_data cfg ntop debug t rs;
          ss \<leftarrow> bench_print cfg ntop debug t rs tvs;
          Some (print_header debug (fst tv) (snd tv) rs @ s @ ss) }"

text \<open>The text that the benchmark writes; \<open>tv\<close> is the real-time clock in each round. The opening of the file has no counterpart.\<close>

definition bench_feature_export_to_file ::
  "config \<Rightarrow> 'sw sde \<Rightarrow> (l3_proto_t \<Rightarrow> address_t \<Rightarrow> string) \<Rightarrow> bool \<Rightarrow> bool \<Rightarrow> u32 \<Rightarrow> (nat \<Rightarrow> int \<times> int) \<Rightarrow> session_hashtable_t \<Rightarrow>
    feature_state \<Rightarrow> packet_ring \<Rightarrow> 'sw \<Rightarrow> (string \<times> session_hashtable_t \<times> feature_state \<times> packet_ring \<times> 'sw) option" where
  "bench_feature_export_to_file cfg sde ntop debug us now tv sessions fs ring sw =
     do { let (_, _, sw) = switch_connect sde sw;
          t \<leftarrow> bench_sessions cfg us [0..<FEATURE_SIZE cfg] (session_hashtable_init cfg sessions);
          (fs, ring, sw) \<leftarrow> read_features cfg sde now t fs ring sw;
          file \<leftarrow> bench_print cfg ntop debug (session_hashtable_copy t t) (fs_features fs) (map tv [0..<100]);
          Some (file, t, fs, ring, sw) }"

text \<open>
  \<open>low_level_controller\<close> of this file: it initialises the data structures but the session table, prepares the switch and runs the benchmark of the
  export in a thread. \<open>Inl\<close> is \<open>exit\<close> with a status; \<open>pthread_create\<close> is the value that the call returns.
\<close>

definition bench_low_level_controller ::
  "config \<Rightarrow> 'sw pal \<Rightarrow> 'sw sde \<Rightarrow> log_square_entry_t list \<Rightarrow> log_square_entry_t list \<Rightarrow> nat \<Rightarrow> port_entry_t list \<Rightarrow> forward_entry_t list \<Rightarrow>
    int list \<Rightarrow> int \<Rightarrow> (l3_proto_t \<Rightarrow> address_t \<Rightarrow> string) \<Rightarrow> bool \<Rightarrow> u32 \<Rightarrow> (nat \<Rightarrow> int \<times> int) \<Rightarrow> feature_state \<Rightarrow> controller \<Rightarrow> 'sw \<Rightarrow>
    (int + string \<times> controller) option" where
  "bench_low_level_controller cfg pal sde iat_log_square size_log_square header_lengths ports forwards devmap pthread_create ntop debug now tv fs c sw =
     (let c = c\<lparr> packet_ringbuffer := ringbuffer_init (packet_ringbuffer c), dataplane_ringbuffer := ringbuffer_init (dataplane_ringbuffer c),
                dns_ringbuffer := ringbuffer_init (dns_ringbuffer c), flow_hashtable := flow_hashtable_init cfg,
                dns_hashtable := dns_hashtable_init cfg, bloom_filter := bloom_filter_init cfg \<rparr>;
          (_, _, sw) = switch_connect sde sw
      in case prepare_dataplane cfg pal iat_log_square size_log_square header_lengths ports forwards \<lparr> pr_switch = sw, DEVPORT_MAPPING = devmap \<rparr> of
           None \<Rightarrow> None
         | Some (Inl _) \<Rightarrow> Some (Inl 1)
         | Some (Inr st) \<Rightarrow> do {
             (fs, sw) \<leftarrow> prepare_features cfg sde fs (pr_switch st);
             if pthread_create \<noteq> 0 then Some (Inl 1)
             else do {
               (file, t, fs, ring, sw) \<leftarrow> bench_feature_export_to_file cfg sde ntop debug (use_sessions c) now tv (session_hashtable c) fs
                 (packet_ringbuffer c) sw;
               Some (Inr (file, c\<lparr> session_hashtable := t, packet_ringbuffer := ring \<rparr>)) } })"

section \<open>Classification tables\<close>

text \<open>\<open>c\<close> is a part of the switch that batches and register writes do not change, such as the classification tables.\<close>

definition driver_keeps :: "'sw bench_driver \<Rightarrow> 'sw sde \<Rightarrow> ('sw \<Rightarrow> 'c) \<Rightarrow> bool" where
  "driver_keeps drv sde c \<longleftrightarrow> (\<forall>sw. c (pipe_mgr_begin_batch drv sw) = c sw) \<and> (\<forall>sw. c (pipe_mgr_end_batch drv sw) = c sw) \<and>
     (\<forall>r p x v sw. c (snd (register_write drv r p x v sw)) = c sw) \<and> (\<forall>sw. c (snd (pipe_mgr_init sde sw)) = c sw) \<and>
     (\<forall>sw. c (snd (snd (pipe_mgr_client_init sde sw))) = c sw) \<and> (\<forall>h sw. c (snd (pipe_mgr_client_cleanup sde h sw)) = c sw)"

lemma driver_keepsD:
  assumes "driver_keeps drv sde c"
  shows "c (pipe_mgr_begin_batch drv sw) = c sw" "c (pipe_mgr_end_batch drv sw) = c sw"
    "c (snd (register_write drv r p x v sw)) = c sw" "switch_connect sde sw = (s, h, sw') \<Longrightarrow> c sw' = c sw"
    "c (snd (switch_disconnect sde h sw)) = c sw"
proof -
  show "c (pipe_mgr_begin_batch drv sw) = c sw" "c (pipe_mgr_end_batch drv sw) = c sw" "c (snd (register_write drv r p x v sw)) = c sw"
    using assms by (simp_all add: driver_keeps_def)
  show "c (snd (switch_disconnect sde h sw)) = c sw"
    using assms by (simp add: driver_keeps_def switch_disconnect_def Let_def split: prod.split) (metis snd_conv)
  show "switch_connect sde sw = (s, h, sw') \<Longrightarrow> c sw' = c sw"
    using assms unfolding switch_connect_def driver_keeps_def by (auto simp: Let_def split: prod.splits if_splits) (metis snd_conv)+
qed

text \<open>An IPv4 table with room for \<open>N\<close> entries: an add succeeds as long as there are fewer entries in the tables.\<close>

definition accepts :: "'sw sde \<Rightarrow> 'sw tables \<Rightarrow> nat \<Rightarrow> bool" where
  "accepts sde tab N \<longleftrightarrow> (\<forall>p m r sw. card (dom (tab sw)) < N \<longrightarrow> fst (ipv4_table_add sde p m r sw) = 0)"

text \<open>Deletes of the IPv4 table succeed on the entries that are there. The benchmark does not look at their status.\<close>

definition deletes :: "'sw sde \<Rightarrow> 'sw tables \<Rightarrow> bool" where
  "deletes sde tab \<longleftrightarrow> (\<forall>h sw. tab sw (False, h) \<noteq> None \<longrightarrow> fst (ipv4_table_delete sde h sw) = 0)"

text \<open>The entries of the benchmark: pipe 0, the key and the register index of an operation.\<close>

definition bench_entry :: "int \<times> match_spec \<times> u32 \<Rightarrow> bool" where
  "bench_entry e \<longleftrightarrow> (\<exists>i. e = (0, flow_match (bench_tuple i), i))"

lemma bench_tuple_ok: "tuple_ok (bench_tuple i)" "\<not> is_ipv6 (bench_tuple i)" "tuple_pipe (bench_tuple i) = 0"
  by (simp_all add: tuple_ok_def bench_tuple_def zero_five_tuple_def ipv4_addr_def MAX_DEV_PORT_ID_def is_ipv6_def L3_IPV4_def L3_IPV6_def
      tuple_pipe_def dev_port_to_pipe_def drop_bit_eq_div)

lemma accepts_add:
  assumes "accepts sde tab N" "card (dom (tab sw)) < N" "switch_add_classification_entry sde (bench_tuple i) r h sw = Some (s, h', sw')"
  shows "s \<noteq> ERR_SWITCH"
proof -
  have "fst (ipv4_table_add sde 0 (ipv4_match (bench_tuple i)) r sw) = 0" using assms(1,2) by (simp add: accepts_def)
  moreover have "l3_proto (ft_h (bench_tuple i)) = L3_IPV4" by (simp add: bench_tuple_def)
  ultimately show ?thesis using assms(3) tuple_target [OF bench_tuple_ok(1), of i]
    by (auto simp: switch_add_classification_entry_def switch_add_ipv4_entry_def bench_tuple_ok SUCCESS_def ERR_SWITCH_def split: prod.splits)
qed

lemma deletes_remove:
  assumes "deletes sde tab" "tab sw (False, h) \<noteq> None"
  shows "fst (switch_remove_classification_entry sde (bench_tuple i) h sw) = SUCCESS"
proof -
  have "fst (ipv4_table_delete sde h sw) = 0" using assms by (simp only: deletes_def simp_thms)
  then show ?thesis
    by (simp add: switch_remove_classification_entry_def switch_remove_ipv4_entry_def bench_tuple_def SUCCESS_def case_prod_beta)
qed

lemma bench_insert_ok:
  assumes "sde_tables sde tab" "driver_keeps drv sde tab" "k \<le> n"
  shows "length hdls = n \<Longrightarrow> \<exists>ok hdls' sw'. bench_insert drv sde [k..<n] hdls sw = Some (ok, hdls', sw') \<and> length hdls' = n \<and>
    take k hdls' = take k hdls \<and> tab sw \<subseteq>\<^sub>m tab sw' \<and> (\<forall>x e. tab sw' x = Some e \<longrightarrow> tab sw x = Some e \<or> bench_entry e) \<and>
    (ok \<longrightarrow> tab sw = tab sw' |` (- Pair False ` set (drop k hdls'))) \<and>
    (\<forall>N. accepts sde tab N \<longrightarrow> card (dom (tab sw)) + (n - k) \<le> N \<longrightarrow> ok)"
  using assms(3)
proof (induction k arbitrary: hdls sw rule: inc_induct)
  case base
  then show ?case by (auto simp: restrict_map_def)
next
  case (step k)
  note d = driver_keepsD [OF assms(2)]
  let ?f = "bench_tuple (of_nat k)" and ?sw = "pipe_mgr_begin_batch drv sw"
  from add_entry_cases [OF assms(1) bench_tuple_ok(1), of "of_nat k" "of_nat k" "hdls ! k" ?sw] obtain s h sw1 where
    a: "switch_add_classification_entry sde ?f (of_nat k) (hdls ! k) ?sw = Some (s, h, sw1)" and
    c: "s = SUCCESS \<and> tab sw (False, h) = None \<and> tab sw1 = (tab sw)((False, h) \<mapsto> (0, flow_match ?f, of_nat k)) \<or> s = ERR_SWITCH \<and> tab sw1 = tab sw"
    by (auto simp: bench_tuple_ok d)
  let ?h = "hdls[k := h]" and ?sw1 = "pipe_mgr_end_batch drv sw1"
  have run: "bench_insert drv sde [k..<n] hdls sw = (if s = ERR_SWITCH then Some (False, ?h, ?sw1) else bench_insert drv sde [Suc k..<n] ?h ?sw1)"
    using step.hyps step.prems a by (simp add: upt_rec [of k] Let_def aget_Some aset_Some)
  show ?case
  proof (cases "s = ERR_SWITCH")
    case True
    with c have "tab sw1 = tab sw" by (auto simp: SUCCESS_def ERR_SWITCH_def)
    moreover have "\<not> card (dom (tab sw)) + (n - k) \<le> N" if "accepts sde tab N" for N
      using accepts_add [OF that _ a] True step.hyps by (force simp: d)
    ultimately show ?thesis using run True step.prems by (auto simp: d)
  next
    case False
    with c have t: "tab sw (False, h) = None" "tab sw1 = (tab sw)((False, h) \<mapsto> (0, flow_match ?f, of_nat k))" by auto
    from step.IH [of ?h ?sw1] step.prems obtain ok hdls' sw' where
      r: "bench_insert drv sde [Suc k..<n] ?h ?sw1 = Some (ok, hdls', sw')" "length hdls' = n" "take (Suc k) hdls' = take (Suc k) ?h"
        "tab sw1 \<subseteq>\<^sub>m tab sw'" and
      o: "ok \<Longrightarrow> tab sw1 = tab sw' |` (- Pair False ` set (drop (Suc k) hdls'))" and
      own: "\<forall>x e. tab sw' x = Some e \<longrightarrow> tab sw1 x = Some e \<or> bench_entry e" and
      room: "\<forall>N. accepts sde tab N \<longrightarrow> card (dom (tab sw1)) + (n - Suc k) \<le> N \<longrightarrow> ok"
      by (auto simp: d)
    have "card (dom (tab sw1)) = Suc (card (dom (tab sw)))" using t by (simp add: domIff)
    with room step.hyps have room': "\<forall>N. accepts sde tab N \<longrightarrow> card (dom (tab sw)) + (n - k) \<le> N \<longrightarrow> ok" by auto
    have k: "take k hdls' = take k hdls" "drop k hdls' = h # drop (Suc k) hdls'"
      using r(2,3) step.hyps step.prems by (auto simp: take_Suc_conv_app_nth Cons_nth_drop_Suc [symmetric])
    have "tab sw \<subseteq>\<^sub>m tab sw'" using r(4) t by (auto simp: map_le_def dom_def split: if_splits)
    moreover have "tab sw = tab sw' |` (- Pair False ` set (drop k hdls'))" if ok
    proof -
      have "tab sw = tab sw1 |` (- {(False, h)})" using t by (auto simp: restrict_map_def fun_eq_iff)
      with o [OF that] show ?thesis by (auto simp: k(2) restrict_map_def fun_eq_iff)
    qed
    moreover have "tab sw x = Some e \<or> bench_entry e" if "tab sw' x = Some e" for x e
    proof (cases "tab sw1 x = Some e")
      case True
      then show ?thesis by (auto simp: t(2) bench_entry_def simp del: split_paired_Ex split: if_splits)
    qed (use own that in blast)
    moreover have "bench_insert drv sde [k..<n] hdls sw = Some (ok, hdls', sw')" using run False r(1) by presburger
    ultimately show ?thesis using r(2) k(1) room' by blast
  qed
qed

text \<open>The removals touch only the handles they are given; the entry of a handle stays when its delete fails.\<close>

lemma bench_remove_ok:
  assumes "sde_tables sde tab" "driver_keeps drv sde tab" "\<And>sw. \<exists>sw'. extra sw = Some sw' \<and> tab sw' = tab sw" "k \<le> length hdls"
  shows "\<exists>sw'. bench_remove drv sde extra [k..<length hdls] hdls sw = Some sw' \<and> tab sw' \<subseteq>\<^sub>m tab sw \<and>
    tab sw |` (- Pair False ` set (drop k hdls)) \<subseteq>\<^sub>m tab sw' \<and>
    (deletes sde tab \<longrightarrow> tab sw' = tab sw |` (- Pair False ` set (drop k hdls)))"
  using assms(4)
proof (induction k arbitrary: sw rule: inc_induct)
  case base
  then show ?case by (simp add: map_le_def)
next
  case (step k)
  note d = driver_keepsD [OF assms(2)]
  let ?sw = "pipe_mgr_begin_batch drv sw"
  from remove_entry_cases [OF assms(1) bench_tuple_ok(1), of "of_nat k" "hdls ! k" ?sw] obtain s sw1 where
    a: "switch_remove_classification_entry sde (bench_tuple (of_nat k)) (hdls ! k) ?sw = (s, sw1)" and
    t: "tab sw1 = (tab sw)((False, hdls ! k) := None) \<or> s = ERR_SWITCH \<and> tab sw1 = tab sw" by (auto simp: bench_tuple_ok d)
  have del: "tab sw1 = (tab sw)((False, hdls ! k) := None)" if "deletes sde tab"
  proof (cases "tab sw (False, hdls ! k)")
    case None
    with t show ?thesis by (auto simp: fun_eq_iff)
  next
    case (Some e)
    with deletes_remove [OF that, of ?sw "hdls ! k" "of_nat k"] a t show ?thesis by (simp add: d SUCCESS_def ERR_SWITCH_def)
  qed
  from assms(3) [of sw1] obtain sw2 where x: "extra sw1 = Some sw2" "tab sw2 = tab sw1" by blast
  from step.IH [of "pipe_mgr_end_batch drv sw2"] obtain sw' where
    r: "bench_remove drv sde extra [Suc k..<length hdls] hdls (pipe_mgr_end_batch drv sw2) = Some sw'"
      "tab sw' \<subseteq>\<^sub>m tab sw1" "tab sw1 |` (- Pair False ` set (drop (Suc k) hdls)) \<subseteq>\<^sub>m tab sw'"
      "deletes sde tab \<Longrightarrow> tab sw' = tab sw1 |` (- Pair False ` set (drop (Suc k) hdls))" by (auto simp: d x)
  have k: "drop k hdls = hdls ! k # drop (Suc k) hdls" using step.hyps by (simp add: Cons_nth_drop_Suc [symmetric])
  have "bench_remove drv sde extra [k..<length hdls] hdls sw = Some sw'"
    using step.hyps a x r(1) by (simp add: upt_rec [of k] aget_Some)
  moreover have "tab sw1 \<subseteq>\<^sub>m tab sw" using t by (auto simp: map_le_def split: if_splits)
  then have "tab sw' \<subseteq>\<^sub>m tab sw" using map_le_trans [OF r(2)] by blast
  moreover have "tab sw |` (- Pair False ` set (drop k hdls)) \<subseteq>\<^sub>m tab sw1 |` (- Pair False ` set (drop (Suc k) hdls))"
    using t by (auto simp: k map_le_def restrict_map_def)
  then have "tab sw |` (- Pair False ` set (drop k hdls)) \<subseteq>\<^sub>m tab sw'" using map_le_trans r(3) by blast
  moreover have "tab sw' = tab sw |` (- Pair False ` set (drop k hdls))" if "deletes sde tab"
    using r(4) [OF that] del [OF that] by (auto simp: k restrict_map_def fun_eq_iff)
  ultimately show ?case by blast
qed

text \<open>What a benchmark does to the tables, whatever deletes fail, and what it does when none fails.\<close>

definition restores :: "'sw sde \<Rightarrow> 'sw tables \<Rightarrow> nat \<Rightarrow> bool \<Rightarrow> 'sw \<Rightarrow> 'sw \<Rightarrow> bool" where
  "restores sde tab n ok sw sw' \<longleftrightarrow> tab sw \<subseteq>\<^sub>m tab sw' \<and> (\<forall>x e. tab sw' x = Some e \<longrightarrow> tab sw x = Some e \<or> bench_entry e) \<and>
     (deletes sde tab \<longrightarrow> (ok \<longrightarrow> tab sw' = tab sw) \<and> (\<forall>N. accepts sde tab N \<longrightarrow> card (dom (tab sw)) + n \<le> N \<longrightarrow> ok))"

lemma bench_rounds_ok:
  assumes "sde_tables sde tab" "driver_keeps drv sde tab" "\<And>sw. \<exists>sw'. extra sw = Some sw' \<and> tab sw' = tab sw"
  shows "length hdls = n \<Longrightarrow> \<exists>ok sw'. bench_rounds drv sde extra n k hdls sw = Some (ok, sw') \<and> restores sde tab n ok sw sw'"
proof (induction k arbitrary: hdls sw)
  case (Suc k)
  from bench_insert_ok [OF assms(1,2) _ Suc.prems, of 0 sw] obtain ok hdls' sw1 where
    i: "bench_insert drv sde [0..<n] hdls sw = Some (ok, hdls', sw1)" "length hdls' = n" "tab sw \<subseteq>\<^sub>m tab sw1"
      "\<forall>x e. tab sw1 x = Some e \<longrightarrow> tab sw x = Some e \<or> bench_entry e" "ok \<Longrightarrow> tab sw = tab sw1 |` (- Pair False ` set hdls')"
      "\<forall>N. accepts sde tab N \<longrightarrow> card (dom (tab sw)) + n \<le> N \<longrightarrow> ok" by auto
  show ?case
  proof (cases ok)
    case True
    from bench_remove_ok [OF assms, of 0 hdls' sw1] i(2,5) True obtain sw2 where
      r: "bench_remove drv sde extra [0..<n] hdls' sw1 = Some sw2" "tab sw2 \<subseteq>\<^sub>m tab sw1" "tab sw \<subseteq>\<^sub>m tab sw2"
        "deletes sde tab \<Longrightarrow> tab sw2 = tab sw" by auto
    from Suc.IH [OF i(2), of sw2] obtain ok' sw' where
      n: "bench_rounds drv sde extra n k hdls' sw2 = Some (ok', sw')" "restores sde tab n ok' sw2 sw'" by blast
    have "tab sw x = Some e \<or> bench_entry e" if "tab sw' x = Some e" for x e
    proof -
      have "tab sw2 x = Some e \<or> bench_entry e" using n(2) that unfolding restores_def by blast
      moreover have "tab sw1 x = Some e" if "tab sw2 x = Some e" using r(2) that unfolding map_le_def by (metis domI)
      ultimately show ?thesis using i(4) by blast
    qed
    moreover have "tab sw \<subseteq>\<^sub>m tab sw'" using map_le_trans [OF r(3)] n(2) by (simp add: restores_def)
    ultimately have "restores sde tab n ok' sw sw'" using n(2) r(4) by (simp add: restores_def del: split_paired_All)
    then show ?thesis using i(1) True r(1) n(1) by simp
  qed (use i in \<open>auto simp: restores_def\<close>)
qed (auto simp: restores_def)

lemma write_zeros_ok:
  assumes "driver_keeps drv sde c"
  shows "\<exists>sw'. write_zeros drv xs sw = Some sw' \<and> c sw' = c sw"
proof (induction xs arbitrary: sw)
  case (Cons x xs)
  obtain r i where x: "x = (r, i)" by (cases x)
  from Cons [of "snd (register_write drv r 0 i 0 sw)"] show ?case by (simp add: x PIPES_def driver_keepsD(3) [OF assms])
qed simp

lemma bench_classification_ok:
  assumes "sde_tables sde tab" "driver_keeps drv sde tab" "0 < num_ops cfg" "\<And>sw. \<exists>sw'. extra sw = Some sw' \<and> tab sw' = tab sw"
  shows "\<exists>ok sw'. bench_classification cfg drv sde extra junk sw = Some (ok, sw') \<and> restores sde tab (nat (num_ops cfg)) ok sw sw'"
proof -
  note d = driver_keepsD [OF assms(2)]
  obtain s h sw1 where c: "switch_connect sde sw = (s, h, sw1)" by (metis prod_cases3)
  from bench_rounds_ok [OF assms(1,2,4), of "map junk [0..<nat (num_ops cfg)]" "nat (num_ops cfg)" NUM_K sw1] obtain ok sw2 where
    "bench_rounds drv sde extra (nat (num_ops cfg)) NUM_K (map junk [0..<nat (num_ops cfg)]) sw1 = Some (ok, sw2)"
    "restores sde tab (nat (num_ops cfg)) ok sw1 sw2" by auto
  then show ?thesis using d(4) [OF c] assms(3) by (simp add: bench_classification_def c restores_def d(5))
qed

section \<open>Sessions of the export benchmark\<close>

lemma bench_session_simps:
  "session_id_egress_offset (bench_session w) = 0" "client_of ntop (bench_session w) = ntop L3_IPV4 (set_ipv4 w 0)"
  "i < 2 ^ 32 \<Longrightarrow> j < 2 ^ 32 \<Longrightarrow> session_key us (bench_session (of_nat i)) = session_key us (bench_session (of_nat j)) \<longleftrightarrow> i = j"
proof -
  show "session_id_egress_offset (bench_session w) = 0" "client_of ntop (bench_session w) = ntop L3_IPV4 (set_ipv4 w 0)"
    by (simp_all add: bench_session_def zero_five_tuple_def client_of_def)
  assume b: "i < 2 ^ 32" "j < 2 ^ 32"
  have "addr_ipv4 (src_addr (ft_h (bench_session x))) = x" "addr_ipv4 (client_addr (ft_sh (bench_session x))) = x" for x
    by (simp_all add: bench_session_def)
  then have "session_key us (bench_session x) = session_key us (bench_session y) \<Longrightarrow> x = y" for x y
    by (metis Inl_inject Inr_inject session_key_def)
  moreover have "of_nat i = (of_nat j :: u32) \<Longrightarrow> i = j" using b by (simp add: of_nat_inverse word_of_nat_eq_iff take_bit_nat_eq_self)
  ultimately show "session_key us (bench_session (of_nat i)) = session_key us (bench_session (of_nat j)) \<longleftrightarrow> i = j" by metis
qed

text \<open>The map of the sessions below \<open>k\<close>.\<close>

definition bench_map :: "bool \<Rightarrow> nat \<Rightarrow> session_hashtable_t \<Rightarrow> bool" where
  "bench_map us k t \<longleftrightarrow> dom (session_map us t) = (\<lambda>i. session_key us (bench_session (of_nat i))) ` {..<k} \<and>
     (\<forall>i < k. session_map us t (session_key us (bench_session (of_nat i))) = Some (int i) \<and>
        session_key_of us t (session_key us (bench_session (of_nat i))) = Some (bench_session (of_nat i)))"

lemma bench_sessions_ok:
  assumes "cfg_ok cfg" "k \<le> FEATURE_SIZE cfg"
  shows "session_table_inv cfg us t \<Longrightarrow> bench_map us k t \<Longrightarrow>
    \<exists>t'. bench_sessions cfg us [k..<FEATURE_SIZE cfg] t = Some t' \<and> session_table_inv cfg us t' \<and> bench_map us (FEATURE_SIZE cfg) t'"
  using assms(2)
proof (induction k arbitrary: t rule: inc_induct)
  case (step k)
  let ?key = "\<lambda>i. session_key us (bench_session (of_nat i))"
  have F: "FEATURE_SIZE cfg < FLOW_HASHTABLE_SIZE cfg" "FLOW_HASHTABLE_SIZE cfg < 2 ^ 31"
    using assms(1) by (auto simp: cfg_ok_def FEATURE_SIZE_def FLOW_HASHTABLE_SIZE_def NUM_PIPES_def)
  have inj: "i \<le> k \<Longrightarrow> j \<le> k \<Longrightarrow> ?key i = ?key j \<longleftrightarrow> i = j" for i j
    using F step.hyps by (intro bench_session_simps(3)) auto
  note m = step.prems(2) [unfolded bench_map_def]
  have "card (dom (session_map us t)) \<le> k" using m card_image_le [of "{..<k}" ?key] by simp
  then have c: "card (dom (session_map us t)) < FLOW_HASHTABLE_SIZE cfg" using F step.hyps by linarith
  have "?key k \<notin> dom (session_map us t)" using m inj by (auto simp: image_iff)
  then have n: "session_map us t (?key k) = None" by (simp add: domIff)
  have "ran (session_map us t) = int ` {..<k}"
  proof -
    have "ran (session_map us t) = (\<lambda>x. the (session_map us t x)) ` dom (session_map us t)" by (force simp: ran_def)
    then show ?thesis using m by (force simp: image_iff)
  qed
  then have free: "session_id_free cfg (session_map us t) (bench_session (of_nat k)) (int k)"
    using step.hyps by (auto simp: session_id_free_def bench_session_simps)
  from session_add_new [OF step.prems(1) c n free] obtain t' where
    a: "session_hashtable_add_or_increase_flow_count cfg us t (bench_session (of_nat k)) (int k) = Some (0, t')" "session_table_inv cfg us t'"
      "session_map us t' = (session_map us t)(?key k \<mapsto> int k)" "session_key_of us t' = (session_key_of us t)(?key k \<mapsto> bench_session (of_nat k))"
    by blast
  have "bench_map us (Suc k) t'" unfolding bench_map_def a(3,4) using m inj by (auto simp: less_Suc_eq lessThan_Suc)
  with step.IH [OF a(2)] a(1) step.hyps show ?case by (simp add: upt_rec [of k])
qed simp

lemma bench_print_ok:
  assumes "print_flow_data cfg ntop debug t rs = Some s"
  shows "bench_print cfg ntop debug t rs tvs = Some (concat (map (\<lambda>tv. print_header debug (fst tv) (snd tv) rs @ s) tvs))"
  by (induction tvs) (simp_all add: assms)

section \<open>Properties\<close>

text \<open>
  C28. The benchmarks of the classification tables, with and without zeroing the registers, run to their end or return at an insertion that the
  switch refuses. Whatever deletes fail, they lose no entry that was there before, and what is there more afterwards are entries of the benchmark. Deletes
  may fail, and the benchmark ignores their status. If they succeed on the entries that are there, a benchmark that runs to its end leaves
  the tables as it found them, although it only remembers the handles in an array that each round writes anew; and it does run to its end
  if the table has room for the flows of one round.
\<close>

theorem bench_classification_restores:
  assumes "sde_tables sde tab" "driver_keeps drv sde tab" "0 < num_ops cfg"
    and "run = bench_classification_insert_remove cfg drv sde junk sw \<or> run = bench_classification_remove_with_zero cfg drv sde rs junk sw"
  shows "\<exists>ok sw'. run = Some (ok, sw') \<and> tab sw \<subseteq>\<^sub>m tab sw' \<and> (\<forall>x e. tab sw' x = Some e \<longrightarrow> tab sw x = Some e \<or> bench_entry e) \<and>
      (deletes sde tab \<longrightarrow> (ok \<longrightarrow> tab sw' = tab sw) \<and>
        (\<forall>N. accepts sde tab N \<longrightarrow> int (card (dom (tab sw))) + num_ops cfg \<le> int N \<longrightarrow> ok))"
proof -
  have ex: "\<exists>sw'. extra sw = Some sw' \<and> tab sw' = tab sw" if "extra = Some \<or> extra = write_zeros drv xs" for extra xs sw
    using that write_zeros_ok [OF assms(2)] by auto
  from assms(4) obtain extra xs where "run = bench_classification cfg drv sde extra junk sw" "extra = Some \<or> extra = write_zeros drv xs"
    unfolding bench_classification_insert_remove_def bench_classification_remove_with_zero_def by metis
  then obtain ok sw' where r: "run = Some (ok, sw')" "restores sde tab (nat (num_ops cfg)) ok sw sw'"
    using bench_classification_ok [OF assms(1-3), of extra junk sw] ex [of extra xs] by blast
  have "int (card (dom (tab sw))) + num_ops cfg \<le> int N \<longleftrightarrow> card (dom (tab sw)) + nat (num_ops cfg) \<le> N" for N
    using assms(3) by linarith
  with r show ?thesis unfolding restores_def by auto
qed

text \<open>A switch that stores an entry under the first free handle.\<close>

definition slot_add :: "int \<Rightarrow> ipv4_match_spec \<Rightarrow> u32 \<Rightarrow> ref_switch \<Rightarrow> int \<times> entry_hdl \<times> ref_switch" where
  "slot_add p m r sw = (case List.find (\<lambda>h. sw_tab sw (False, of_nat h) = None) [0..<2 ^ 32] of
     None \<Rightarrow> (1, 0, sw)
   | Some h \<Rightarrow> (0, of_nat h, sw\<lparr> sw_tab := (sw_tab sw)((False, of_nat h) \<mapsto> (p, Match4 m, r)) \<rparr>))"

definition slot_sde :: "ref_switch sde" where
  "slot_sde = ref_sde\<lparr> ipv4_table_add := slot_add \<rparr>"

definition idle_driver :: "ref_switch bench_driver" where
  "idle_driver = \<lparr> pipe_mgr_begin_batch = \<lambda>sw. sw, pipe_mgr_end_batch = \<lambda>sw. sw, register_write = \<lambda>_ _ _ _ sw. (0, sw) \<rparr>"

lemma slot_sde_ok: "sde_tables slot_sde sw_tab" "driver_keeps idle_driver slot_sde sw_tab" "accepts slot_sde sw_tab (2 ^ 32)" "deletes slot_sde sw_tab"
proof -
  show "deletes slot_sde sw_tab" by (simp add: deletes_def slot_sde_def ref_sde_def ref_delete_def)
  show "driver_keeps idle_driver slot_sde sw_tab" by (simp add: driver_keeps_def idle_driver_def slot_sde_def ref_sde_def)
  show "sde_tables slot_sde sw_tab" using ref_sde_tables unfolding sde_tables_def slot_sde_def
    by (auto simp: slot_add_def find_Some_iff split: option.splits)
  show "accepts slot_sde sw_tab (2 ^ 32)" unfolding accepts_def
  proof (intro allI impI)
    fix p m r and sw :: ref_switch
    assume c: "card (dom (sw_tab sw)) < 2 ^ 32"
    have "List.find (\<lambda>h. sw_tab sw (False, of_nat h) = None) [0..<2 ^ 32] \<noteq> None"
    proof
      assume "List.find (\<lambda>h. sw_tab sw (False, of_nat h) = None) [0..<2 ^ 32] = None"
      then have n: "sw_tab sw (False, of_nat h) \<noteq> None" if "h < 2 ^ 32" for h using that by (auto simp: find_None_iff)
      have "sw_tab sw (False, w) \<noteq> None" for w using n [of "unat w"] unsigned_less [of w] by simp
      then have "range (Pair False) \<subseteq> dom (sw_tab sw)" by auto
      then have "card (range (Pair False :: entry_hdl \<Rightarrow> _)) \<le> card (dom (sw_tab sw))" by (intro card_mono) auto
      with c show False by (simp add: card_image inj_on_def card_word)
    qed
    then show "fst (ipv4_table_add slot_sde p m r sw) = 0" by (auto simp: slot_sde_def slot_add_def)
  qed
qed

theorem bench_classification_restores_witness:
  "\<exists>sw'. bench_classification_insert_remove marina_config idle_driver slot_sde (\<lambda>_. 0)
     \<lparr> sw_tab = Map.empty, sw_next = 0, sw_bits = {}, sw_regs = \<lambda>_. [] \<rparr> = Some (True, sw') \<and> sw_tab sw' = Map.empty"
proof -
  have n: "num_ops marina_config = 86014" by (simp add: num_ops_def marina_config_def MAX_IP4_FLOWS_def)
  show ?thesis
    using bench_classification_restores [OF slot_sde_ok(1,2), of marina_config _ "\<lambda>_. 0" "\<lparr> sw_tab = Map.empty, sw_next = 0, sw_bits = {}, sw_regs = \<lambda>_. [] \<rparr>"]
      slot_sde_ok(3,4) by (fastforce simp: n)
qed

text \<open>The benchmark of the export from prepared registers.\<close>

lemma bench_export_complete:
  assumes "cfg_ok cfg" "length (flow_count sessions) = FEATURE_SIZE cfg"
    and "fs_features fs = r # rs" "\<forall>r \<in> set (fs_features fs). feature_ok cfg r" "driver_reads cfg sde"
    and "process_register r = Process_And_Age" "\<forall>r \<in> set rs. process_register r = Process" "length (last_flow_update fs) = FEATURE_SIZE cfg"
    and "rb_inv (PACKET_RINGBUFFER_SIZE cfg) ring"
    and "registers_ok cfg (fs_features fs)" "ntop_ok ntop"
  shows "\<exists>t fs' ring' sw' s. bench_feature_export_to_file cfg sde ntop debug us now tv sessions fs ring sw =
      Some (concat (map (\<lambda>k. print_header debug (fst (tv k)) (snd (tv k)) (fs_features fs') @ s) [0..<100]), t, fs', ring', sw') \<and>
    map er_client (parse_rows debug s) = map (\<lambda>i. ntop L3_IPV4 (set_ipv4 (of_nat i) 0)) [MIN_SESSION_ID..<FEATURE_SIZE cfg]"
proof -
  obtain st h sw1 where c: "switch_connect sde sw = (st, h, sw1)" by (metis prod_cases3)
  note i = session_init_inv [OF assms(1,2), of us]
  have "bench_map us 0 (session_hashtable_init cfg sessions)" by (simp add: bench_map_def i(2))
  from bench_sessions_ok [OF assms(1) _ i(1) this] obtain t where
    t: "bench_sessions cfg us [0..<FEATURE_SIZE cfg] (session_hashtable_init cfg sessions) = Some t" "session_table_inv cfg us t"
      "bench_map us (FEATURE_SIZE cfg) t" by blast
  from read_features_ok [OF assms(3-7) t(2) assms(8,9), of now sw1] obtain fs' ring' sw' where
    r: "read_features cfg sde now t fs ring sw1 = Some (fs', ring', sw')" "list_all2 (round_ok cfg) (fs_features fs) (fs_features fs')" by blast
  from export_rows_ok [OF t(2) round_registers_ok [OF r(2) assms(10)] assms(11), of debug] obtain s where
    s: "print_flow_data cfg ntop debug t (fs_features fs') = Some s"
      "parse_rows debug s = map (row_of ntop debug t (fs_features fs'))
        (filter (\<lambda>i. int i \<in> ran (session_map us t)) [MIN_SESSION_ID..<FEATURE_SIZE cfg])"
      "\<forall>i c. MIN_SESSION_ID \<le> i \<longrightarrow> i < FEATURE_SIZE cfg \<longrightarrow> session_map us t c = Some (int i) \<longrightarrow>
        session_key_of us t c = Some (e_key (session_entry t i))" by blast
  have f: "filter (\<lambda>i. int i \<in> ran (session_map us t)) [MIN_SESSION_ID..<FEATURE_SIZE cfg] = [MIN_SESSION_ID..<FEATURE_SIZE cfg]"
    using t(3) by (intro filter_True) (auto simp: bench_map_def intro: ranI)
  have "e_key (session_entry t i) = bench_session (of_nat i)" if "i \<in> set [MIN_SESSION_ID..<FEATURE_SIZE cfg]" for i
    using t(3) s(3) that unfolding bench_map_def by fastforce
  then have "map er_client (parse_rows debug s) = map (\<lambda>i. ntop L3_IPV4 (set_ipv4 (of_nat i) 0)) [MIN_SESSION_ID..<FEATURE_SIZE cfg]"
    unfolding s(2) f map_map by (intro map_cong) (simp_all add: row_of_def Let_def bench_session_simps)
  moreover have "bench_feature_export_to_file cfg sde ntop debug us now tv sessions fs ring sw =
      Some (concat (map (\<lambda>k. print_header debug (fst (tv k)) (snd (tv k)) (fs_features fs') @ s) [0..<100]), t, fs', ring', sw')"
    using c t(1) r(1) by (simp add: bench_feature_export_to_file_def session_hashtable_copy_def bench_print_ok [OF s(1)] o_def)
  ultimately show ?thesis by blast
qed

lemma features_prepared:
  assumes "fs_features fs = features cfg egress" "\<And>r. egress r = 0 \<or> egress r = 1"
  obtains fs' sw' r rs where "prepare_features cfg sde fs sw = Some (fs', sw')" "fs_features fs' = r # rs" "\<forall>r \<in> set (fs_features fs'). feature_ok cfg r"
    "process_register r = Process_And_Age" "\<forall>r \<in> set rs. process_register r = Process" "length (last_flow_update fs') = FEATURE_SIZE cfg"
    "registers_ok cfg (fs_features fs')"
proof -
  from prepare_all_ok [of "features cfg egress" "\<lambda>_. ()" sde cfg "last_flow_update fs" sw] obtain rs' upd' sw' where
    p: "prepare_all cfg sde (features cfg egress) (last_flow_update fs) sw = Some (rs', upd', sw')"
      "map process_register rs' = map process_register (features cfg egress)" "map on_egress rs' = map on_egress (features cfg egress)"
      "\<forall>r \<in> set rs'. prepared cfg r" "upd' = replicate (FEATURE_SIZE cfg) 0" by (auto simp: features_def)
  have q: "map process_register (features cfg egress) = Process_And_Age # replicate 6 Process"
    by (simp add: features_def mk_register_def numeral_eq_Suc)
  with p(2) obtain r rs where rs': "rs' = r # rs" "process_register r = Process_And_Age" "map process_register rs = replicate 6 Process" by auto
  from rs'(3) have "process_register ` set rs \<subseteq> {Process}" by (metis list.set_map set_replicate_conv_if subset_singletonD subset_refl empty_subsetI)
  moreover have "on_egress ` set rs' \<subseteq> {0, 1}" using p(3) assms(2) by (auto simp: features_def mk_register_def simp flip: list.set_map)
  ultimately show thesis
    using that [of "fs\<lparr> fs_features := rs', last_flow_update := upd' \<rparr>" sw' r rs] p rs' assms(1)
    by (auto simp: prepare_features_def prepared_def registers_ok_def)
qed

text \<open>
  The benchmark as a whole. It exits with status 1 when the preparation of the switch does or when its thread cannot be created. Otherwise
  the preparation leaves the registers in the state that the readings rely on, one session per session id is stored, and each of the 100 rounds writes a
  header and a block that can be read back to one row for every session id from \<open>MIN_SESSION_ID\<close> on, with the client that was generated
  for it: the first \<open>MIN_SESSION_ID\<close> sessions are never exported.
\<close>

theorem bench_runs:
  assumes "cfg_ok cfg" "static_memory cfg c" "pal_ok pal fwd" "capacities_ok cfg pal" "driver_reads cfg sde" "ntop_ok ntop"
    and "fs_features fs = features cfg egress" "\<And>r. egress r = 0 \<or> egress r = 1" "switch_connect sde sw = (s, h, sw1)"
    and "run = bench_low_level_controller cfg pal sde iat_log_square size_log_square header_lengths ports forwards devmap pthread_create ntop debug now tv fs c sw"
    and "prep = prepare_dataplane cfg pal iat_log_square size_log_square header_lengths ports forwards \<lparr> pr_switch = sw1, DEVPORT_MAPPING = devmap \<rparr>"
  shows "if prep = Some (Inl ()) \<or> pthread_create \<noteq> 0 then run = Some (Inl 1)
    else \<exists>c' rs block. run = Some (Inr (concat (map (\<lambda>k. print_header debug (fst (tv k)) (snd (tv k)) rs @ block) [0..<100]), c')) \<and>
      map er_client (parse_rows debug block) = map (\<lambda>i. ntop L3_IPV4 (set_ipv4 (of_nat i) 0)) [MIN_SESSION_ID..<FEATURE_SIZE cfg]"
proof -
  let ?P = "prepare_dataplane cfg pal iat_log_square size_log_square header_lengths ports forwards"
  from prepare_leads [OF assms(3,4), of iat_log_square size_log_square header_lengths ports forwards]
  consider (exits) "prep = Some (Inl ())" | (returns) st where "prep = Some (Inr st)" unfolding leads_def assms(11) by blast
  then show ?thesis
  proof cases
    case exits
    then show ?thesis using assms(9-11) by (simp add: bench_low_level_controller_def)
  next
    case (returns st)
    from features_prepared [OF assms(7,8)] obtain fs' sw' r rs where
      p: "prepare_features cfg sde fs (pr_switch st) = Some (fs', sw')" "fs_features fs' = r # rs" "\<forall>r \<in> set (fs_features fs'). feature_ok cfg r"
        "process_register r = Process_And_Age" "\<forall>r \<in> set rs. process_register r = Process" "length (last_flow_update fs') = FEATURE_SIZE cfg"
        "registers_ok cfg (fs_features fs')" .
    have m: "length (flow_count (session_hashtable c)) = FEATURE_SIZE cfg"
      "rb_inv (PACKET_RINGBUFFER_SIZE cfg) (ringbuffer_init (packet_ringbuffer c))"
      using assms(1,2) by (auto simp: static_memory_def cfg_ok_def intro: rb_inv_init)
    from bench_export_complete [OF assms(1) m(1) p(2,3) assms(5) p(4-6) m(2) p(7) assms(6)] obtain t fs'' ring' sw'' block where
      e: "bench_feature_export_to_file cfg sde ntop debug (use_sessions_cached c) now tv (session_hashtable c) fs'
        (ringbuffer_init (packet_ringbuffer c)) sw' =
        Some (concat (map (\<lambda>k. print_header debug (fst (tv k)) (snd (tv k)) (fs_features fs'') @ block) [0..<100]), t, fs'', ring', sw'')"
      "map er_client (parse_rows debug block) = map (\<lambda>i. ntop L3_IPV4 (set_ipv4 (of_nat i) 0)) [MIN_SESSION_ID..<FEATURE_SIZE cfg]" by blast
    have "\<exists>c'. run = (if pthread_create \<noteq> 0 then Some (Inl 1)
        else Some (Inr (concat (map (\<lambda>k. print_header debug (fst (tv k)) (snd (tv k)) (fs_features fs'') @ block) [0..<100]), c')))"
      using returns p(1) e(1) assms(9-11) by (simp add: bench_low_level_controller_def use_sessions_def)
    with e(2) returns show ?thesis by (cases "pthread_create = 0") (simp, blast, simp)
  qed
qed

theorem bench_runs_witness:
  "\<exists>c' rs block. bench_low_level_controller small_config ref_pal forwarding_sde [] [] 0 (port_entries 0 0) forward_entries [] 0 example_ntop False 1
     (\<lambda>k. (int k, 0)) \<lparr> fs_features = features small_config (\<lambda>_. 1), last_flow_update = [] \<rparr> example_controller [(7, 5, 6)] =
     Some (Inr (concat (map (\<lambda>k. print_header False (int k) 0 rs @ block) [0..<100]), c')) \<and> length (parse_rows False block) = 4"
proof -
  have m: "static_memory small_config example_controller"
    by (simp add: static_memory_def example_controller_def empty_ring_def ringbuffer_init_def boot_session_table_def session_hashtable_init_def)
  have d: "driver_reads small_config forwarding_sde" "switch_connect forwarding_sde [(7, 5, 6)] = (0, 1, [(7, 5, 6)])"
    by (simp_all add: driver_reads_def forwarding_sde_def switch_connect_def SUCCESS_def)
  from bench_runs [OF cfg_ok_small m ref_pal_ok ref_capacities_ok d(1) example_export(3) _ _ d(2) refl refl,
      of "\<lparr> fs_features = features small_config (\<lambda>_. 1), last_flow_update = [] \<rparr>" "\<lambda>_. 1" "[]" "[]" 0 "port_entries 0 0" forward_entries "[]" 0
        False 1 "\<lambda>k. (int k, 0)"] ref_pal_prepares
  obtain c' rs block where r: "bench_low_level_controller small_config ref_pal forwarding_sde [] [] 0 (port_entries 0 0) forward_entries [] 0 example_ntop False 1
     (\<lambda>k. (int k, 0)) \<lparr> fs_features = features small_config (\<lambda>_. 1), last_flow_update = [] \<rparr> example_controller [(7, 5, 6)] =
     Some (Inr (concat (map (\<lambda>k. print_header False (int k) 0 rs @ block) [0..<100]), c'))"
    "map er_client (parse_rows False block) = map (\<lambda>i. example_ntop L3_IPV4 (set_ipv4 (of_nat i) 0)) [MIN_SESSION_ID..<FEATURE_SIZE small_config]"
    by auto
  from r(2) have "length (parse_rows False block) = length [MIN_SESSION_ID..<FEATURE_SIZE small_config]" by (metis length_map)
  then have "length (parse_rows False block) = 4" by (simp add: MIN_SESSION_ID_def)
  with r(1) show ?thesis by blast
qed

end
