(* ===== verification/Ring_Interleaving.thy ===== *)
theory Ring_Interleaving
  imports Ring_Buffer
begin

text \<open>
  The ring buffers of \<^verbatim>\<open>datastructures/mk_ringbuffer.h\<close> as several threads use them: any number of producers (\<open>put\<close> and
  \<open>ensure_put\<close>) and one consumer (\<open>get\<close>), interleaved one access to the shared ring at a time. \<open>empty\<close> and \<open>full\<close> are also read
  without the lock. The statistics counter, which the threads increment without the lock, is left out.

  Shown: for every interleaving the consumer receives the accepted items in the order in which they were stored, none is lost or duplicated, and no
  access leaves the array. The consumer does not look at \<open>empty\<close> again once it has the lock: with one consumer this is safe, because the
  producers never make the ring empty.
\<close>

section \<open>Model\<close>

text \<open>Where a thread is in its call: the next access it makes. A producer also knows whether it runs \<open>ensure_put\<close>.\<close>

datatype 'a consumer = C_Check | C_Lock | C_Copy | C_Tail 'a | C_Empty 'a | C_Full 'a | C_Unlock 'a

datatype 'a producer = P_Idle | P_Check bool 'a | P_Lock bool 'a | P_Recheck bool 'a | P_Copy bool 'a | P_Head bool 'a
  | P_Full bool 'a | P_Empty bool 'a | P_Unlock bool 'a | P_Reject bool 'a

datatype holder = Nobody | Consumer | Producer nat

record 'a ring_sys =
  rs_ring :: "'a ringbuffer"
  rs_lock :: holder
  rs_cons :: "'a consumer"
  rs_prod :: "nat \<Rightarrow> 'a producer"
  rs_sent :: "'a list" \<comment> \<open>the items stored so far, in the order of the lock\<close>
  rs_got :: "'a list" \<comment> \<open>the items the consumer has received\<close>

text \<open>The accesses under the lock, line by line.\<close>

fun get_step :: "nat \<Rightarrow> 'a consumer \<Rightarrow> 'a ringbuffer \<Rightarrow> ('a consumer \<times> 'a ringbuffer) option" where
  "get_step sz C_Copy rb = map_option (\<lambda>x. (C_Tail x, rb)) (aget (rb_data rb) (uint (rb_tail rb)))"
| "get_step sz (C_Tail x) rb = Some (C_Empty x, rb\<lparr> rb_tail := rb_next sz (rb_tail rb) \<rparr>)"
| "get_step sz (C_Empty x) rb = Some (C_Full x, rb\<lparr> rb_empty := (rb_head rb = rb_tail rb) \<rparr>)"
| "get_step sz (C_Full x) rb = Some (C_Unlock x, rb\<lparr> rb_full := False \<rparr>)"
| "get_step sz _ rb = None"

fun put_step :: "nat \<Rightarrow> 'a producer \<Rightarrow> 'a ringbuffer \<Rightarrow> ('a producer \<times> 'a ringbuffer) option" where
  "put_step sz (P_Recheck e x) rb = Some (if rb_full rb then P_Reject e x else P_Copy e x, rb)"
| "put_step sz (P_Copy e x) rb = map_option (\<lambda>d. (P_Head e x, rb\<lparr> rb_data := d \<rparr>)) (aset (rb_data rb) (uint (rb_head rb)) x)"
| "put_step sz (P_Head e x) rb = Some (P_Full e x, rb\<lparr> rb_head := rb_next sz (rb_head rb) \<rparr>)"
| "put_step sz (P_Full e x) rb = Some (P_Empty e x, rb\<lparr> rb_full := (rb_head rb = rb_tail rb) \<rparr>)"
| "put_step sz (P_Empty e x) rb = Some (P_Unlock e x, rb\<lparr> rb_empty := False \<rparr>)"
| "put_step sz _ rb = None"

inductive ring_step :: "nat \<Rightarrow> 'a ring_sys \<Rightarrow> 'a ring_sys \<Rightarrow> bool" for sz where
  Get_Check: "rs_cons s = C_Check \<Longrightarrow> \<not> rb_empty (rs_ring s) \<Longrightarrow> ring_step sz s (s\<lparr> rs_cons := C_Lock \<rparr>)"
| Get_Lock: "rs_cons s = C_Lock \<Longrightarrow> rs_lock s = Nobody \<Longrightarrow> ring_step sz s (s\<lparr> rs_lock := Consumer, rs_cons := C_Copy \<rparr>)"
| Get_Work: "get_step sz (rs_cons s) (rs_ring s) = Some (c, rb) \<Longrightarrow> ring_step sz s (s\<lparr> rs_cons := c, rs_ring := rb \<rparr>)"
| Get_Unlock: "rs_cons s = C_Unlock x \<Longrightarrow>
     ring_step sz s (s\<lparr> rs_lock := Nobody, rs_cons := C_Check, rs_got := rs_got s @ [x] \<rparr>)"
| Put_Call: "rs_prod s p = P_Idle \<Longrightarrow> ring_step sz s (s\<lparr> rs_prod := (rs_prod s)(p := P_Check e x) \<rparr>)"
| Put_Full: "rs_prod s p = P_Check False x \<Longrightarrow> rb_full (rs_ring s) \<Longrightarrow> ring_step sz s (s\<lparr> rs_prod := (rs_prod s)(p := P_Idle) \<rparr>)"
| Put_Check: "rs_prod s p = P_Check e x \<Longrightarrow> \<not> rb_full (rs_ring s) \<Longrightarrow> ring_step sz s (s\<lparr> rs_prod := (rs_prod s)(p := P_Lock e x) \<rparr>)"
| Put_Lock: "rs_prod s p = P_Lock e x \<Longrightarrow> rs_lock s = Nobody \<Longrightarrow>
     ring_step sz s (s\<lparr> rs_lock := Producer p, rs_prod := (rs_prod s)(p := P_Recheck e x) \<rparr>)"
| Put_Work: "put_step sz (rs_prod s p) (rs_ring s) = Some (c, rb) \<Longrightarrow>
     ring_step sz s (s\<lparr> rs_prod := (rs_prod s)(p := c), rs_ring := rb \<rparr>)"
| Put_Reject: "rs_prod s p = P_Reject e x \<Longrightarrow>
     ring_step sz s (s\<lparr> rs_lock := Nobody, rs_prod := (rs_prod s)(p := if e then P_Check e x else P_Idle) \<rparr>)"
| Put_Unlock: "rs_prod s p = P_Unlock e x \<Longrightarrow>
     ring_step sz s (s\<lparr> rs_lock := Nobody, rs_prod := (rs_prod s)(p := P_Idle), rs_sent := rs_sent s @ [x] \<rparr>)"

inductive ring_reachable :: "nat \<Rightarrow> 'a ring_sys \<Rightarrow> bool" for sz where
  Start: "0 < sz \<Longrightarrow> sz < 2 ^ 31 \<Longrightarrow> length (rb_data rb) = sz \<Longrightarrow>
     ring_reachable sz \<lparr> rs_ring = ringbuffer_init rb, rs_lock = Nobody, rs_cons = C_Check, rs_prod = \<lambda>_. P_Idle, rs_sent = [], rs_got = [] \<rparr>"
| Step: "ring_reachable sz s \<Longrightarrow> ring_step sz s s' \<Longrightarrow> ring_reachable sz s'"

section \<open>Invariant\<close>

text \<open>
  While a thread holds the lock, the ring is what the sequential operation has made of the ring at the moment the lock was taken, up to the
  thread's position. At the end it is the result of the sequential operation.
\<close>

fun get_at :: "nat \<Rightarrow> 'a ringbuffer \<Rightarrow> 'a consumer \<Rightarrow> 'a ringbuffer \<Rightarrow> bool" where
  "get_at sz old C_Copy rb \<longleftrightarrow> rb = old"
| "get_at sz old (C_Tail x) rb \<longleftrightarrow> aget (rb_data old) (uint (rb_tail old)) = Some x \<and> rb = old"
| "get_at sz old (C_Empty x) rb \<longleftrightarrow> aget (rb_data old) (uint (rb_tail old)) = Some x \<and> rb = old\<lparr> rb_tail := rb_next sz (rb_tail old) \<rparr>"
| "get_at sz old (C_Full x) rb \<longleftrightarrow> aget (rb_data old) (uint (rb_tail old)) = Some x \<and>
     rb = old\<lparr> rb_tail := rb_next sz (rb_tail old), rb_empty := (rb_head old = rb_next sz (rb_tail old)) \<rparr>"
| "get_at sz old (C_Unlock x) rb \<longleftrightarrow> ringbuffer_get sz old = Some ((0, Some x), rb)"
| "get_at sz old _ rb \<longleftrightarrow> False"

fun put_at :: "nat \<Rightarrow> 'a ringbuffer \<Rightarrow> 'a producer \<Rightarrow> 'a ringbuffer \<Rightarrow> bool" where
  "put_at sz old (P_Recheck e x) rb \<longleftrightarrow> rb = old"
| "put_at sz old (P_Reject e x) rb \<longleftrightarrow> rb = old"
| "put_at sz old (P_Copy e x) rb \<longleftrightarrow> \<not> rb_full old \<and> rb = old"
| "put_at sz old (P_Head e x) rb \<longleftrightarrow> \<not> rb_full old \<and> (\<exists>d. aset (rb_data old) (uint (rb_head old)) x = Some d \<and> rb = old\<lparr> rb_data := d \<rparr>)"
| "put_at sz old (P_Full e x) rb \<longleftrightarrow> \<not> rb_full old \<and> (\<exists>d. aset (rb_data old) (uint (rb_head old)) x = Some d \<and>
     rb = old\<lparr> rb_data := d, rb_head := rb_next sz (rb_head old) \<rparr>)"
| "put_at sz old (P_Empty e x) rb \<longleftrightarrow> \<not> rb_full old \<and> (\<exists>d. aset (rb_data old) (uint (rb_head old)) x = Some d \<and>
     rb = old\<lparr> rb_data := d, rb_head := rb_next sz (rb_head old), rb_full := (rb_next sz (rb_head old) = rb_tail old) \<rparr>)"
| "put_at sz old (P_Unlock e x) rb \<longleftrightarrow> \<not> rb_full old \<and> ringbuffer_store sz x old = Some rb"
| "put_at sz old _ rb \<longleftrightarrow> False"

definition get_critical :: "'a consumer \<Rightarrow> bool" where
  "get_critical c \<longleftrightarrow> c \<noteq> C_Check \<and> c \<noteq> C_Lock"

definition put_critical :: "'a producer \<Rightarrow> bool" where
  "put_critical c \<longleftrightarrow> c \<noteq> P_Idle \<and> (\<forall>e x. c \<noteq> P_Check e x \<and> c \<noteq> P_Lock e x)"

fun lock_ok :: "nat \<Rightarrow> 'a ring_sys \<Rightarrow> holder \<Rightarrow> bool" where
  "lock_ok sz s Nobody \<longleftrightarrow> rb_inv sz (rs_ring s) \<and> rs_sent s = rs_got s @ rb_items sz (rs_ring s)"
| "lock_ok sz s Consumer \<longleftrightarrow> (\<exists>old. rb_inv sz old \<and> \<not> rb_empty old \<and> rs_sent s = rs_got s @ rb_items sz old \<and> get_at sz old (rs_cons s) (rs_ring s))"
| "lock_ok sz s (Producer p) \<longleftrightarrow> (\<exists>old. rb_inv sz old \<and> rs_sent s = rs_got s @ rb_items sz old \<and> put_at sz old (rs_prod s p) (rs_ring s))"

definition ring_sys_inv :: "nat \<Rightarrow> 'a ring_sys \<Rightarrow> bool" where
  "ring_sys_inv sz s \<longleftrightarrow> lock_ok sz s (rs_lock s) \<and> (get_critical (rs_cons s) \<longrightarrow> rs_lock s = Consumer) \<and>
     (\<forall>p. put_critical (rs_prod s p) \<longrightarrow> rs_lock s = Producer p) \<and> (rs_cons s = C_Lock \<longrightarrow> \<not> rb_empty (rs_ring s))"

lemma ring_sys_invD:
  assumes "ring_sys_inv sz s"
  shows "lock_ok sz s (rs_lock s)" "get_critical (rs_cons s) \<Longrightarrow> rs_lock s = Consumer"
    "put_critical (rs_prod s p) \<Longrightarrow> rs_lock s = Producer p" "rs_cons s = C_Lock \<Longrightarrow> \<not> rb_empty (rs_ring s)"
  using assms by (auto simp: ring_sys_inv_def)

lemma get_step_critical: "get_step sz c rb = Some (c', rb') \<Longrightarrow> get_critical c \<and> get_critical c'"
  by (cases c) (auto simp: get_critical_def)

lemma put_step_critical: "put_step sz c rb = Some (c', rb') \<Longrightarrow> put_critical c \<and> put_critical c' \<and> (rb_empty rb' \<longrightarrow> rb_empty rb)"
  by (cases c) (auto simp: put_critical_def split: if_splits)

lemma get_step_at:
  "get_step sz c rb = Some (c', rb') \<Longrightarrow> get_at sz old c rb \<Longrightarrow> \<not> rb_empty old \<Longrightarrow> get_at sz old c' rb'"
  by (cases c) (auto simp: ringbuffer_get_def Let_def split: if_splits)

lemma put_step_at: "put_step sz c rb = Some (c', rb') \<Longrightarrow> put_at sz old c rb \<Longrightarrow> put_at sz old c' rb'"
  by (cases c) (auto simp: ringbuffer_store_def Let_def split: if_splits)

lemma get_done:
  assumes "rb_inv sz old" "\<not> rb_empty old" "ringbuffer_get sz old = Some ((0, Some x), rb)"
  shows "rb_inv sz rb \<and> rb_items sz old = x # rb_items sz rb"
  using ring.get_cases [OF assms(1,3)] by auto

lemma put_done:
  assumes "rb_inv sz old" "\<not> rb_full old" "ringbuffer_store sz x old = Some rb"
  shows "rb_inv sz rb \<and> rb_items sz rb = rb_items sz old @ [x]"
  using ringbuffer_store_spec [OF assms(1), of x] rb_full_iff [OF assms(1)] rb_count_le [OF assms(1)] assms(2,3) by auto

lemma ring_step_inv:
  assumes "ring_step sz s s'" "ring_sys_inv sz s"
  shows "ring_sys_inv sz s'"
  using assms(1)
proof cases
  case Get_Check
  with assms(2) show ?thesis by (cases "rs_lock s") (auto simp: ring_sys_inv_def get_critical_def)
next
  case Get_Lock
  with assms(2) show ?thesis by (auto simp: ring_sys_inv_def get_critical_def)
next
  case (Get_Work c rb)
  note k = get_step_critical [OF Get_Work(2)]
  then have l: "rs_lock s = Consumer" using ring_sys_invD(2) [OF assms(2)] by blast
  with ring_sys_invD(1) [OF assms(2)] obtain old where
    "rb_inv sz old" "\<not> rb_empty old" "rs_sent s = rs_got s @ rb_items sz old" "get_at sz old c rb"
    using get_step_at [OF Get_Work(2)] by auto
  moreover have "c \<noteq> C_Lock" using k by (auto simp: get_critical_def)
  ultimately show ?thesis using l assms(2) Get_Work(1) by (auto simp: ring_sys_inv_def)
next
  case (Get_Unlock x)
  then have l: "rs_lock s = Consumer" using ring_sys_invD(2) [OF assms(2)] by (simp add: get_critical_def)
  with ring_sys_invD(1) [OF assms(2)] Get_Unlock(2) obtain old where
    "rb_inv sz old" "\<not> rb_empty old" "rs_sent s = rs_got s @ rb_items sz old" "ringbuffer_get sz old = Some ((0, Some x), rs_ring s)" by auto
  with get_done [of sz old x "rs_ring s"] l assms(2) Get_Unlock(1) show ?thesis by (auto simp: ring_sys_inv_def get_critical_def)
next
  case (Put_Call p e x)
  then have "rs_lock s \<noteq> Producer p" using ring_sys_invD(1) [OF assms(2)] by auto
  with assms(2) Put_Call show ?thesis by (cases "rs_lock s") (auto simp: ring_sys_inv_def put_critical_def)
next
  case (Put_Full p x)
  then have "rs_lock s \<noteq> Producer p" using ring_sys_invD(1) [OF assms(2)] by auto
  with assms(2) Put_Full show ?thesis by (cases "rs_lock s") (auto simp: ring_sys_inv_def put_critical_def)
next
  case (Put_Check p e x)
  then have "rs_lock s \<noteq> Producer p" using ring_sys_invD(1) [OF assms(2)] by auto
  with assms(2) Put_Check show ?thesis by (cases "rs_lock s") (auto simp: ring_sys_inv_def put_critical_def)
next
  case (Put_Lock p e x)
  with assms(2) show ?thesis by (auto simp: ring_sys_inv_def)
next
  case (Put_Work p c rb)
  note k = put_step_critical [OF Put_Work(2)]
  then have l: "rs_lock s = Producer p" using ring_sys_invD(3) [OF assms(2)] by blast
  with ring_sys_invD(1) [OF assms(2)] obtain old where
    "rb_inv sz old" "rs_sent s = rs_got s @ rb_items sz old" "put_at sz old c rb"
    using put_step_at [OF Put_Work(2)] by auto
  then show ?thesis using l k assms(2) Put_Work(1) by (auto simp: ring_sys_inv_def)
next
  case (Put_Reject p e x)
  then have l: "rs_lock s = Producer p" using ring_sys_invD(3) [OF assms(2)] by (simp add: put_critical_def)
  with ring_sys_invD(1) [OF assms(2)] Put_Reject assms(2) show ?thesis by (auto simp: ring_sys_inv_def put_critical_def)
next
  case (Put_Unlock p e x)
  then have l: "rs_lock s = Producer p" using ring_sys_invD(3) [OF assms(2)] by (simp add: put_critical_def)
  with ring_sys_invD(1) [OF assms(2)] Put_Unlock(2) obtain old where
    "rb_inv sz old" "\<not> rb_full old" "rs_sent s = rs_got s @ rb_items sz old" "ringbuffer_store sz x old = Some (rs_ring s)" by auto
  with put_done [of sz old x "rs_ring s"] l assms(2) Put_Unlock(1) show ?thesis by (auto simp: ring_sys_inv_def put_critical_def)
qed

lemma ring_reachable_inv: "ring_reachable sz s \<Longrightarrow> ring_sys_inv sz s"
proof (induction rule: ring_reachable.induct)
  case (Start rb)
  then show ?case by (simp add: ring_sys_inv_def rb_inv_init rb_items_init get_critical_def put_critical_def)
next
  case (Step s s')
  then show ?case using ring_step_inv by blast
qed

text \<open>The holder of the lock is never stuck: its next access is inside the array.\<close>

lemma get_step_defined:
  "rb_inv sz old \<Longrightarrow> get_at sz old c rb \<Longrightarrow> (\<exists>x. c = C_Unlock x) \<or> get_step sz c rb \<noteq> None"
  by (cases c) (auto simp: rb_inv_def)

lemma put_step_defined:
  "rb_inv sz old \<Longrightarrow> put_at sz old c rb \<Longrightarrow> (\<exists>e x. c = P_Unlock e x \<or> c = P_Reject e x) \<or> put_step sz c rb \<noteq> None"
  by (cases c) (auto simp: rb_inv_def)

lemma lock_ok_items:
  assumes "lock_ok sz s h"
  obtains rest where "rs_sent s = rs_got s @ rest" "length rest \<le> sz" "h = Nobody \<Longrightarrow> rest = rb_items sz (rs_ring s)"
  using assms by (cases h) (auto simp: rb_count_le)

lemma ring_reachable_to: "ring_reachable sz s \<Longrightarrow> ring_step sz s t \<Longrightarrow> t = s' \<Longrightarrow> ring_reachable sz s'"
  using Step by blast

section \<open>The ring under interleaving\<close>

text \<open>
  C17. In every state that any number of producers and one consumer reach by interleaving their accesses to a ring, the consumer has received a
  prefix of the stored items in their order and at most \<open>sz\<close> items are outstanding, which are the contents of the ring whenever the lock is free;
  at most one thread is between its lock and unlock; and the next access of the thread that holds the lock is inside the array.
\<close>

theorem ring_interleaving_fifo:
  assumes "ring_reachable sz s"
  shows "(\<exists>rest. rs_sent s = rs_got s @ rest \<and> length rest \<le> sz \<and> (rs_lock s = Nobody \<longrightarrow> rest = rb_items sz (rs_ring s))) \<and>
    (get_critical (rs_cons s) \<longrightarrow> (\<forall>p. \<not> put_critical (rs_prod s p))) \<and>
    (\<forall>p q. put_critical (rs_prod s p) \<and> put_critical (rs_prod s q) \<longrightarrow> p = q) \<and>
    (rs_lock s = Consumer \<longrightarrow> (\<exists>x. rs_cons s = C_Unlock x) \<or> get_step sz (rs_cons s) (rs_ring s) \<noteq> None) \<and>
    (\<forall>p. rs_lock s = Producer p \<longrightarrow>
       (\<exists>e x. rs_prod s p = P_Unlock e x \<or> rs_prod s p = P_Reject e x) \<or> put_step sz (rs_prod s p) (rs_ring s) \<noteq> None)"
proof -
  note inv = ring_reachable_inv [OF assms]
  note lk = ring_sys_invD(1) [OF inv]
  have "\<exists>rest. rs_sent s = rs_got s @ rest \<and> length rest \<le> sz \<and> (rs_lock s = Nobody \<longrightarrow> rest = rb_items sz (rs_ring s))"
    using lk by (rule lock_ok_items) blast
  moreover have "rs_lock s = Consumer \<longrightarrow> (\<exists>x. rs_cons s = C_Unlock x) \<or> get_step sz (rs_cons s) (rs_ring s) \<noteq> None"
    using lk get_step_defined by fastforce
  moreover have "\<forall>p. rs_lock s = Producer p \<longrightarrow>
       (\<exists>e x. rs_prod s p = P_Unlock e x \<or> rs_prod s p = P_Reject e x) \<or> put_step sz (rs_prod s p) (rs_ring s) \<noteq> None"
    using lk put_step_defined by fastforce
  moreover have "get_critical (rs_cons s) \<longrightarrow> (\<forall>p. \<not> put_critical (rs_prod s p))"
    using ring_sys_invD(2,3) [OF inv] by fastforce
  moreover have "\<forall>p q. put_critical (rs_prod s p) \<and> put_critical (rs_prod s q) \<longrightarrow> p = q"
    using ring_sys_invD(3) [OF inv] by (metis holder.inject)
  ultimately show ?thesis by blast
qed

text \<open>
  Two producers and the consumer on a ring of two: the second producer has passed its check and waits for the lock while the first stores 7; the consumer
  has seen the ring not empty before the first producer unlocks.
\<close>

definition ring_example :: "nat ringbuffer \<Rightarrow> holder \<Rightarrow> nat consumer \<Rightarrow> nat producer \<Rightarrow> nat producer \<Rightarrow> nat list \<Rightarrow> nat ring_sys" where
  "ring_example rb l c p q sent = \<lparr> rs_ring = rb, rs_lock = l, rs_cons = c, rs_prod = (\<lambda>_. P_Idle)(0 := p, 1 := q), rs_sent = sent, rs_got = [] \<rparr>"

definition stored_7 :: "nat ringbuffer" where
  "stored_7 = rb_example\<lparr> rb_data := [7, 0], rb_head := 1, rb_full := False, rb_empty := False \<rparr>"

lemma ring_example_reachable: "ring_reachable 2 (ring_example stored_7 Nobody C_Lock P_Idle (P_Lock True 8) [7])"
proof -
  note e = ring_example_def stored_7_def rb_example_def ringbuffer_init_def rb_next_def
  let ?a = "rb_example\<lparr> rb_data := [7, 0] \<rparr>"
  let ?b = "?a\<lparr> rb_head := 1 \<rparr>"
  have "ring_reachable 2 (ring_example rb_example Nobody C_Check P_Idle P_Idle [])"
    using ring_reachable.Start [of 2 rb_example] by (simp add: e fun_upd_idem)
  then have "ring_reachable 2 (ring_example rb_example Nobody C_Check (P_Check False 7) P_Idle [])"
    by (rule ring_reachable_to [OF _ Put_Call [where p = 0 and e = False and x = 7]]) (auto simp: e)
  then have "ring_reachable 2 (ring_example rb_example Nobody C_Check (P_Check False 7) (P_Check True 8) [])"
    by (rule ring_reachable_to [OF _ Put_Call [where p = 1 and e = True and x = 8]]) (auto simp: e)
  then have "ring_reachable 2 (ring_example rb_example Nobody C_Check (P_Check False 7) (P_Lock True 8) [])"
    by (rule ring_reachable_to [OF _ Put_Check [where p = 1 and e = True and x = 8]]) (auto simp: e)
  then have "ring_reachable 2 (ring_example rb_example Nobody C_Check (P_Lock False 7) (P_Lock True 8) [])"
    by (rule ring_reachable_to [OF _ Put_Check [where p = 0 and e = False and x = 7]]) (auto simp: e)
  then have "ring_reachable 2 (ring_example rb_example (Producer 0) C_Check (P_Recheck False 7) (P_Lock True 8) [])"
    by (rule ring_reachable_to [OF _ Put_Lock [where p = 0 and e = False and x = 7]]) (auto simp: e)
  then have "ring_reachable 2 (ring_example rb_example (Producer 0) C_Check (P_Copy False 7) (P_Lock True 8) [])"
    by (rule ring_reachable_to [OF _ Put_Work [where p = 0 and c = "P_Copy False 7" and rb = rb_example]]) (auto simp: e)
  then have "ring_reachable 2 (ring_example ?a (Producer 0) C_Check (P_Head False 7) (P_Lock True 8) [])"
    by (rule ring_reachable_to [OF _ Put_Work [where p = 0 and c = "P_Head False 7" and rb = ?a]]) (auto simp: e)
  then have "ring_reachable 2 (ring_example ?b (Producer 0) C_Check (P_Full False 7) (P_Lock True 8) [])"
    by (rule ring_reachable_to [OF _ Put_Work [where p = 0 and c = "P_Full False 7" and rb = ?b]]) (auto simp: e)
  then have "ring_reachable 2 (ring_example ?b (Producer 0) C_Check (P_Empty False 7) (P_Lock True 8) [])"
    by (rule ring_reachable_to [OF _ Put_Work [where p = 0 and c = "P_Empty False 7" and rb = ?b]]) (auto simp: e)
  then have "ring_reachable 2 (ring_example stored_7 (Producer 0) C_Check (P_Unlock False 7) (P_Lock True 8) [])"
    by (rule ring_reachable_to [OF _ Put_Work [where p = 0 and c = "P_Unlock False 7" and rb = stored_7]]) (auto simp: e)
  then have "ring_reachable 2 (ring_example stored_7 (Producer 0) C_Lock (P_Unlock False 7) (P_Lock True 8) [])"
    by (rule ring_reachable_to [OF _ Get_Check]) (auto simp: e)
  then show ?thesis
    by (rule ring_reachable_to [OF _ Put_Unlock [where p = 0 and e = False and x = 7]]) (auto simp: e)
qed

theorem ring_interleaving_fifo_witness:
  "ring_reachable 2 (ring_example stored_7 Nobody C_Lock P_Idle (P_Lock True 8) [7]) \<and> rb_items 2 stored_7 = [7]"
  using ring_interleaving_fifo [OF ring_example_reachable] ring_example_reachable by (simp add: ring_example_def)

end
