(* ===== verification/Concurrent_Lookup.thy ===== *)
theory Concurrent_Lookup
  imports Flow_Hashtable
begin

text \<open>
  Lookups in the flow table (\<^verbatim>\<open>datastructures/flow_hashtable.c\<close>) while another thread changes it. The packet handler calls
  \<open>flow_hashtable_get\<close> without a lock; the calls to the lock are commented out and only \<open>MEMORY_BARRIER\<close>s order the writes of the flow database thread.
  The lookup and the writer are interleaved one access to an entry at a time, in the order of the code; the comparison of a key is one access.

  Shown: concurrent additions are safe. A lookup that reports a key as present is right at that moment, and one that reports it as absent is right for the
  moment at which it began; it ends after a bounded number of accesses. Concurrent removals are not safe: after the first write of \<open>remove_by_index\<close>
  a lookup misses every flow whose search path leads over the removed entry, although that flow is in the table before and after the removal.
\<close>

section \<open>Model\<close>

text \<open>The next write of \<open>flow_hashtable_add\<close> to the entry at the index that its search has found.\<close>

datatype writer = W_Idle | W_Key five_tuple_t int nat | W_Value five_tuple_t int nat | W_Hash five_tuple_t int nat | W_Occupied five_tuple_t int nat

text \<open>The next read of \<open>get_hashtable_index\<close>, at an index, and its result.\<close>

datatype reader = R_Idle | R_Occupied nat | R_Hash nat | R_Key nat | R_Done int nat

record lookup_sys =
  ls_entries :: "flow_hashtable_entry_t list"
  ls_writer :: writer
  ls_reader :: reader
  ls_begin :: "five_tuple_for_hash_t set" \<comment> \<open>the flows in the table when the lookup began\<close>
  ls_reads :: nat \<comment> \<open>the number of accesses of the lookup so far\<close>

fun write_step :: "writer \<Rightarrow> flow_hashtable_entry_t list \<Rightarrow> (writer \<times> flow_hashtable_entry_t list) option" where
  "write_step (W_Key k v i) es = do { e \<leftarrow> aget es (int i); es \<leftarrow> aset es (int i) (e\<lparr> e_key := k \<rparr>); Some (W_Value k v i, es) }"
| "write_step (W_Value k v i) es = do { e \<leftarrow> aget es (int i); es \<leftarrow> aset es (int i) (e\<lparr> e_value := v \<rparr>); Some (W_Hash k v i, es) }"
| "write_step (W_Hash k v i) es =
     do { e \<leftarrow> aget es (int i); es \<leftarrow> aset es (int i) (e\<lparr> e_hash := flow_hashtable_hash_key k \<rparr>); Some (W_Occupied k v i, es) }"
| "write_step (W_Occupied k v i) es = do { e \<leftarrow> aget es (int i); es \<leftarrow> aset es (int i) (e\<lparr> e_occupied := True \<rparr>); Some (W_Idle, es) }"
| "write_step W_Idle es = None"

fun read_step :: "nat \<Rightarrow> five_tuple_t \<Rightarrow> flow_hashtable_entry_t list \<Rightarrow> reader \<Rightarrow> reader option" where
  "read_step sz key es (R_Occupied i) = do { e \<leftarrow> aget es (int i); Some (if e_occupied e then R_Hash i else R_Done 1 i) }"
| "read_step sz key es (R_Hash i) =
     do { e \<leftarrow> aget es (int i); Some (if e_hash e = flow_hashtable_hash_key key then R_Key i else R_Occupied (Suc i mod sz)) }"
| "read_step sz key es (R_Key i) =
     do { e \<leftarrow> aget es (int i); Some (if flow_same_key key (e_key e) then R_Done 0 i else R_Occupied (Suc i mod sz)) }"
| "read_step sz key es _ = None"

text \<open>
  An addition begins with the search for its entry, which no other thread disturbs, and only when an entry is left free afterwards, as the flow ids
  guarantee. An addition that finds its key returns without a write.
\<close>

inductive lookup_step :: "nat \<Rightarrow> five_tuple_t \<Rightarrow> lookup_sys \<Rightarrow> lookup_sys \<Rightarrow> bool" for sz key where
  Add: "ls_writer s = W_Idle \<Longrightarrow> Suc (size (elems (ls_entries s))) < sz \<Longrightarrow>
     probe sz (flow_same_key k) (flow_hashtable_hash_key k) (ls_entries s) (HASH2INDEX sz (flow_hashtable_hash_key k)) = Some (1, i) \<Longrightarrow>
     lookup_step sz key s (s\<lparr> ls_writer := W_Key k v i \<rparr>)"
| Write: "write_step (ls_writer s) (ls_entries s) = Some (w, es) \<Longrightarrow> lookup_step sz key s (s\<lparr> ls_writer := w, ls_entries := es \<rparr>)"
| Call: "ls_reader s = R_Idle \<or> (\<exists>x i. ls_reader s = R_Done x i) \<Longrightarrow> lookup_step sz key s (s
     \<lparr> ls_reader := R_Occupied (HASH2INDEX sz (flow_hashtable_hash_key key)), ls_begin := dom (tmap ft_h (ls_entries s)), ls_reads := 0 \<rparr>)"
| Read: "read_step sz key (ls_entries s) (ls_reader s) = Some r \<Longrightarrow> lookup_step sz key s (s\<lparr> ls_reader := r, ls_reads := Suc (ls_reads s) \<rparr>)"

inductive lookup_reachable :: "nat \<Rightarrow> five_tuple_t \<Rightarrow> lookup_sys \<Rightarrow> bool" for sz key where
  Start: "table_inv sz ft_h flow_hash es \<Longrightarrow> size (elems es) < sz \<Longrightarrow>
     lookup_reachable sz key \<lparr> ls_entries = es, ls_writer = W_Idle, ls_reader = R_Idle, ls_begin = {}, ls_reads = 0 \<rparr>"
| Step: "lookup_reachable sz key s \<Longrightarrow> lookup_step sz key s s' \<Longrightarrow> lookup_reachable sz key s'"

section \<open>Invariant\<close>

abbreviation lookup_home :: "nat \<Rightarrow> five_tuple_t \<Rightarrow> nat" where
  "lookup_home sz k \<equiv> HASH2INDEX sz (flow_hash (ft_h k))"

text \<open>The entry that an addition fills is free, at the end of the path of its key, and holds what has been written so far.\<close>

definition target_ok :: "nat \<Rightarrow> flow_hashtable_entry_t list \<Rightarrow> five_tuple_t \<Rightarrow> nat \<Rightarrow> bool" where
  "target_ok sz es k i \<longleftrightarrow> i < sz \<and> \<not> occ es i \<and> Suc (size (elems es)) < sz \<and> tmap ft_h es (ft_h k) = None \<and>
     (\<forall>j < sz. cdist sz (lookup_home sz k) j < cdist sz (lookup_home sz k) i \<longrightarrow> occ es j)"

fun writer_ok :: "nat \<Rightarrow> flow_hashtable_entry_t list \<Rightarrow> writer \<Rightarrow> bool" where
  "writer_ok sz es W_Idle \<longleftrightarrow> True"
| "writer_ok sz es (W_Key k v i) \<longleftrightarrow> target_ok sz es k i"
| "writer_ok sz es (W_Value k v i) \<longleftrightarrow> target_ok sz es k i \<and> e_key (es ! i) = k"
| "writer_ok sz es (W_Hash k v i) \<longleftrightarrow> target_ok sz es k i \<and> e_key (es ! i) = k \<and> e_value (es ! i) = v"
| "writer_ok sz es (W_Occupied k v i) \<longleftrightarrow> target_ok sz es k i \<and> e_key (es ! i) = k \<and> e_value (es ! i) = v \<and> e_hash (es ! i) = flow_hash (ft_h k)"

text \<open>What the lookup has seen: the entries from the home of its key up to the index are occupied by other flows.\<close>

definition seen :: "nat \<Rightarrow> five_tuple_t \<Rightarrow> flow_hashtable_entry_t list \<Rightarrow> nat \<Rightarrow> bool" where
  "seen sz key es i \<longleftrightarrow> i < sz \<and>
     (\<forall>j < sz. cdist sz (lookup_home sz key) j < cdist sz (lookup_home sz key) i \<longrightarrow> occ es j \<and> ft_h (e_key (es ! j)) \<noteq> ft_h key)"

fun reader_ok :: "nat \<Rightarrow> five_tuple_t \<Rightarrow> flow_hashtable_entry_t list \<Rightarrow> five_tuple_for_hash_t set \<Rightarrow> nat \<Rightarrow> reader \<Rightarrow> bool" where
  "reader_ok sz key es B n R_Idle \<longleftrightarrow> True"
| "reader_ok sz key es B n (R_Occupied i) \<longleftrightarrow> seen sz key es i \<and> n \<le> 3 * cdist sz (lookup_home sz key) i"
| "reader_ok sz key es B n (R_Hash i) \<longleftrightarrow> seen sz key es i \<and> occ es i \<and> n \<le> 3 * cdist sz (lookup_home sz key) i + 1"
| "reader_ok sz key es B n (R_Key i) \<longleftrightarrow> seen sz key es i \<and> occ es i \<and> n \<le> 3 * cdist sz (lookup_home sz key) i + 2"
| "reader_ok sz key es B n (R_Done x i) \<longleftrightarrow> i < sz \<and> n \<le> 3 * sz \<and>
     (x = 0 \<and> occ es i \<and> ft_h (e_key (es ! i)) = ft_h key \<or> x = 1 \<and> ft_h key \<notin> B)"

definition lookup_inv :: "nat \<Rightarrow> five_tuple_t \<Rightarrow> lookup_sys \<Rightarrow> bool" where
  "lookup_inv sz key s \<longleftrightarrow> table_inv sz ft_h flow_hash (ls_entries s) \<and> size (elems (ls_entries s)) < sz \<and>
     writer_ok sz (ls_entries s) (ls_writer s) \<and> reader_ok sz key (ls_entries s) (ls_begin s) (ls_reads s) (ls_reader s) \<and>
     ls_begin s \<subseteq> dom (tmap ft_h (ls_entries s))"

text \<open>Writing the fields of a free entry changes nothing for the other thread.\<close>

lemma write_free:
  assumes "table_inv sz ft_h flow_hash es" "i < sz" "\<not> occ es i" "\<not> e_occupied e"
  shows "elems (es[i := e]) = elems es" "table_inv sz ft_h flow_hash (es[i := e])" "tmap ft_h (es[i := e]) = tmap ft_h es"
    "target_ok sz es k i \<Longrightarrow> target_ok sz (es[i := e]) k i"
proof -
  from assms(1) have l: "length es = sz" "chained sz es" "keys_ok ft_h flow_hash (elems es)" by (auto simp: table_inv_def)
  show el: "elems (es[i := e]) = elems es" using assms l by (simp add: elems_update)
  have o: "occ (es[i := e]) j = occ es j" "occ es j \<Longrightarrow> es[i := e] ! j = es ! j" if "j < sz" for j
    using assms(2-4) l(1) that by (cases "j = i"; simp)+
  then have "chained sz (es[i := e])" using l(2) unfolding chained_def by metis
  with el assms(1) show "table_inv sz ft_h flow_hash (es[i := e])" by (simp add: table_inv_def)
  show t: "tmap ft_h (es[i := e]) = tmap ft_h es"
  proof (rule ext)
    fix c
    have "tmap ft_h (es[i := e]) c = Some (k, v) \<longleftrightarrow> tmap ft_h es c = Some (k, v)" for k v
      using tmap_Some_iff [of ft_h flow_hash es] tmap_Some_iff [of ft_h flow_hash "es[i := e]"] l(3) el by simp
    then show "tmap ft_h (es[i := e]) c = tmap ft_h es c" by (metis not_None_eq surj_pair)
  qed
  show "target_ok sz es k i \<Longrightarrow> target_ok sz (es[i := e]) k i"
    using o(1) by (auto simp: target_ok_def el t)
qed

text \<open>A lookup only depends on entries that are occupied, and those stay as they are.\<close>

lemma reader_ok_mono:
  assumes "reader_ok sz key es B n r" "\<And>j. j < sz \<Longrightarrow> occ es j \<Longrightarrow> es' ! j = es ! j"
  shows "reader_ok sz key es' B n r"
proof -
  have "seen sz key es' i" if "seen sz key es i" for i
    using that assms(2) by (auto simp: seen_def)
  with assms show ?thesis by (cases r) (auto simp: seen_def)
qed

lemma add_completes:
  assumes "table_inv sz ft_h flow_hash es" "writer_ok sz es (W_Occupied k v i)"
  shows "table_inv sz ft_h flow_hash (es[i := (es ! i)\<lparr> e_occupied := True \<rparr>])"
    "tmap ft_h (es[i := (es ! i)\<lparr> e_occupied := True \<rparr>]) = (tmap ft_h es)(ft_h k \<mapsto> (k, v))"
    "size (elems (es[i := (es ! i)\<lparr> e_occupied := True \<rparr>])) < sz"
proof -
  let ?e = "(es ! i)\<lparr> e_occupied := True \<rparr>"
  from assms(2) have t: "i < sz" "\<not> occ es i" "Suc (size (elems es)) < sz" "tmap ft_h es (ft_h (e_key ?e)) = None" "e_occupied ?e"
    "e_hash ?e = flow_hash (ft_h (e_key ?e))"
    "\<forall>j < sz. cdist sz (HASH2INDEX sz (e_hash ?e)) j < cdist sz (HASH2INDEX sz (e_hash ?e)) i \<longrightarrow> occ es j"
    and e: "e_key ?e = k" "e_value ?e = v" by (auto simp: target_ok_def)
  note ins = table_insert [OF assms(1) t(4,1,2,5,6,7)]
  from ins(1) show "table_inv sz ft_h flow_hash (es[i := ?e])" .
  from ins(2) e show "tmap ft_h (es[i := ?e]) = (tmap ft_h es)(ft_h k \<mapsto> (k, v))" by simp
  from ins(3) t(3) show "size (elems (es[i := ?e])) < sz" by simp
qed

lemma write_step_inv:
  assumes "write_step w es = Some (w', es')" "table_inv sz ft_h flow_hash es" "size (elems es) < sz" "writer_ok sz es w"
  shows "table_inv sz ft_h flow_hash es' \<and> size (elems es') < sz \<and> writer_ok sz es' w' \<and> dom (tmap ft_h es) \<subseteq> dom (tmap ft_h es') \<and>
    (\<forall>j < sz. occ es j \<longrightarrow> es' ! j = es ! j)"
proof -
  have l: "length es = sz" using assms(2) by (simp add: table_inv_def)
  show ?thesis
  proof (cases w)
    case W_Idle
    with assms(1) show ?thesis by simp
  next
    case (W_Key k v i)
    with assms(4) have t: "i < sz" "\<not> occ es i" "target_ok sz es k i" by (auto simp: target_ok_def)
    from write_free [OF assms(2) t(1,2), where e = "(es ! i)\<lparr> e_key := k \<rparr>"] t(2,3) assms(1,3) W_Key l t(1) show ?thesis
      by (auto simp: nth_list_update)
  next
    case (W_Value k v i)
    with assms(4) have t: "i < sz" "\<not> occ es i" "target_ok sz es k i" by (auto simp: target_ok_def)
    from write_free [OF assms(2) t(1,2), where e = "(es ! i)\<lparr> e_value := v \<rparr>"] t(2,3) assms(1,3,4) W_Value l t(1) show ?thesis
      by (auto simp: nth_list_update)
  next
    case (W_Hash k v i)
    with assms(4) have t: "i < sz" "\<not> occ es i" "target_ok sz es k i" by (auto simp: target_ok_def)
    from write_free [OF assms(2) t(1,2), where e = "(es ! i)\<lparr> e_hash := flow_hash (ft_h k) \<rparr>"] t(2,3) assms(1,3,4) W_Hash l t(1) show ?thesis
      by (auto simp: nth_list_update flow_hash_key_eq)
  next
    case (W_Occupied k v i)
    with assms(4) have t: "i < sz" "\<not> occ es i" by (auto simp: target_ok_def)
    from add_completes [OF assms(2) assms(4) [unfolded W_Occupied]] t assms(1) W_Occupied l show ?thesis
      by (auto simp: nth_list_update)
  qed
qed

text \<open>The next index of a lookup is not its first one, because an entry is free.\<close>

lemma seen_next:
  assumes "table_inv sz ft_h flow_hash es" "size (elems es) < sz" "seen sz key es i" "occ es i" "ft_h (e_key (es ! i)) \<noteq> ft_h key"
  shows "seen sz key es (Suc i mod sz) \<and> cdist sz (lookup_home sz key) (Suc i mod sz) = Suc (cdist sz (lookup_home sz key) i)"
proof -
  let ?h = "lookup_home sz key" and ?n = "Suc i mod sz"
  have l: "length es = sz" "0 < sz" using assms(1) by (auto simp: table_inv_def)
  have h: "?h < sz" and i: "i < sz" using l(2) assms(3) by (auto simp: seen_def)
  have all: "occ es j \<and> ft_h (e_key (es ! j)) \<noteq> ft_h key" if "j < sz" "cdist sz ?h j \<le> cdist sz ?h i" for j
    using that assms(3-5) cdist_inj [OF h that(1) i] by (metis le_neq_implies_less seen_def)
  obtain k where k: "k < sz" "\<not> occ es k" using ex_free [of es] assms(2) l by auto
  have "?n \<noteq> ?h"
  proof
    assume "?n = ?h"
    then have "cdist sz ?h k \<le> cdist sz ?h i" using h i k(1) by (auto simp: cdist_alt suc_mod_alt split: if_splits)
    with all k show False by blast
  qed
  then have c: "cdist sz ?h ?n = Suc (cdist sz ?h i)" using h i by (simp add: cdist_suc)
  with all i show ?thesis by (auto simp: seen_def suc_mod_less)
qed

lemma read_step_inv:
  assumes "read_step sz key es r = Some r'" "table_inv sz ft_h flow_hash es" "size (elems es) < sz" "reader_ok sz key es B n r"
    and "B \<subseteq> dom (tmap ft_h es)"
  shows "reader_ok sz key es B (Suc n) r'"
proof -
  have l: "length es = sz" "0 < sz" "chained sz es" "keys_ok ft_h flow_hash (elems es)" using assms(2) by (auto simp: table_inv_def)
  let ?h = "lookup_home sz key"
  have h: "?h < sz" using l(2) by simp
  have c: "cdist sz ?h i < sz" for i using l(2) by (rule cdist_less)
  show ?thesis
  proof (cases r)
    case (R_Occupied i)
    then have s: "seen sz key es i" "i < sz" and n: "n \<le> 3 * cdist sz ?h i" using assms(4) by (auto simp: seen_def)
    show ?thesis
    proof (cases "occ es i")
      case True
      with R_Occupied assms(1) s n l(1) show ?thesis by auto
    next
      case False
      have "tmap ft_h es (ft_h key) = None"
      proof (rule ccontr)
        assume "tmap ft_h es (ft_h key) \<noteq> None"
        then have "\<exists>j < sz. occ es j \<and> ft_h (e_key (es ! j)) = ft_h key" by (rule tmap_neq_None_iff [OF l(1), THEN iffD1])
        then obtain j where j: "j < sz" "occ es j" "ft_h (e_key (es ! j)) = ft_h key" by blast
        then have "home sz es j = ?h" using l(1,4) elems_mem [of j es] by (auto simp: keys_ok_def)
        with chainedD [OF l(3) j(1,2) s(2)] False have "\<not> cdist sz ?h i < cdist sz ?h j" by metis
        moreover from s(1) j have "\<not> cdist sz ?h j < cdist sz ?h i" by (auto simp: seen_def)
        ultimately have "i = j" using cdist_inj [OF h s(2) j(1)] by simp
        with False j(2) show False by simp
      qed
      then have "ft_h key \<notin> B" using assms(5) by auto
      moreover have "Suc n \<le> 3 * sz" using n c [of i] by linarith
      ultimately show ?thesis using R_Occupied assms(1) s False l(1) by auto
    qed
  next
    case (R_Hash i)
    then have s: "seen sz key es i" "i < sz" "occ es i" and n: "n \<le> 3 * cdist sz ?h i + 1" using assms(4) by (auto simp: seen_def)
    have "e_hash (es ! i) = flow_hash (ft_h (e_key (es ! i)))" using l(1,4) elems_mem [of i es] s(2,3) by (auto simp: keys_ok_def)
    then have "e_hash (es ! i) \<noteq> flow_hash (ft_h key) \<Longrightarrow> ft_h (e_key (es ! i)) \<noteq> ft_h key" by auto
    note nxt = seen_next [OF assms(2,3) s(1,3) this]
    show ?thesis
    proof (cases "e_hash (es ! i) = flow_hash (ft_h key)")
      case True
      then have "r' = R_Key i" using R_Hash assms(1) s(2) l(1) by (simp add: flow_hash_key_eq)
      with s n show ?thesis by simp
    next
      case False
      then have "r' = R_Occupied (Suc i mod sz)" using R_Hash assms(1) s(2) l(1) by (simp add: flow_hash_key_eq)
      with nxt [OF False] n show ?thesis by simp
    qed
  next
    case (R_Key i)
    then have s: "seen sz key es i" "i < sz" "occ es i" and n: "n \<le> 3 * cdist sz ?h i + 2" using assms(4) by (auto simp: seen_def)
    have "Suc n \<le> 3 * sz" using n c [of i] by linarith
    show ?thesis
    proof (cases "ft_h (e_key (es ! i)) = ft_h key")
      case True
      then have "r' = R_Done 0 i" using R_Key assms(1) s(2) l(1) by (simp add: flow_same_key_eq)
      with s True \<open>Suc n \<le> 3 * sz\<close> show ?thesis by simp
    next
      case False
      then have "r' = R_Occupied (Suc i mod sz)" using R_Key assms(1) s(2) l(1) by (simp add: flow_same_key_eq)
      with seen_next [OF assms(2,3) s(1,3) False] n show ?thesis by simp
    qed
  qed (use assms(1) in simp_all)
qed

lemma lookup_step_inv:
  assumes "lookup_step sz key s s'" "lookup_inv sz key s"
  shows "lookup_inv sz key s'"
proof -
  from assms(2) have I: "table_inv sz ft_h flow_hash (ls_entries s)" "size (elems (ls_entries s)) < sz" "writer_ok sz (ls_entries s) (ls_writer s)"
    "reader_ok sz key (ls_entries s) (ls_begin s) (ls_reads s) (ls_reader s)" "ls_begin s \<subseteq> dom (tmap ft_h (ls_entries s))"
    by (auto simp: lookup_inv_def)
  have sz: "0 < sz" using I(1) by (simp add: table_inv_def)
  from assms(1) show ?thesis
  proof cases
    case (Add k i v)
    have "tmap ft_h (ls_entries s) (ft_h k) = None"
    proof (rule ccontr)
      assume "tmap ft_h (ls_entries s) (ft_h k) \<noteq> None"
      then obtain k' v' where "tmap ft_h (ls_entries s) (ft_h k) = Some (k', v')" by auto
      from table_probe_hit [OF I(1) this] Add(4) show False by (auto simp: flow_key_simps)
    qed
    from table_probe_miss [OF I(1) this I(2)] this Add(3,4) have "target_ok sz (ls_entries s) k i"
      by (auto simp: target_ok_def flow_key_simps)
    with Add(1) I show ?thesis by (simp add: lookup_inv_def)
  next
    case (Write w es)
    from write_step_inv [OF Write(2) I(1-3)] have W: "table_inv sz ft_h flow_hash es" "size (elems es) < sz" "writer_ok sz es w"
      "dom (tmap ft_h (ls_entries s)) \<subseteq> dom (tmap ft_h es)" "\<And>j. j < sz \<Longrightarrow> occ (ls_entries s) j \<Longrightarrow> es ! j = ls_entries s ! j" by auto
    from reader_ok_mono [OF I(4) W(5)] W(1-4) I(5) Write(1) show ?thesis by (auto simp: lookup_inv_def)
  next
    case Call
    with I sz show ?thesis by (simp add: lookup_inv_def seen_def flow_hash_key_eq)
  next
    case (Read r)
    from read_step_inv [OF Read(2) I(1,2,4,5)] I Read(1) show ?thesis by (simp add: lookup_inv_def)
  qed
qed

lemma lookup_reachable_inv: "lookup_reachable sz key s \<Longrightarrow> lookup_inv sz key s"
proof (induction rule: lookup_reachable.induct)
  case (Start es)
  then show ?case by (simp add: lookup_inv_def)
next
  case (Step s s')
  then show ?case using lookup_step_inv by blast
qed

section \<open>Removals\<close>

text \<open>The table after the first write of \<open>remove_by_index\<close>.\<close>

definition remove_first_write :: "flow_hashtable_t \<Rightarrow> nat \<Rightarrow> flow_hashtable_t option" where
  "remove_first_write t index =
     do { e \<leftarrow> aget (fh_entries t) (int index);
          entries \<leftarrow> aset (fh_entries t) (int index) (e\<lparr> e_occupied := False \<rparr>);
          Some (t\<lparr> fh_entries := entries \<rparr>) }"

lemma flow_position_unique:
  assumes "flow_table_inv cfg t" "i < FLOW_HASHTABLE_SIZE cfg" "j < FLOW_HASHTABLE_SIZE cfg" "occ (fh_entries t) i" "occ (fh_entries t) j"
    and "ft_h (e_key (fh_entries t ! i)) = ft_h (e_key (fh_entries t ! j))"
  shows "i = j"
proof -
  note D = flow_table_invD [OF assms(1)]
  have "fh_entries t ! i = fh_entries t ! j"
    using keys_ok_unique [OF D(6) elems_mem elems_mem assms(6)] assms(2-5) D(4) by simp
  with index_map_ok_values [OF D(3)] assms(2-5) D(4) show ?thesis by metis
qed

lemma flow_at_position:
  assumes "flow_table_inv cfg t" "j < FLOW_HASHTABLE_SIZE cfg" "occ (fh_entries t) j"
  shows "flow_map t (ft_h (e_key (fh_entries t ! j))) = Some (e_value (fh_entries t ! j))"
proof -
  note D = flow_table_invD [OF assms(1)]
  have "fh_entries t ! j \<in># elems (fh_entries t)" using assms(2,3) D(4) by (simp add: elems_mem)
  then have "tmap ft_h (fh_entries t) (ft_h (e_key (fh_entries t ! j))) = Some (e_key (fh_entries t ! j), e_value (fh_entries t ! j))"
    using tmap_Some_iff [OF D(6)] by blast
  then show ?thesis by (simp add: flow_map_def)
qed

text \<open>The search stops at the entry that is no longer marked as occupied.\<close>

lemma lookup_stops_at_removed:
  assumes inv: "flow_table_inv cfg t" and ij: "i < FLOW_HASHTABLE_SIZE cfg" "j < FLOW_HASHTABLE_SIZE cfg" "occ (fh_entries t) j"
    and key: "key = e_key (fh_entries t ! j)" and sz: "sz = FLOW_HASHTABLE_SIZE cfg"
    and path: "cdist sz (lookup_home sz key) i < cdist sz (lookup_home sz key) j"
  shows "probe sz (flow_same_key key) (flow_hashtable_hash_key key) ((fh_entries t)[i := (fh_entries t ! i)\<lparr> e_occupied := False \<rparr>]) (lookup_home sz key) = Some (1, i)"
proof -
  note D = flow_table_invD [OF inv]
  let ?es = "fh_entries t" and ?h = "lookup_home sz key" and ?same = "flow_same_key key" and ?hash = "flow_hashtable_hash_key key"
  let ?es' = "?es[i := (?es ! i)\<lparr> e_occupied := False \<rparr>]"
  have l: "length ?es' = sz" "?h < sz" "i < sz" using D(1,4) ij(1) sz by (auto simp: table_inv_def)
  have free: "\<not> occ ?es' i" using l by simp
  have "home sz ?es j = ?h" using elems_mem [of j ?es] D(4,6) ij(2,3) by (simp add: keys_ok_def key)
  then have before: "occ ?es' n \<and> \<not> matches ?same ?hash (?es' ! n)" if n: "n < sz" "cdist sz ?h n < cdist sz ?h i" for n
  proof -
    have "n \<noteq> i" "n \<noteq> j" using n(2) path by auto
    have "occ ?es n"
      using D(1) chainedD [of sz ?es j n] ij(2,3) n path \<open>home sz ?es j = ?h\<close> by (auto simp: table_inv_def sz)
    moreover have "ft_h (e_key (?es ! n)) \<noteq> ft_h key"
      using flow_position_unique [OF inv, of n j] n(1) ij(2,3) \<open>occ ?es n\<close> \<open>n \<noteq> j\<close> by (auto simp: key sz)
    ultimately show ?thesis using \<open>n \<noteq> i\<close> by (simp add: matches_def flow_same_key_eq)
  qed
  from probe_from [OF l(1,2,2,3) disjI1 [OF free], of ?same ?hash] l(2) obtain r m where
    r: "probe sz ?same ?hash ?es' ?h = Some (r, m)" "probe_post sz ?same ?hash ?es' ?h r m" by (auto simp: cdist_eq_0_iff)
  then have m: "m < sz" "\<not> cdist sz ?h i < cdist sz ?h m" "r = 1 \<and> \<not> occ ?es' m \<or> r = 0 \<and> matches ?same ?hash (?es' ! m)"
    using free l(3) unfolding probe_post_def by blast+
  have "\<not> cdist sz ?h m < cdist sz ?h i" using before [OF m(1)] m(3) by (auto simp: matches_def)
  with m have "m = i" using cdist_inj [OF l(2) m(1) l(3)] by simp
  with m(3) free r(1) show ?thesis by (auto simp: matches_def)
qed

section \<open>Properties\<close>

text \<open>
  C11. A lookup in the flow table that runs while flows are added is correct without a lock. Whenever it is done, either it reports its flow as present
  and the flow is in the table at the index it has found, or it reports it as absent and the flow was not in the table when the lookup began; flows in the
  table at that time are still there. A lookup that is not done always has a next access inside the array, and it makes at most three accesses per entry
  of the table.
\<close>

theorem concurrent_lookup_correct:
  assumes "lookup_reachable sz key s"
  shows "(\<forall>x i. ls_reader s = R_Done x i \<longrightarrow>
      x = 0 \<and> tmap ft_h (ls_entries s) (ft_h key) = Some (e_key (ls_entries s ! i), e_value (ls_entries s ! i)) \<or> x = 1 \<and> ft_h key \<notin> ls_begin s) \<and>
    ls_begin s \<subseteq> dom (tmap ft_h (ls_entries s)) \<and>
    (ls_reader s \<noteq> R_Idle \<longrightarrow> ls_reads s \<le> 3 * sz \<and>
      ((\<exists>x i. ls_reader s = R_Done x i) \<or> read_step sz key (ls_entries s) (ls_reader s) \<noteq> None))"
proof -
  from lookup_reachable_inv [OF assms] have I: "table_inv sz ft_h flow_hash (ls_entries s)"
    "reader_ok sz key (ls_entries s) (ls_begin s) (ls_reads s) (ls_reader s)" "ls_begin s \<subseteq> dom (tmap ft_h (ls_entries s))"
    by (auto simp: lookup_inv_def)
  have l: "length (ls_entries s) = sz" "0 < sz" "keys_ok ft_h flow_hash (elems (ls_entries s))" using I(1) by (auto simp: table_inv_def)
  have c: "cdist sz (lookup_home sz key) i < sz" for i using l(2) by (rule cdist_less)
  have "tmap ft_h (ls_entries s) (ft_h key) = Some (e_key (ls_entries s ! i), e_value (ls_entries s ! i))"
    if "i < sz" "occ (ls_entries s) i" "ft_h (e_key (ls_entries s ! i)) = ft_h key" for i
    using tmap_Some_iff [OF l(3)] elems_mem [of i "ls_entries s"] that l(1) by blast
  moreover have "ls_reads s \<le> 3 * sz \<and> ((\<exists>x i. ls_reader s = R_Done x i) \<or> read_step sz key (ls_entries s) (ls_reader s) \<noteq> None)"
    if "ls_reader s \<noteq> R_Idle"
  proof (cases "ls_reader s")
    case (R_Occupied i)
    then show ?thesis using I(2) c [of i] l(1) by (auto simp: seen_def)
  next
    case (R_Hash i)
    then show ?thesis using I(2) c [of i] l(1) by (auto simp: seen_def)
  next
    case (R_Key i)
    then show ?thesis using I(2) c [of i] l(1) by (auto simp: seen_def)
  qed (use that I(2) in auto)
  ultimately show ?thesis using I(2,3) by auto
qed

text \<open>A lookup that begins before an addition has marked its entry as occupied, and that finds the flow.\<close>

lemma lookup_reachable_to: "lookup_reachable sz key s \<Longrightarrow> lookup_step sz key s t \<Longrightarrow> t = s' \<Longrightarrow> lookup_reachable sz key s'"
  using Step by blast

definition example_entries :: "five_tuple_t \<Rightarrow> int \<Rightarrow> u32 \<Rightarrow> bool \<Rightarrow> flow_hashtable_entry_t list" where
  "example_entries k v h b = (replicate 16 zero_flow_entry)[lookup_home 16 (example_key 4) := \<lparr> e_key = k, e_value = v, e_hash = h, e_occupied = b \<rparr>]"

definition example_lookup :: "flow_hashtable_entry_t list \<Rightarrow> writer \<Rightarrow> reader \<Rightarrow> nat \<Rightarrow> lookup_sys" where
  "example_lookup es w r n = \<lparr> ls_entries = es, ls_writer = w, ls_reader = r, ls_begin = {}, ls_reads = n \<rparr>"

lemma example_lookup_reachable:
  "lookup_reachable 16 (example_key 4)
     (example_lookup (example_entries (example_key 4) 5 (flow_hashtable_hash_key (example_key 4)) True) W_Idle (R_Done 0 (lookup_home 16 (example_key 4))) 3)"
proof -
  let ?k = "example_key 4" and ?h = "lookup_home 16 (example_key 4)" and ?hash = "flow_hashtable_hash_key (example_key 4)"
  let ?e = "example_entries" and ?R = "lookup_reachable 16 (example_key 4)"
  note e = example_lookup_def example_entries_def flow_key_simps zero_flow_entry_def
  have h: "?h < 16" by simp
  have z: "example_entries zero_five_tuple 0 0 False = replicate 16 zero_flow_entry"
    using h by (simp add: example_entries_def list_update_same_conv) (simp add: zero_flow_entry_def)
  have init: "table_inv 16 ft_h flow_hash (replicate 16 zero_flow_entry)" "elems (replicate 16 zero_flow_entry) = {#}"
    using flow_table_invD(1) [OF flow_init_inv(1) [OF cfg_ok_small]]
    by (simp add: flow_hashtable_init_def) (simp add: elems_def zero_flow_entry_def filter_replicate flip: mset_filter del: mset_replicate)
  have p: "probe 16 (flow_same_key ?k) ?hash (replicate 16 zero_flow_entry) ?h = Some (1, ?h)"
    by (subst probe.simps) (simp add: zero_flow_entry_def h)
  have "?R (example_lookup (?e zero_five_tuple 0 0 False) W_Idle R_Idle 0)"
    unfolding z using lookup_reachable.Start [OF init(1)] init(2) by (simp add: example_lookup_def)
  then have "?R (example_lookup (?e zero_five_tuple 0 0 False) (W_Key ?k 5 ?h) R_Idle 0)"
    by (rule lookup_reachable_to [OF _ Add [where k = ?k and i = ?h and v = 5]]) (use init(2) p z in \<open>simp_all add: example_lookup_def flow_hash_key_eq\<close>)
  then have "?R (example_lookup (?e ?k 0 0 False) (W_Value ?k 5 ?h) R_Idle 0)"
    by (rule lookup_reachable_to [OF _ Write]) (use h in \<open>auto simp: e\<close>)
  then have "?R (example_lookup (?e ?k 5 0 False) (W_Hash ?k 5 ?h) R_Idle 0)"
    by (rule lookup_reachable_to [OF _ Write]) (use h in \<open>auto simp: e\<close>)
  then have r: "?R (example_lookup (?e ?k 5 ?hash False) (W_Occupied ?k 5 ?h) R_Idle 0)"
    by (rule lookup_reachable_to [OF _ Write]) (use h in \<open>auto simp: e\<close>)
  have "tmap ft_h (?e ?k 5 ?hash False) = Map.empty"
    by (rule ext) (simp add: tmap_None_iff ball_elems example_entries_def zero_flow_entry_def nth_list_update)
  then have "?R (example_lookup (?e ?k 5 ?hash False) (W_Occupied ?k 5 ?h) (R_Occupied ?h) 0)"
    by (intro lookup_reachable_to [OF r Call]) (simp_all add: example_lookup_def flow_hash_key_eq)
  then have "?R (example_lookup (?e ?k 5 ?hash True) W_Idle (R_Occupied ?h) 0)"
    by (rule lookup_reachable_to [OF _ Write]) (use h in \<open>auto simp: e\<close>)
  then have "?R (example_lookup (?e ?k 5 ?hash True) W_Idle (R_Hash ?h) 1)"
    by (rule lookup_reachable_to [OF _ Read]) (use h in \<open>auto simp: e\<close>)
  then have "?R (example_lookup (?e ?k 5 ?hash True) W_Idle (R_Key ?h) 2)"
    by (rule lookup_reachable_to [OF _ Read]) (use h in \<open>auto simp: e\<close>)
  then show ?thesis
    by (rule lookup_reachable_to [OF _ Read]) (use h in \<open>auto simp: e\<close>)
qed

theorem concurrent_lookup_correct_witness:
  "tmap ft_h (example_entries (example_key 4) 5 (flow_hashtable_hash_key (example_key 4)) True) (ft_h (example_key 4)) = Some (example_key 4, 5)"
  using concurrent_lookup_correct [OF example_lookup_reachable] by (simp add: example_lookup_def example_entries_def)

text \<open>
  C37. A lookup that runs while another flow is removed can miss a flow that stays in the table. For an entry that the search for the flow passes, the
  first write of \<open>remove_by_index\<close> makes the lookup return 1, although it finds the flow before the removal and after it.
\<close>

theorem removal_hides_other_flows:
  assumes "flow_table_inv cfg t" "i < FLOW_HASHTABLE_SIZE cfg" "j < FLOW_HASHTABLE_SIZE cfg" "occ (fh_entries t) i" "occ (fh_entries t) j"
    and "key = e_key (fh_entries t ! j)" "sz = FLOW_HASHTABLE_SIZE cfg" "cdist sz (lookup_home sz key) i < cdist sz (lookup_home sz key) j"
  shows "flow_hashtable_get cfg t key v0 = Some (0, e_value (fh_entries t ! j)) \<and>
    (\<exists>t1. remove_first_write t i = Some t1 \<and> flow_hashtable_get cfg t1 key v0 = Some (1, v0)) \<and>
    (\<exists>t'. remove_by_index cfg t (int i) = Some t' \<and> flow_hashtable_get cfg t' key v0 = Some (0, e_value (fh_entries t ! j)))"
proof (intro conjI)
  note D = flow_table_invD [OF assms(1)]
  note m = flow_at_position [OF assms(1,3,5)]
  show "flow_hashtable_get cfg t key v0 = Some (0, e_value (fh_entries t ! j))" using flow_get_hit [OF assms(1)] m assms(6) by simp
  let ?t1 = "t\<lparr> fh_entries := (fh_entries t)[i := (fh_entries t ! i)\<lparr> e_occupied := False \<rparr>] \<rparr>"
  have "remove_first_write t i = Some ?t1" using assms(2) D(4) by (simp add: remove_first_write_def)
  moreover have "flow_hashtable_get cfg ?t1 key v0 = Some (1, v0)"
    using lookup_stops_at_removed [OF assms(1-3,5-8)] assms(7)
    by (simp add: flow_hashtable_get_def get_hashtable_index_def flow_hash_key_eq)
  ultimately show "\<exists>t1. remove_first_write t i = Some t1 \<and> flow_hashtable_get cfg t1 key v0 = Some (1, v0)" by blast
  from flow_remove_by_index_ok [OF assms(1,2,4)] obtain t' where
    t': "remove_by_index cfg t (int i) = Some t'" "flow_table_inv cfg t'" "flow_map t' = (flow_map t)(ft_h (e_key (fh_entries t ! i)) := None)" by blast
  have "i \<noteq> j" using assms(8) by auto
  then have "ft_h (e_key (fh_entries t ! i)) \<noteq> ft_h key" using flow_position_unique [OF assms(1-5)] assms(6) by auto
  then have "flow_map t' (ft_h key) = Some (e_value (fh_entries t ! j))" using t'(3) m assms(6) by simp
  from flow_get_hit [OF t'(2) this] t'(1)
  show "\<exists>t'. remove_by_index cfg t (int i) = Some t' \<and> flow_hashtable_get cfg t' key v0 = Some (0, e_value (fh_entries t ! j))" by blast
qed

text \<open>Two flows with the same home: the second lies behind the first.\<close>

definition colliding_entry :: "u16 \<Rightarrow> int \<Rightarrow> flow_hashtable_entry_t" where
  "colliding_entry p v = \<lparr> e_key = example_key p, e_value = v, e_hash = flow_hashtable_hash_key (example_key p), e_occupied = True \<rparr>"

definition colliding_flows :: flow_hashtable_t where
  "colliding_flows = \<lparr> fh_num_entries = 2, fh_entries = (replicate 16 zero_flow_entry)[10 := colliding_entry 4 5, 11 := colliding_entry 6 6],
     feature_index_to_entry_map = (replicate 8 (- 1))[5 := 10, 6 := 11] \<rparr>"

lemma colliding_home:
  "HASH2INDEX 16 (flow_hash (ft_h (example_key 4))) = 10" "HASH2INDEX 16 (flow_hash (ft_h (example_key 6))) = 10"
  unfolding flow_hash_key_eq [symmetric] by code_simp+

lemma colliding_flows_inv: "flow_table_inv small_config colliding_flows"
proof -
  note init = flow_init_inv [OF cfg_ok_small]
  have c: "fh_entries (flow_hashtable_init small_config) = replicate 16 zero_flow_entry"
    "feature_index_to_entry_map (flow_hashtable_init small_config) = replicate 8 (- 1)" "fh_num_entries (flow_hashtable_init small_config) = 0"
    by (simp_all add: flow_hashtable_init_def)
  from flow_add_new [OF init(1), of "example_key 4" 5] obtain t where
    t: "flow_hashtable_add small_config (flow_hashtable_init small_config) (example_key 4) 5 = Some (0, t)" "flow_table_inv small_config t"
      "flow_map t = [ft_h (example_key 4) \<mapsto> 5]" by (auto simp: init(2) flow_id_free_def)
  have p: "probe 16 (flow_same_key (example_key 4)) (flow_hash (ft_h (example_key 4))) (replicate 16 zero_flow_entry) 10 = Some (1, 10)"
    by (subst probe.simps) (simp add: zero_flow_entry_def)
  then have t1: "fh_entries t = (replicate 16 zero_flow_entry)[10 := colliding_entry 4 5]"
    "feature_index_to_entry_map t = (replicate 8 (- 1))[5 := 10]" "fh_num_entries t = 1"
    using t(1) by (auto simp: flow_hashtable_add_def c flow_hash_key_eq colliding_home colliding_entry_def)
  have k: "ft_h (example_key 6) \<noteq> ft_h (example_key 4)"
  proof
    assume "ft_h (example_key 6) = ft_h (example_key 4)"
    then have "src_port (ft_h (example_key 6)) = src_port (ft_h (example_key 4))" by simp
    then show False by simp
  qed
  have "\<exists>t'. flow_hashtable_add small_config t (example_key 6) 6 = Some (0, t') \<and> flow_table_inv small_config t'"
    using flow_add_new [OF t(2), of "example_key 6" 6] t(3) k by (auto simp: flow_id_free_def)
  then obtain t' where t': "flow_hashtable_add small_config t (example_key 6) 6 = Some (0, t')" "flow_table_inv small_config t'" by blast
  have "probe 16 (flow_same_key (example_key 6)) (flow_hash (ft_h (example_key 6))) (fh_entries t) 10 = Some (1, 11)"
    using k unfolding t1 by (subst probe.simps, subst probe.simps) (simp add: zero_flow_entry_def colliding_entry_def flow_same_key_eq)
  moreover have "t = \<lparr> fh_num_entries = 1, fh_entries = (replicate 16 zero_flow_entry)[10 := colliding_entry 4 5],
      feature_index_to_entry_map = (replicate 8 (- 1))[5 := 10] \<rparr>" using t1 by (cases t) simp
  ultimately have "t' = colliding_flows"
    using t'(1) by (simp add: flow_hashtable_add_def flow_hash_key_eq colliding_home colliding_flows_def) (simp add: colliding_entry_def flow_hash_key_eq)
  with t'(2) show ?thesis by simp
qed

lemma colliding_flows_at:
  "fh_entries colliding_flows ! 10 = colliding_entry 4 5" "fh_entries colliding_flows ! 11 = colliding_entry 6 6"
  by (simp_all add: colliding_flows_def)

theorem removal_hides_other_flows_witness:
  "flow_hashtable_get small_config colliding_flows (example_key 6) 0 = Some (0, 6) \<and>
    (\<exists>t1. remove_first_write colliding_flows 10 = Some t1 \<and> flow_hashtable_get small_config t1 (example_key 6) 0 = Some (1, 0))"
proof -
  have o: "occ (fh_entries colliding_flows) 10" "occ (fh_entries colliding_flows) 11" "example_key 6 = e_key (fh_entries colliding_flows ! 11)"
    "e_value (fh_entries colliding_flows ! 11) = 6"
    by (simp_all add: colliding_flows_at colliding_entry_def)
  have d: "cdist 16 (lookup_home 16 (example_key 6)) 10 < cdist 16 (lookup_home 16 (example_key 6)) 11"
    unfolding colliding_home by (simp add: cdist_alt)
  have "(10 :: nat) < FLOW_HASHTABLE_SIZE small_config" "(11 :: nat) < FLOW_HASHTABLE_SIZE small_config" "16 = FLOW_HASHTABLE_SIZE small_config" by simp_all
  from removal_hides_other_flows [OF colliding_flows_inv this(1,2) o(1,2,3) this(3) d, of 0] show ?thesis
    unfolding o(4) by blast
qed

end
