(* ===== verification/End_To_End.thy ===== *)
theory End_To_End
  imports Flow_Pipeline Packet_Handler
begin

text \<open>
  The way of a flow through the controller, from the bytes of a frame that the switch mirrors to the CPU to the
  entry in the classification table of the switch: \<^verbatim>\<open>packet_handler.c\<close>, the packet ring, \<^verbatim>\<open>flow_db.c\<close>, the data plane ring,
  \<^verbatim>\<open>dataplane.c\<close> and \<^verbatim>\<open>dp_api.c\<close>, composed as the threads compose them. The specification, \<open>frame_match\<close>, is written on the fields of
  the headers and mentions none of the intermediate data.

  Shown: a frame of a relevant flow that is not known yet leads to an entry that matches exactly the header fields of the
  frame, in the pipe of its ingress port, with the register index of its session; and every command that is ever pending for
  the switch, orderly history or not, has operands in range and can be executed, a wild offset of a FIN excepted.
\<close>

section \<open>The entry of a frame\<close>

fun l4_dest :: "l4_header \<Rightarrow> port_t" where
  "l4_dest (TCP_Header sp dp a flags b) = dp"
| "l4_dest (UDP_Header sp dp a) = dp"

fun is_ip6 :: "l3_header \<Rightarrow> bool" where
  "is_ip6 (IP4_Header a b saddr daddr) \<longleftrightarrow> False"
| "is_ip6 (IP6_Header a b saddr daddr) \<longleftrightarrow> True"

text \<open>
  The match key that the switch needs to recognise the packets of the frame's flow: the addresses as numbers of the host, the ports, and
  whether the protocol is TCP.
\<close>

fun frame_match :: "l3_header \<Rightarrow> l4_header \<Rightarrow> match_spec" where
  "frame_match (IP4_Header a b saddr daddr) l4 =
     Match4 \<lparr> ipv4_srcAddr = bswap_32 saddr, ipv4_dstAddr = bswap_32 daddr,
       m4_l4_lookup_src = l4_source l4, m4_l4_lookup_dst = l4_dest l4, m4_tcp_valid = (if is_tcp l4 then 1 else 0) \<rparr>"
| "frame_match (IP6_Header a b saddr daddr) l4 =
     Match6 \<lparr> ipv6_srcAddr = rev (le_bytes 16 saddr), ipv6_dstAddr = rev (le_bytes 16 daddr),
       m6_l4_lookup_src = l4_source l4, m6_l4_lookup_dst = l4_dest l4, m6_tcp_valid = (if is_tcp l4 then 1 else 0) \<rparr>"

lemma session_side_simps [simp]:
  "ft_h (session_side dnsdb m ft) = ft_h ft" "dev_port (session_side dnsdb m ft) = dev_port ft"
  by (simp_all add: session_side_def)

lemma frame_tuple_port [simp]: "dev_port (frame_tuple ts port off l3 l4) = port"
  by (simp add: frame_tuple_def)

lemma frame_tuple_match:
  assumes "ft_h ft = ft_h (frame_tuple ts port off l3 l4)"
  shows "flow_match ft = frame_match l3 l4" "is_ipv6 ft = is_ip6 l3"
  using assms by (cases l3; cases l4;
      simp add: frame_tuple_def flow_match_def ipv4_match_def ipv6_match_def is_ipv6_def L3_IPV4_def L3_IPV6_def L4_TCP_def L4_UDP_def s6_addr_def)+

lemma frame_tuple_ok:
  assumes "ft_h ft = ft_h (frame_tuple ts port off l3 l4)" "uint (dev_port ft) < int MAX_DEV_PORT_ID"
  shows "tuple_ok ft"
  using assms by (cases l3; cases l4) (simp_all add: frame_tuple_def tuple_ok_def ipv4_addr_def)

section \<open>From the frame to the packet ring\<close>

lemma frame_queues_flow:
  assumes ps: "ph_ok cfg ps" "flow_map (ph_flows ps) (ft_h ft) = None" "rb_items (PACKET_RINGBUFFER_SIZE cfg) (ph_packets ps) = []"
    and fr: "l3_ok l3" "l4_ok l4" "length pad = 4" "length (frame ts pad port l3 l4) \<le> caplen" "caplen \<le> length (frame ts pad port l3 l4 @ ys)"
    and ft: "ft = session_side dnsdb (dns_map (ph_dns ps)) (frame_tuple ts port off l3 l4)" "relevant dnsdb (dns_map (ph_dns ps)) now ft"
    and no: "l4_flags l4 AND TH_FIN = 0" "is_tcp l4 \<or> l4_source l4 \<noteq> 0x3500"
  shows "\<exists>ps' ring'. packet_handler cfg dnsdb now caplen (frame ts pad port l3 l4 @ ys) off ps = Some ps' \<and> ph_ok cfg ps' \<and>
    ph_flows ps' = ph_flows ps \<and>
    ringbuffer_get (PACKET_RINGBUFFER_SIZE cfg) (ph_packets ps') = Some ((0, Some (PKT_ADD_FLOW ft)), ring')"
proof -
  let ?f = "frame_tuple ts port off l3 l4" and ?m = "dns_map (ph_dns ps)" and ?N = "PACKET_RINGBUFFER_SIZE cfg"
  have t: "l4_proto (ft_h ?f) = L4_TCP \<longleftrightarrow> is_tcp l4"
    by (cases l4) (simp_all add: frame_tuple_def L4_TCP_def L4_UDP_def)
  have known: "flow_map (ph_flows ps) (ft_h ?f) = None" using ps(2) ft(1) by simp
  from packet_handler_effect [OF ps(1) fr(5) parse_frame [OF fr(1-4), of ys off], of "l4_flags l4" dnsdb now]
    frame_not_reply [OF fr(1-3)] frame_l4(1) [OF fr(1-3)] no(2) t known obtain ps' where
    h: "packet_handler cfg dnsdb now caplen (frame ts pad port l3 l4 @ ys) off ps = Some ps'"
      "ph_effect cfg (packet_commands dnsdb ?m now False ft (l4_flags l4)) ps ps'" unfolding ft(1) by auto
  have "packet_verdict False ft (l4_flags l4) = Classify" using no(1) by (simp add: packet_verdict_def)
  then obtain cs where "fst (packet_commands dnsdb ?m now False ft (l4_flags l4)) = PKT_ADD_FLOW ft # cs"
    using ft(2) by (simp add: packet_commands_def new_commands_def)
  moreover have "0 < ?N" using ph_okD(4) [OF ps(1)] by (simp add: rb_inv_def)
  ultimately obtain zs where "rb_items ?N (ph_packets ps') = PKT_ADD_FLOW ft # zs"
    using h(2) ps(3) q_accept_all_prefix [of ?N cs "[PKT_ADD_FLOW ft]"] by (auto simp: ph_effect_def q_accept_def)
  with ring.get_item [OF ph_okD(4)] h show ?thesis unfolding ph_effect_def by blast
qed

section \<open>From the frame to the switch\<close>

text \<open>
  C4. From the frame to the switch. A frame is captured with its headers, its flow is relevant, it is neither a FIN nor taken for
  a DNS reply, and the controller has resources left for the flow. Then the packet handler puts the flow into the packet ring, the flow
  database takes it from there, gives it an id and stays in a state that is reached by an orderly history, and the data plane thread can execute all that is then pending.
  If it reports no error, the classification table of the frame's protocol holds, under the handle of the flow's id, an entry with exactly the header
  fields of the frame, for the pipe of the ingress port, with the register index of the session that the session table holds for the flow.
\<close>

theorem frame_installs_flow:
  assumes sys: "sde_tables sde tab" "devmap_ok devmap" "cfg_ok cfg" "orderly_reachable cfg us devmap PF PS sde tab (db, dp)"
    and ps: "ph_ok cfg ps" "ph_flows ps = db_flows db" "rb_items (PACKET_RINGBUFFER_SIZE cfg) (ph_packets ps) = []"
    and fr: "l3_ok l3" "l4_ok l4" "length pad = 4" "length (frame ts pad port l3 l4) \<le> caplen" "caplen \<le> length (frame ts pad port l3 l4 @ ys)"
    and ft: "ft = session_side dnsdb (dns_map (ph_dns ps)) (frame_tuple ts port off l3 l4)" "relevant dnsdb (dns_map (ph_dns ps)) now ft"
    and no: "l4_flags l4 AND TH_FIN = 0" "is_tcp l4 \<or> l4_source l4 \<noteq> 0x3500"
    and res: "wf_packet us PF PS ft" "session_available cfg us PS ft db" "addable cfg devmap PF ft db"
  shows "\<exists>ps' ring' db' dp' x s.
    packet_handler cfg dnsdb now caplen (frame ts pad port l3 l4 @ ys) off ps = Some ps' \<and>
    ringbuffer_get (PACKET_RINGBUFFER_SIZE cfg) (ph_packets ps') = Some ((0, Some (PKT_ADD_FLOW ft)), ring') \<and>
    flowdb_command cfg us devmap uuid junk g (PKT_ADD_FLOW ft) db = Some db' \<and>
    flow_map (db_flows db') = (flow_map (db_flows db))(ft_h ft \<mapsto> x) \<and>
    session_map us (db_sessions db') (session_key us ft) = Some s \<and>
    orderly_reachable cfg us devmap PF PS sde tab (db', dp) \<and>
    dataplane_run sde (dp_items cfg db') dp = Some dp' \<and>
    (dp_errors dp' = dp_errors dp \<longrightarrow>
      tab (dp_switch dp') (is_ip6 l3, entry_hdls dp' ! nat x) =
        Some (dev_port_to_pipe (uint port), frame_match l3 l4, of_int (flow_id_to_register_index s)))"
proof -
  have f: "ft_h ft = ft_h (frame_tuple ts port off l3 l4)" "dev_port ft = port" by (simp_all add: ft(1))
  from orderly_reachable_inv [OF sys(1-3), of us PF PS "(db, dp)"] sys(4) have i: "db_inv cfg us PF PS db" by auto
  have new: "flow_map (ph_flows ps) (ft_h ft) = None" using res(3) ps(2) by (simp add: addable_def)
  from frame_queues_flow [OF ps(1) new ps(3) fr ft no] obtain ps' ring' where
    q: "packet_handler cfg dnsdb now caplen (frame ts pad port l3 l4 @ ys) off ps = Some ps'"
      "ringbuffer_get (PACKET_RINGBUFFER_SIZE cfg) (ph_packets ps') = Some ((0, Some (PKT_ADD_FLOW ft)), ring')" by blast
  from admit_flow [OF i sys(2) res, of uuid junk g] obtain db' x s d where
    c: "flowdb_command cfg us devmap uuid junk g (PKT_ADD_FLOW ft) db = Some db'"
      "flow_map (db_flows db') = (flow_map (db_flows db))(ft_h ft \<mapsto> x)" "session_map us (db_sessions db') (session_key us ft) = Some s"
      "dp_items cfg db' = dp_items cfg db @ [DP_ADD_FLOW (ft\<lparr> session_id_egress_offset := d \<rparr>) x s]" by blast
  have "tuple_ok ft" using frame_tuple_ok [OF f(1)] res(1) by (simp add: wf_packet_def)
  from orderly_add [OF sys(4) res(1) this res(2) c(1)] have r: "orderly_reachable cfg us devmap PF PS sde tab (db', dp)" .
  from pending_executed [OF sys(1-3) r] obtain m dp' where
    e: "dataplane_run sde (dp_items cfg db') dp = Some dp'"
      "dp_errors dp' = dp_errors dp \<Longrightarrow> mirrored cfg tab (fold dp_effect (dp_items cfg db') m) dp'" by blast
  have m: "fold dp_effect (dp_items cfg db') m x = Some (ft\<lparr> session_id_egress_offset := d \<rparr>, s)" by (simp add: c(4))
  have k: "flow_match (ft\<lparr> session_id_egress_offset := d \<rparr>) = frame_match l3 l4" "is_ipv6 (ft\<lparr> session_id_egress_offset := d \<rparr>) = is_ip6 l3"
    using frame_tuple_match [of "ft\<lparr> session_id_egress_offset := d \<rparr>"] f(1) by simp_all
  have "tab (dp_switch dp') (is_ip6 l3, entry_hdls dp' ! nat x) =
      Some (dev_port_to_pipe (uint port), frame_match l3 l4, of_int (flow_id_to_register_index s))" if "dp_errors dp' = dp_errors dp"
    using mirroredD(1) [OF e(2) [OF that] m] k f(2) by (simp add: flow_slot_def flow_entry_def tuple_pipe_def)
  with q c(1-3) r e(1) show ?thesis by blast
qed

definition example_syn :: l4_header where
  "example_syn = TCP_Header 443 50000 (replicate 9 0) TH_SYN (replicate 6 0)"

lemma example_syn_frame [simp]:
  "l4_ok example_syn" "is_tcp example_syn" "l4_flags example_syn AND TH_FIN = 0"
  "length (frame ts (replicate 4 0) port example_l3 example_syn) = 54"
  by (simp_all add: example_syn_def example_l3_def frame_def ether_bytes_def TH_SYN_def TH_FIN_def)

lemma example_syn_match:
  "frame_match example_l3 example_syn = Match4 \<lparr> ipv4_srcAddr = 0x0a000001, ipv4_dstAddr = 0x0a000002,
     m4_l4_lookup_src = 443, m4_l4_lookup_dst = 50000, m4_tcp_valid = 1 \<rparr>"
  by (simp add: example_l3_def example_syn_def bswap_32_def)

theorem frame_installs_flow_witness:
  "\<exists>(db :: flow_db) ps' db' dp' h s. packet_handler small_config False 100 54 (frame 7 (replicate 4 0) 5 example_l3 example_syn) 0
       (example_packet_state\<lparr> ph_flows := db_flows db \<rparr>) = Some ps' \<and>
     dataplane_run ref_sde (dp_items small_config db') example_dp = Some dp' \<and>
     sw_tab (dp_switch dp') (False, h) = Some (0, Match4 \<lparr> ipv4_srcAddr = 0x0a000001, ipv4_dstAddr = 0x0a000002,
       m4_l4_lookup_src = 443, m4_l4_lookup_dst = 50000, m4_tcp_valid = 1 \<rparr>, s)"
proof -
  from example_start obtain db where d: "example_pipeline (db, example_dp)" "flow_map (db_flows db) = Map.empty"
    "session_map False (db_sessions db) = Map.empty" "dp_items small_config db = []" by blast
  from orderly_reachable_inv [OF ref_sde_tables example_devmap_ok cfg_ok_small d(1)] have i: "db_inv small_config False (\<lambda>_. 0) (\<lambda>_. 0) db" by auto
  let ?ps = "example_packet_state\<lparr> ph_flows := db_flows db \<rparr>"
  let ?ft = "session_side False (dns_map (ph_dns ?ps)) (frame_tuple 7 5 0 example_l3 example_syn)"
  have port: "uint (dev_port ?ft) < 128" by simp
  note a = low_port(1) [OF port] empty_db_admits [OF d(2-4) port]
  from admit_flow [OF i example_devmap_ok a, of "''u''" "[]" 0] d(4) obtain db1 x s e where
    c: "flowdb_command small_config False example_devmap ''u'' [] 0 (PKT_ADD_FLOW ?ft) db = Some db1" "x \<in> pipe_id_set small_config 0"
      "dp_items small_config db1 = [DP_ADD_FLOW (?ft\<lparr> session_id_egress_offset := e \<rparr>) x s]" by auto
  have k: "tuple_ok (?ft\<lparr> session_id_egress_offset := e \<rparr>)"
    by (rule frame_tuple_ok [of _ 7 5 0 example_l3 example_syn]) (simp_all add: MAX_DEV_PORT_ID_def)
  have l: "l3_proto (ft_h (?ft\<lparr> session_id_egress_offset := e \<rparr>)) = L3_IPV4" by (simp add: frame_tuple_def) (simp add: example_l3_def example_syn_def)
  have x: "0 \<le> x" "x < int (FEATURE_SIZE small_config)" using pipe_id_set_bounds [OF c(2)] by (simp_all add: NUM_PIPES_def)
  from example_run [OF x k l, of s] c(3) obtain dp1 where
    r: "dataplane_run ref_sde (dp_items small_config db1) example_dp = Some dp1" "dp_errors dp1 = dp_errors example_dp" by auto
  have p: "ph_ok small_config ?ps" "ph_flows ?ps = db_flows db" "rb_items (PACKET_RINGBUFFER_SIZE small_config) (ph_packets ?ps) = []"
    using example_packet_state_ok i by (simp_all add: ph_ok_def ph_inv_def db_inv_def flow_part_def) (simp add: example_packet_state_def empty_ring_inv)
  have q: "relevant False (dns_map (ph_dns ?ps)) 100 ?ft" by (simp add: relevant_def)
  have g: "l3_ok example_l3" "l4_ok example_syn" "length (replicate 4 (0 :: u8)) = 4" "length (frame 7 (replicate 4 0) 5 example_l3 example_syn) \<le> 54"
    "54 \<le> length (frame 7 (replicate 4 0) 5 example_l3 example_syn @ [])" "l4_flags example_syn AND TH_FIN = 0"
    "is_tcp example_syn \<or> l4_source example_syn \<noteq> 0x3500" by simp_all
  from frame_installs_flow [OF ref_sde_tables example_devmap_ok cfg_ok_small d(1) p g(1-5) refl q g(6,7) a, of "''u''" "[]" 0]
  obtain ps' db2 dp' y s' where
    f: "packet_handler small_config False 100 54 (frame 7 (replicate 4 0) 5 example_l3 example_syn) 0 ?ps = Some ps'"
      "flowdb_command small_config False example_devmap ''u'' [] 0 (PKT_ADD_FLOW ?ft) db = Some db2"
      "dataplane_run ref_sde (dp_items small_config db2) example_dp = Some dp'"
      "dp_errors dp' = dp_errors example_dp \<longrightarrow> sw_tab (dp_switch dp') (is_ip6 example_l3, entry_hdls dp' ! nat y) =
         Some (dev_port_to_pipe (uint (5 :: u16)), frame_match example_l3 example_syn, of_int (flow_id_to_register_index s'))" unfolding append_Nil2 by blast
  from f c(1) r have "sw_tab (dp_switch dp') (False, entry_hdls dp' ! nat y) =
      Some (0, frame_match example_l3 example_syn, of_int (flow_id_to_register_index s'))"
    by (simp add: example_l3_def dev_port_to_pipe_def drop_bit_eq_div)
  with f(1,3) show ?thesis unfolding example_syn_match by blast
qed

section \<open>The commands in the data plane ring\<close>

text \<open>
  Operands of a command that are in range: a flow id or session id is one of the ids of a pipe, a flow is IPv4 or IPv6 and enters on a port
  of the switch, and there is one index of the filter per Bloom filter. The offset of a \<open>DP_CLEAR_REGISTERS\<close> is not among them.
\<close>

fun operands_ok :: "config \<Rightarrow> dataplane_command_t \<Rightarrow> bool" where
  "operands_ok cfg (DP_ADD_FLOW ft flow_id session_id) \<longleftrightarrow> tuple_ok ft \<and> offset_ok ft \<and>
     flow_id \<in> pipe_id_set cfg (nat (ft_pipe ft)) \<and> session_id \<in> pipe_id_set cfg (nat (ft_pipe ft))"
| "operands_ok cfg (DP_REMOVE_FLOW ft flow_id) \<longleftrightarrow> tuple_ok ft \<and> flow_id \<in> pipe_id_set cfg (nat (ft_pipe ft))"
| "operands_ok cfg (DP_CLEAR_REGISTERS ft session_id) \<longleftrightarrow> tuple_ok ft \<and> session_id \<in> pipe_id_set cfg (nat (ft_pipe ft))"
| "operands_ok cfg (DP_ADD_BLOOM_FILTER indices pipe) \<longleftrightarrow> cmd_ok cfg indices \<and> 0 \<le> pipe \<and> pipe < int NUM_PIPES"
| "operands_ok cfg (DP_REMOVE_BLOOM_FILTER indices pipe) \<longleftrightarrow> cmd_ok cfg indices \<and> 0 \<le> pipe \<and> pipe < int NUM_PIPES"

text \<open>
  The ring and what is sent later: the pending commands have operands in range, and the keys in the flow table, from which a time-out builds its commands,
  are those of IPv4 or IPv6 flows.
\<close>

definition ring_ok :: "config \<Rightarrow> flow_db \<Rightarrow> bool" where
  "ring_ok cfg db \<longleftrightarrow> (\<forall>c \<in> set (dp_items cfg db). operands_ok cfg c) \<and> (\<forall>h k. flow_key_of (db_flows db) h = Some k \<longrightarrow> tuple_ok k)"

lemma ring_ok_accept:
  assumes "ring_ok cfg db" "flow_key_of (db_flows db') = flow_key_of (db_flows db)" "operands_ok cfg c"
    and "dp_items cfg db' = (if b then q_accept (DATAPLANE_RINGBUFFER_SIZE cfg) c (dp_items cfg db) else dp_items cfg db)"
  shows "ring_ok cfg db'"
  using assms by (auto simp: ring_ok_def q_accept_def split: if_splits)

lemma wf_pipe_ids: "wf_packet us PF PS ft \<Longrightarrow> pipe_id_set cfg (nat (ft_pipe ft)) = pipe_id_set cfg (PF (ft_h ft))"
  using wf_packet_pipe(3) by fastforce

lemma ring_ok_add:
  assumes inv: "db_inv cfg us PF PS db" and dev: "devmap_ok devmap" and w: "wf_packet us PF PS ft" "tuple_ok ft" and ok: "ring_ok cfg db"
    and r: "add_flow cfg us devmap uuid ft db = Some db'"
  shows "ring_ok cfg db'"
proof -
  have t: "tuple_ok (ft\<lparr> session_id_egress_offset := d \<rparr>)" for d using w(2) by (simp add: tuple_ok_def)
  from add_flow_ok [OF inv w(1) dev, of uuid] r have sp: "session_part cfg us PS (session_id_heap db') (db_sessions db')" by (simp add: db_inv_def)
  from add_flow_emits [OF inv w(1) dev r] show ?thesis
  proof (elim disjE)
    assume "\<exists>x s d. let ft' = ft\<lparr> session_id_egress_offset := d \<rparr> in
       x \<in> pipe_id_set cfg (PF (ft_h ft)) \<and> x \<notin> ran (flow_map (db_flows db)) \<and> offset_ok ft' \<and>
       flow_map (db_flows db) (ft_h ft) = None \<and> flow_map (db_flows db') = (flow_map (db_flows db))(ft_h ft \<mapsto> x) \<and>
       flow_key_of (db_flows db') = (flow_key_of (db_flows db))(ft_h ft \<mapsto> ft') \<and>
       session_map us (db_sessions db') (session_key us ft) = Some s \<and>
       dp_items cfg db' = dp_items cfg db @ [DP_ADD_FLOW ft' x s]"
    then obtain x s d where a: "x \<in> pipe_id_set cfg (PF (ft_h ft))" "offset_ok (ft\<lparr> session_id_egress_offset := d \<rparr>)"
      "flow_key_of (db_flows db') = (flow_key_of (db_flows db))(ft_h ft \<mapsto> ft\<lparr> session_id_egress_offset := d \<rparr>)"
      "session_map us (db_sessions db') (session_key us ft) = Some s"
      "dp_items cfg db' = dp_items cfg db @ [DP_ADD_FLOW (ft\<lparr> session_id_egress_offset := d \<rparr>) x s]" unfolding Let_def by blast
    have "s \<in> pipe_id_set cfg (PS (session_key us ft))" using sp a(4) unfolding session_part_def by blast
    with a ok t w(1) show ?thesis by (auto simp: ring_ok_def wf_pipe_ids wf_packet_pipe(2) split: if_splits)
  qed (use ok t in \<open>auto simp: ring_ok_def same_flows_def split: if_splits\<close>)
qed

lemma ring_ok_remove:
  assumes "remove_emits cfg PF ft x db db'" "db_inv cfg us PF PS db" "wf_packet us PF PS ft" "tuple_ok ft" "ring_ok cfg db"
  shows "ring_ok cfg db'"
proof -
  from assms(1) have e: "flow_map (db_flows db) (ft_h ft) = Some x" "flow_key_of (db_flows db') = (flow_key_of (db_flows db))(ft_h ft := None)"
    by (auto simp: remove_emits_def)
  from assms(1) have sub: "set (dp_items cfg db') \<subseteq> set (dp_items cfg db) \<union> {DP_REMOVE_FLOW ft x} \<union> DP_CLEAR_REGISTERS ft ` pipe_id_set cfg (PF (ft_h ft))"
    by (auto simp: remove_emits_def q_accept_def split: if_splits)
  have "x \<in> pipe_id_set cfg (PF (ft_h ft))" using assms(2) e(1) by (auto simp: db_inv_def flow_part_def)
  then have "operands_ok cfg c" if "c \<in> set (dp_items cfg db')" for c
    using that sub assms(3-5) by (auto simp: ring_ok_def wf_pipe_ids)
  then show ?thesis using e(2) assms(5) by (auto simp: ring_ok_def split: if_splits)
qed

lemma bf_cmd_ok:
  assumes "cfg_ok cfg" "bf_flow_ok ft"
  shows "cmd_ok cfg (bf_cmd cfg junk ft bf)" "0 \<le> ft_pipe ft" "ft_pipe ft < int NUM_PIPES"
proof -
  have w: "0 < BLOOMFILTER_WIDTH cfg" using assms(1) by (simp add: cfg_ok_def)
  have n: "0 < NUM_BLOOMFILTERS" by (simp add: NUM_BLOOMFILTERS_def)
  show "cmd_ok cfg (bf_cmd cfg junk ft bf)"
    using bf_flow_in_filter [OF assms, where junk = junk] w by (auto simp: cmd_ok_def bf_cmd_def in_filter_def Let_def)
  show "0 \<le> ft_pipe ft" "ft_pipe ft < int NUM_PIPES" using bf_flow_in_filter [OF assms n, of junk] by (auto simp: in_filter_def)
qed

lemma ring_ok_command:
  assumes inv: "db_inv cfg us PF PS db" and dev: "devmap_ok devmap" and c: "wf_event cfg us PF PS (Flow_Command g command)" and ok: "ring_ok cfg db"
    and r: "flowdb_command cfg us devmap uuid junk g command db = Some db'"
  shows "ring_ok cfg db'"
proof -
  let ?db = "db\<lparr> flowdb_stat := flowdb_stat db + 1 \<rparr>"
  have i: "db_inv cfg us PF PS ?db" and q: "ring_ok cfg ?db" using inv ok by (simp_all add: ring_ok_def)
  from i have b: "bf_ok cfg (db_bloom ?db)" "rb_inv (DATAPLANE_RINGBUFFER_SIZE cfg) (db_ring ?db)" by (auto simp: db_inv_def)
  note cfg = db_inv_cfg_ok [OF i]
  show ?thesis
  proof (cases command)
    case (PKT_ADD_FLOW ft)
    with c r have "wf_packet us PF PS ft" "tuple_ok ft" "add_flow cfg us devmap uuid ft ?db = Some db'" by (simp_all add: flowdb_command_def)
    from ring_ok_add [OF i dev this(1,2) q this(3)] show ?thesis .
  next
    case (PKT_REMOVE_FLOW ft)
    with c r have r': "remove_flow_by_five_tuple cfg us g ft ?db = Some db'" and o: "wf_packet us PF PS ft" "tuple_ok ft"
      and g: "us \<Longrightarrow> 0 \<le> g \<and> g < int (FEATURE_SIZE cfg)" by (simp_all add: flowdb_command_def)
    from remove_by_five_tuple_emits [OF i o(1) g r'] ring_ok_remove [OF _ i o q] q show ?thesis by blast
  next
    case (PKT_TIMEOUT_FLOW x)
    with c r have r': "remove_flow_by_flow_id cfg us g x ?db = Some db'" and x: "0 \<le> x" "x < int (FEATURE_SIZE cfg)"
      and g: "us \<Longrightarrow> 0 \<le> g \<and> g < int (FEATURE_SIZE cfg)" by (simp_all add: flowdb_command_def)
    from remove_by_flow_id_emits [OF i g x r'] ring_ok_remove [OF _ i _ _ q] q show ?thesis by (metis ring_ok_def)
  next
    case (PKT_ADD_BLOOM_FILTER_IRRELEVANT ft)
    with c have f: "bf_flow_ok ft" by simp
    from set_irrelevant_ok [OF cfg b f, of junk] PKT_ADD_BLOOM_FILTER_IRRELEVANT r obtain ring' where
      d: "db_flows db' = db_flows ?db" "db_ring db' = ring'" "rb_items (DATAPLANE_RINGBUFFER_SIZE cfg) ring' = (if bf_send cfg junk ft (db_bloom ?db)
      then q_accept (DATAPLANE_RINGBUFFER_SIZE cfg) (DP_ADD_BLOOM_FILTER (bf_cmd cfg junk ft (db_bloom ?db)) (ft_pipe ft)) (dp_items cfg ?db)
      else dp_items cfg ?db)" by (auto simp: flowdb_command_def)
    show ?thesis by (rule ring_ok_accept [OF q]) (use d bf_cmd_ok [OF cfg f] in auto)
  next
    case (PKT_FIX_BLOOM_FILTER_RELEVANT ft)
    with c have f: "bf_flow_ok ft" by simp
    from set_relevant_ok [OF cfg b f, of junk] PKT_FIX_BLOOM_FILTER_RELEVANT r obtain ring' where
      d: "db_flows db' = db_flows ?db" "db_ring db' = ring'" "rb_items (DATAPLANE_RINGBUFFER_SIZE cfg) ring' = (if bf_send cfg junk ft (db_bloom ?db)
      then q_accept (DATAPLANE_RINGBUFFER_SIZE cfg) (DP_REMOVE_BLOOM_FILTER (bf_cmd cfg junk ft (db_bloom ?db)) (ft_pipe ft)) (dp_items cfg ?db)
      else dp_items cfg ?db)" by (auto simp: flowdb_command_def)
    show ?thesis by (rule ring_ok_accept [OF q]) (use d bf_cmd_ok [OF cfg f] in auto)
  next
    case (PKT_REMOVE_BLOOM_FILTER ft)
    with r q show ?thesis by (simp add: flowdb_command_def)
  qed
qed

text \<open>The data plane thread keeps the sizes of its arrays, whatever it is asked to do and whatever the driver answers.\<close>

lemma clear_values_shape: "clear_values s d rs = Some rs' \<Longrightarrow> same_shape rs rs'"
  by (induction rs arbitrary: rs') (auto simp: same_shape_def aset_def split: bind_splits if_splits)

lemma same_shape_trans: "same_shape rs rs1 \<Longrightarrow> same_shape rs1 rs2 \<Longrightarrow> same_shape rs rs2"
  unfolding same_shape_def by (erule list_all2_trans [rotated]) auto

lemma dataplane_command_shape:
  assumes "dataplane_command sde c dp = Some dp'" "dp_ok cfg rs dp"
  shows "dp_ok cfg rs dp'"
proof -
  let ?dp = "dp\<lparr> dataplane_commands_stat := dataplane_commands_stat dp + 1 \<rparr>"
  from assms(1) obtain dp1 where d: "execute_command sde c ?dp = Some dp1" "dp' = report_status dp1"
    by (auto simp: dataplane_command_def split: bind_splits)
  have "length (entry_hdls dp1) = length (entry_hdls dp) \<and> same_shape (dp_features dp) (dp_features dp1)"
    using d(1) clear_values_shape
    by (cases c) (auto simp: dp_clear_registers_def same_shape_def list_all2_same aset_def Let_def case_prod_beta split: bind_splits if_splits)
  with assms(2) d(2) same_shape_trans show ?thesis by (auto simp: dp_ok_def report_status_def)
qed

fun pending_inv :: "config \<Rightarrow> bool \<Rightarrow> (five_tuple_for_hash_t \<Rightarrow> nat) \<Rightarrow> (session_key_t \<Rightarrow> nat) \<Rightarrow> 'sw pipeline \<Rightarrow> bool" where
  "pending_inv cfg us PF PS (db, dp) \<longleftrightarrow> db_inv cfg us PF PS db \<and> ring_ok cfg db \<and> (\<exists>rs. registers_ok cfg rs \<and> dp_ok cfg rs dp)"

lemma pending_step_inv:
  assumes "devmap_ok devmap" "pending_inv cfg us PF PS (db, dp)" "pipeline_step cfg us devmap sde (db, dp) e st'" "wf_event cfg us PF PS e"
  shows "pending_inv cfg us PF PS st'"
  using assms(3)
proof cases
  case (Command uuid junk g command db')
  with flowdb_command_inv [OF _ assms(1), of cfg us PF PS db g command uuid junk db'] assms(2,4)
    ring_ok_command [OF _ assms(1), of cfg us PF PS db g command uuid junk db'] show ?thesis by auto
next
  case (Maintain cmd pipe index rnd bf' cmd' ring')
  from assms(2) have b: "bf_ok cfg (db_bloom db)" "rb_inv (DATAPLANE_RINGBUFFER_SIZE cfg) (db_ring db)" "ring_ok cfg db" by (auto simp: db_inv_def)
  let ?db = "db\<lparr> db_bloom := bf', db_ring := ring' \<rparr>"
  from maintenance_index_ok [OF b(1) Maintain(3,4) b(2), of rnd] Maintain(5) have
    r: "bf_ok cfg bf'" "rb_inv (DATAPLANE_RINGBUFFER_SIZE cfg) ring'" "cmd_ok cfg cmd'"
      "dp_items cfg ?db = (if row_hit (db_bloom db) rnd pipe index
         then q_accept (DATAPLANE_RINGBUFFER_SIZE cfg) (DP_REMOVE_BLOOM_FILTER cmd' pipe) (dp_items cfg db) else dp_items cfg db)" by auto
  from ring_ok_accept [OF b(3) _ _ r(4)] r(3) Maintain(4) have "ring_ok cfg ?db" by (simp add: in_filter_def)
  with r assms(2) Maintain(2) show ?thesis by (simp add: db_inv_def)
next
  case (Execute c ring' dp')
  from assms(2) have b: "rb_inv (DATAPLANE_RINGBUFFER_SIZE cfg) (db_ring db)" "ring_ok cfg db" by (auto simp: db_inv_def)
  from ring.get_cases [OF b(1) Execute(3)] have r: "rb_inv (DATAPLANE_RINGBUFFER_SIZE cfg) ring'"
    "dp_items cfg db = c # rb_items (DATAPLANE_RINGBUFFER_SIZE cfg) ring'" by auto
  with b(2) have "ring_ok cfg (db\<lparr> db_ring := ring' \<rparr>)" by (simp add: ring_ok_def)
  with r(1) dataplane_command_shape [OF Execute(4)] assms(2) Execute(2) show ?thesis by (auto simp: db_inv_def)
qed

lemma wf_reachable_inv:
  assumes "devmap_ok devmap" "cfg_ok cfg"
  shows "wf_reachable cfg us devmap PF PS sde tab st \<Longrightarrow> pending_inv cfg us PF PS st"
proof (induction rule: pipeline_reachable.induct)
  case (Start ring db dp)
  from flowdb_start_ok [OF assms(2) Start(1), of us PF PS] Start have d: "db_inv cfg us PF PS db" "flow_map (db_flows db) = Map.empty" "dp_items cfg db = []"
    by auto
  from d(2) have "flow_key_of (db_flows db) = Map.empty" by (auto simp: flow_map_def flow_key_of_def fun_eq_iff)
  moreover have "dp_ok cfg (dp_features dp) dp" using Start(4) by (simp add: dp_ok_def same_shape_def list_all2_same)
  ultimately show ?case using Start(5) d(1,3) by (auto simp: ring_ok_def)
next
  case (Step st e st')
  then show ?case using pending_step_inv [OF assms(1)] by (cases st) blast
qed

text \<open>Operands in range are enough to execute a command, with some installed flows under which it is admissible.\<close>

lemma operands_admissible:
  assumes "operands_ok cfg c" "registers_ok cfg rs" "\<And>ft s. c = DP_CLEAR_REGISTERS ft s \<Longrightarrow> offset_ok ft"
  shows "\<exists>m. dp_admissible cfg c m rs"
proof -
  have pipe: "nat (ft_pipe ft) < NUM_PIPES" "wf_packet False (\<lambda>_. nat (ft_pipe ft)) (\<lambda>_. nat (ft_pipe ft)) ft" if "tuple_ok ft" for ft
    using that dev_port_to_pipe_bounds [of "uint (dev_port ft)"] by (auto simp: tuple_ok_def wf_packet_def NUM_PIPES_def MAX_DEV_PORT_ID_def)
  have id: "0 \<le> x \<and> x < int (FEATURE_SIZE cfg)" if "tuple_ok ft" "x \<in> pipe_id_set cfg (nat (ft_pipe ft))" for x ft
    using pipe_id_set_bounds [OF that(2) pipe(1) [OF that(1)]] by simp
  show ?thesis
  proof (cases c)
    case (DP_ADD_FLOW ft x s)
    with assms(1) id show ?thesis by (intro exI [of _ Map.empty]) auto
  next
    case (DP_REMOVE_FLOW ft x)
    with assms(1) id show ?thesis by (intro exI [of _ "[x \<mapsto> (ft, 0)]"]) auto
  next
    case (DP_CLEAR_REGISTERS ft s)
    with assms clear_admissible [OF assms(2) pipe(2)] show ?thesis by auto
  qed (use assms(1) in \<open>auto simp: cmd_ok_def\<close>)
qed

text \<open>
  C29. Every command that is ever in the data plane ring has operands in range, whichever thread sent it and however the threads are interleaved, for
  well-formed packets, while the ring may be full at any put, session ids may run out, FINs carry any offset and the driver may fail: the ids are those of the
  pipe of the flow's port, the protocol is IPv4 or IPv6, an added flow carries the offset of a pipe of the switch, and a Bloom filter command has four indices of the
  filter. Such a command can be executed without leaving an array of the data plane thread. The one exception are the registers of a \<open>DP_CLEAR_REGISTERS\<close>, for which the
  offset of its flow, which a FIN brings along uninitialised, has to lead to a pipe of the switch.
\<close>

theorem pending_commands_well_formed:
  assumes "sde_tables sde tab" "devmap_ok devmap" "cfg_ok cfg" "wf_reachable cfg us devmap PF PS sde tab (db, dp)"
    and "c \<in> set (dp_items cfg db)"
  shows "operands_ok cfg c \<and> ((\<forall>ft s. c = DP_CLEAR_REGISTERS ft s \<longrightarrow> offset_ok ft) \<longrightarrow> (\<exists>dp'. dataplane_command sde c dp = Some dp'))"
proof -
  from wf_reachable_inv [OF assms(2-4)] obtain rs where i: "ring_ok cfg db" "registers_ok cfg rs" "dp_ok cfg rs dp" by auto
  then have c: "operands_ok cfg c" using assms(5) by (simp add: ring_ok_def)
  have "\<exists>dp'. dataplane_command sde c dp = Some dp'" if "\<forall>ft s. c = DP_CLEAR_REGISTERS ft s \<longrightarrow> offset_ok ft"
    using operands_admissible [OF c i(2)] that dataplane_command_ok [OF assms(1) i(3)] by blast
  with c show ?thesis by blast
qed

theorem pending_commands_well_formed_witness:
  "\<exists>db ft dp'. wf_reachable small_config False example_devmap (\<lambda>_. 0) (\<lambda>_. 0) ref_sde sw_tab (db, example_dp) \<and>
     dp_items small_config db = [DP_ADD_FLOW ft 4 4] \<and> dataplane_command ref_sde (DP_ADD_FLOW ft 4 4) example_dp = Some dp'"
proof -
  from example_start obtain db where d: "example_pipeline (db, example_dp)" "flow_map (db_flows db) = Map.empty"
    "session_map False (db_sessions db) = Map.empty" "dp_items small_config db = []" by blast
  note a = example_flow_wf example_flow_admitted [OF d(2-4)]
  from orderly_reachable_inv [OF ref_sde_tables example_devmap_ok cfg_ok_small d(1)] have "db_inv small_config False (\<lambda>_. 0) (\<lambda>_. 0) db" by auto
  from admit_flow [OF this example_devmap_ok a, of "''u''" "[]" 0 1] d(4) obtain db' x s e where
    c: "flowdb_command small_config False example_devmap ''u'' [] 0 (PKT_ADD_FLOW (example_flow 1)) db = Some db'"
      "dp_items small_config db' = [DP_ADD_FLOW ((example_flow 1)\<lparr> session_id_egress_offset := e \<rparr>) x s]" by auto
  let ?ft = "(example_flow 1)\<lparr> session_id_egress_offset := e \<rparr>"
  from orderly_wf [OF orderly_add [OF d(1) a(1) example_flow_ok a(2) c(1)]] have
    r: "wf_reachable small_config False example_devmap (\<lambda>_. 0) (\<lambda>_. 0) ref_sde sw_tab (db', example_dp)" .
  have m: "DP_ADD_FLOW ?ft x s \<in> set (dp_items small_config db')" unfolding c(2) by simp
  have "ft_pipe ?ft = 0" using wf_packet_pipe(3) [OF example_flow_wf, of 1] by simp
  with pending_commands_well_formed [OF ref_sde_tables example_devmap_ok cfg_ok_small r m] r c(2) show ?thesis
    by (auto simp: pipe_id_set_small simp del: length_rb_items)
qed

end
