(* ===== verification/Packet_Thread.thy ===== *)
theory Packet_Thread
  imports Packet_Handler Export
begin

text \<open>
  The rest of \<^verbatim>\<open>packet_handler/packet_handler.c\<close>: \<open>packet_thread\<close>, which opens the interface and hands every captured packet to the
  callback, and \<open>hexDump\<close>, which the callback prints headers with when \<open>VERBOSE\<close> is defined. libpcap is an argument, by what it captures.

  Shown: the thread exits when the interface cannot be opened, and otherwise survives every sequence of packets that are not taken
  for DNS replies; \<open>hexDump\<close> prints the bytes in rows of sixteen and stays inside its buffer.
\<close>

section \<open>Printing bytes\<close>

subsection \<open>Model\<close>

text \<open>\<open>%02x\<close> and \<open>%04x\<close>, a C string, and the character that stands for a byte.\<close>

definition hex_digit :: "nat \<Rightarrow> char" where
  "hex_digit n = ''0123456789abcdef'' ! n"

fun hex :: "nat \<Rightarrow> string" where
  "hex n = (if n < 16 then [hex_digit n] else hex (n div 16) @ [hex_digit (n mod 16)])"

declare hex.simps [simp del]

definition char_of_byte :: "u8 \<Rightarrow> char" where
  "char_of_byte b = char_of (unat b)"

definition c_string :: "u8 list \<Rightarrow> string option" where
  "c_string buff = (if 0 \<in> set buff then Some (map char_of_byte (takeWhile (\<lambda>b. b \<noteq> 0) buff)) else None)"

definition printable :: "u8 \<Rightarrow> u8" where
  "printable b = (if b < 0x20 \<or> b > 0x7e then 0x2e else b)"

text \<open>One turn of the loop: what has been printed and the buffer.\<close>

definition dump_byte :: "u8 list \<Rightarrow> nat \<Rightarrow> string \<times> u8 list \<Rightarrow> (string \<times> u8 list) option" where
  "dump_byte pc i st =
     do { let (out, buff) = st;
          out \<leftarrow> (if i mod 16 = 0 then do {
            out \<leftarrow> (if i \<noteq> 0 then do { s \<leftarrow> c_string buff; Some (out @ ''  '' @ s @ [newline]) } else Some out);
            Some (out @ ''  '' @ zero_pad 4 (hex i) @ '' '') }
          else Some out);
          b \<leftarrow> rd8 pc i;
          let out = out @ '' '' @ zero_pad 2 (hex (unat b));
          buff \<leftarrow> aset buff (int (i mod 16)) (printable b);
          buff \<leftarrow> aset buff (int (i mod 16) + 1) 0;
          Some (out, buff) }"

fun dump_bytes :: "u8 list \<Rightarrow> nat list \<Rightarrow> string \<times> u8 list \<Rightarrow> (string \<times> u8 list) option" where
  "dump_bytes pc [] st = Some st"
| "dump_bytes pc (i # is) st = do { st \<leftarrow> dump_byte pc i st; dump_bytes pc is st }"

text \<open>\<open>buff\<close> is the uninitialised buffer; the result is the printed text.\<close>

definition hexDump :: "string option \<Rightarrow> u8 list \<Rightarrow> int \<Rightarrow> u8 list \<Rightarrow> string option" where
  "hexDump desc addr len buff =
     do { let out = (case desc of None \<Rightarrow> [] | Some desc \<Rightarrow> desc @ '':'' @ [newline]);
          if len = 0 then Some (out @ ''  ZERO LENGTH'' @ [newline])
          else if len < 0 then Some (out @ ''  NEGATIVE LENGTH: '' @ dec len @ [newline])
          else do {
            (out, buff) \<leftarrow> dump_bytes addr [0..<nat len] (out, buff);
            let out = out @ concat (replicate ((16 - nat len mod 16) mod 16) ''   '');
            s \<leftarrow> c_string buff;
            Some (out @ ''  '' @ s @ [newline]) } }"

subsection \<open>Rows of sixteen\<close>

definition row_start :: "nat \<Rightarrow> u8 list \<Rightarrow> string" where
  "row_start k bs = ''  '' @ zero_pad 4 (hex (16 * k)) @ '' '' @ concat (map (\<lambda>b. '' '' @ zero_pad 2 (hex (unat b))) bs)"

definition row_end :: "u8 list \<Rightarrow> string" where
  "row_end bs = ''  '' @ map (\<lambda>b. char_of_byte (printable b)) bs @ [newline]"

definition dump_row :: "nat \<Rightarrow> u8 list \<Rightarrow> string" where
  "dump_row k bs = row_start k bs @ concat (replicate (16 - length bs) ''   '') @ row_end bs"

definition row_bytes :: "u8 list \<Rightarrow> nat \<Rightarrow> u8 list" where
  "row_bytes bs k = take 16 (drop (16 * k) bs)"

lemma printable_nonzero: "printable b \<noteq> 0"
  by (auto simp: printable_def)

lemma c_string_row: "c_string (map printable bs @ 0 # zs) = Some (map (\<lambda>b. char_of_byte (printable b)) bs)"
  by (simp add: c_string_def takeWhile_append printable_nonzero comp_def)

text \<open>The state after the first \<open>n + 1\<close> bytes: full rows and the start of the last one, which is in the buffer.\<close>

fun dump_state :: "string \<Rightarrow> u8 list \<Rightarrow> nat \<Rightarrow> string \<times> u8 list \<Rightarrow> bool" where
  "dump_state out0 bs n (out, buff) \<longleftrightarrow> length buff = 17 \<and>
     out = out0 @ concat (map (\<lambda>k. dump_row k (row_bytes bs k)) [0..<n div 16]) @ row_start (n div 16) (row_bytes (take (Suc n) bs) (n div 16)) \<and>
     (\<exists>zs. buff = map printable (row_bytes (take (Suc n) bs) (n div 16)) @ 0 # zs)"

lemma row_bytes_snoc:
  assumes "m < length bs"
  shows "row_bytes (take (Suc m) bs) (m div 16) = row_bytes (take m bs) (m div 16) @ [bs ! m]"
    and "length (row_bytes (take m bs) (m div 16)) = m mod 16"
proof -
  have d: "16 * (m div 16) \<le> m" "m - 16 * (m div 16) = m mod 16" by (simp_all add: minus_mult_div_eq_mod)
  then have "m mod 16 < 16" "length (drop (16 * (m div 16)) (take m bs)) = m mod 16" using assms by simp_all
  with d assms show "row_bytes (take (Suc m) bs) (m div 16) = row_bytes (take m bs) (m div 16) @ [bs ! m]"
    "length (row_bytes (take m bs) (m div 16)) = m mod 16"
    by (simp_all add: row_bytes_def take_Suc_conv_app_nth)
qed

lemma row_bytes_full:
  assumes "Suc n mod 16 = 0"
  shows "row_bytes (take (Suc n) bs) (n div 16) = row_bytes bs (n div 16)" "Suc n div 16 = Suc (n div 16)" "16 + 16 * (n div 16) = Suc n" "n mod 16 = 15"
proof -
  show m: "n mod 16 = 15" using assms by (simp add: mod_Suc split: if_splits)
  then show q: "16 + 16 * (n div 16) = Suc n" using mult_div_mod_eq [of 16 n] by linarith
  then have e: "Suc n - 16 * (n div 16) = 16" by linarith
  show "row_bytes (take (Suc n) bs) (n div 16) = row_bytes bs (n div 16)" unfolding row_bytes_def drop_take e by simp
  show "Suc n div 16 = Suc (n div 16)" unfolding q [symmetric] by simp
qed

lemma buffer_write:
  assumes "buff = map printable bs @ ys" "length bs < 16" "length buff = 17"
  shows "\<exists>buff1 buff2 zs. aset buff (int (length bs)) (printable b) = Some buff1 \<and> aset buff1 (int (length bs) + 1) 0 = Some buff2 \<and>
    buff2 = map printable (bs @ [b]) @ 0 # zs \<and> length buff2 = 17"
proof -
  from assms obtain y z zs where "ys = y # z # zs" by (cases ys; cases "tl ys") auto
  with assms show ?thesis by (simp add: aset_def list_update_append nat_add_distrib)
qed

lemma row_start_snoc: "row_start k (bs @ [b]) = row_start k bs @ '' '' @ zero_pad 2 (hex (unat b))"
  by (simp add: row_start_def)

lemma dump_first:
  assumes "0 < length bs" "length buff = 17"
  shows "\<exists>st. dump_byte bs 0 (out, buff) = Some st \<and> dump_state out bs 0 st"
proof -
  from buffer_write [of buff "[]" buff "bs ! 0"] assms(2) obtain buff1 buff2 zs where
    "aset buff 0 (printable (bs ! 0)) = Some buff1" "aset buff1 1 0 = Some buff2" "buff2 = printable (bs ! 0) # 0 # zs" "length buff2 = 17" by auto
  moreover have "row_bytes (take 1 bs) 0 = [bs ! 0]" using row_bytes_snoc(1) [of 0 bs] assms(1) by (simp add: row_bytes_def)
  ultimately show ?thesis using assms(1) by (simp add: dump_byte_def rd8_def aget_def row_start_def)
qed

lemma dump_next:
  assumes "Suc n < length bs" "dump_state out0 bs n st"
  shows "\<exists>st'. dump_byte bs (Suc n) st = Some st' \<and> dump_state out0 bs (Suc n) st'"
proof -
  let ?k = "n div 16" and ?r = "row_bytes (take (Suc n) bs) (n div 16)"
  obtain out buff where st: "st = (out, buff)" by (cases st)
  with assms(2) obtain zs where D: "length buff = 17" "buff = map printable ?r @ 0 # zs"
    "out = out0 @ concat (map (\<lambda>k. dump_row k (row_bytes bs k)) [0..<?k]) @ row_start ?k ?r" by auto
  have b: "rd8 bs (Suc n) = Some (bs ! Suc n)" using assms(1) by (simp add: rd8_def aget_def)
  note s = row_bytes_snoc [OF assms(1)]
  show ?thesis
  proof (cases "Suc n mod 16 = 0")
    case True
    note f = row_bytes_full(1) [OF True, of bs] row_bytes_full(2-4) [OF True]
    have r: "length ?r = 16" using row_bytes_snoc [of n bs] assms(1) f(4) by simp
    from s(2) True have e: "row_bytes (take (Suc n) bs) (Suc n div 16) = []" by simp
    from buffer_write [of buff "[]" buff "bs ! Suc n"] D(1) obtain buff1 buff2 zs' where
      w: "aset buff 0 (printable (bs ! Suc n)) = Some buff1" "aset buff1 1 0 = Some buff2" "buff2 = printable (bs ! Suc n) # 0 # zs'" "length buff2 = 17" by auto
    have "dump_row ?k (row_bytes bs ?k) = row_start ?k ?r @ row_end ?r" unfolding f(1) [symmetric] dump_row_def by (simp add: r)
    then show ?thesis using True D(3) w b c_string_row [of ?r zs] s(1) e f(2)
      by (simp add: st dump_byte_def D(2) [symmetric] row_end_def) (simp add: row_start_def f(3))
  next
    case False
    then have k: "Suc n div 16 = ?k" "length ?r = Suc n mod 16" using s(2) by (simp_all add: div_Suc)
    have l: "length ?r < 16" by (simp add: k(2))
    from buffer_write [OF D(2) l D(1), of "bs ! Suc n"] obtain buff1 buff2 zs' where
      w: "aset buff (int (Suc n mod 16)) (printable (bs ! Suc n)) = Some buff1" "aset buff1 (int (Suc n mod 16) + 1) 0 = Some buff2"
        "buff2 = map printable (?r @ [bs ! Suc n]) @ 0 # zs'" "length buff2 = 17" unfolding k(2) by blast
    then show ?thesis using False D(3) b s(1) k(1) row_start_snoc [of ?k ?r "bs ! Suc n"] by (simp add: st dump_byte_def)
  qed
qed

lemma dump_bytes_append: "dump_bytes bs (is @ js) st = do { st \<leftarrow> dump_bytes bs is st; dump_bytes bs js st }"
  by (induction "is" arbitrary: st) (auto split: bind_split)

lemma dump_bytes_state:
  assumes "length buff = 17"
  shows "n < length bs \<Longrightarrow> \<exists>st. dump_bytes bs [0..<Suc n] (out, buff) = Some st \<and> dump_state out bs n st"
proof (induction n)
  case 0
  with dump_first [OF _ assms, of bs out] show ?case by auto
next
  case (Suc n)
  then obtain st where st: "dump_bytes bs [0..<Suc n] (out, buff) = Some st" "dump_state out bs n st" by auto
  from dump_next [OF Suc.prems st(2)] obtain st' where st': "dump_byte bs (Suc n) st = Some st'" "dump_state out bs (Suc n) st'" by blast
  have "dump_bytes bs ([0..<Suc n] @ [Suc n]) (out, buff) = Some st'" unfolding dump_bytes_append st(1) by (simp add: st'(1))
  with st'(2) show ?case by auto
qed

lemma dump_bytes_take:
  assumes "\<forall>i \<in> set is. i < m"
  shows "dump_bytes (take m bs) is st = dump_bytes bs is st"
  using assms
proof (induction "is" arbitrary: st)
  case (Cons i "is")
  then have "rd8 (take m bs) i = rd8 bs i" by (auto simp: rd8_def aget_def)
  then have "dump_byte (take m bs) i st = dump_byte bs i st" by (simp add: dump_byte_def)
  with Cons show ?case by (cases "dump_byte bs i st") simp_all
qed simp

text \<open>\<open>hexDump\<close> prints one row for every sixteen bytes, the last one padded, whatever was in its buffer.\<close>

lemma hexDump_rows:
  assumes "0 < len" "nat len \<le> length addr" "length buff = 17"
  shows "hexDump desc addr len buff = Some ((case desc of None \<Rightarrow> [] | Some desc \<Rightarrow> desc @ '':'' @ [newline]) @
    concat (map (\<lambda>k. dump_row k (row_bytes (take (nat len) addr) k)) [0..<(nat len + 15) div 16]))"
proof -
  let ?bs = "take (nat len) addr" and ?h = "case desc of None \<Rightarrow> [] | Some desc \<Rightarrow> desc @ '':'' @ [newline]"
  obtain n where n: "nat len = Suc n" "length ?bs = Suc n" using assms by (cases "nat len") auto
  have l: "n < length ?bs" unfolding n(2) by simp
  from dump_bytes_state [OF assms(3) l, of ?h] obtain out buff' where
    d: "dump_bytes ?bs [0..<Suc n] (?h, buff) = Some (out, buff')" "dump_state ?h ?bs n (out, buff')" by (metis surj_pair)
  let ?r = "row_bytes ?bs (n div 16)"
  have t: "take (Suc n) ?bs = ?bs" by (simp add: n)
  from d(2) obtain zs where s: "out = ?h @ concat (map (\<lambda>k. dump_row k (row_bytes ?bs k)) [0..<n div 16]) @ row_start (n div 16) ?r"
    "c_string buff' = Some (map (\<lambda>b. char_of_byte (printable b)) ?r)" using c_string_row [of ?r] unfolding dump_state.simps t by auto
  have "length ?r = Suc (n mod 16)" using row_bytes_snoc [OF l, unfolded t] by simp
  then have p: "(16 - Suc n mod 16) mod 16 = 16 - length ?r" by (auto simp: mod_Suc)
  have k: "(Suc n + 15) div 16 = Suc (n div 16)" by simp
  have "dump_bytes addr [0..<Suc n] (?h, buff) = Some (out, buff')" using d(1) dump_bytes_take [of "[0..<Suc n]" "nat len" addr] n(1) by simp
  with s assms(1) show ?thesis unfolding hexDump_def n(1) k p Let_def by (simp add: dump_row_def row_end_def)
qed

section \<open>The thread\<close>

text \<open>A captured packet: the clock, \<open>pkthdr->caplen\<close>, the readable memory and the value of the uninitialised field.\<close>

record capture =
  cap_now :: int
  cap_len :: nat
  cap_mem :: "u8 list"
  cap_off :: int

fun pcap_loop :: "config \<Rightarrow> bool \<Rightarrow> capture list \<Rightarrow> packet_state \<Rightarrow> packet_state option" where
  "pcap_loop cfg dnsdb [] st = Some st"
| "pcap_loop cfg dnsdb (c # cs) st =
     do { st \<leftarrow> packet_handler cfg dnsdb (cap_now c) (cap_len c) (cap_mem c) (cap_off c) st; pcap_loop cfg dnsdb cs st }"

text \<open>\<open>captured\<close> is \<open>None\<close> when \<open>pcap_open_live\<close> returns a null pointer; \<open>Inl\<close> is \<open>exit\<close>.\<close>

definition packet_thread :: "config \<Rightarrow> bool \<Rightarrow> capture list option \<Rightarrow> packet_state \<Rightarrow> (int + packet_state) option" where
  "packet_thread cfg dnsdb captured st =
     (case captured of None \<Rightarrow> Some (Inl 1) | Some cs \<Rightarrow> do { st \<leftarrow> pcap_loop cfg dnsdb cs st; Some (Inr st) })"

lemma put_packet_stat: "put_packet cfg c st = Some st' \<Longrightarrow> packet_handler_stat st' = packet_handler_stat st"
  by (auto simp: put_packet_def split: bind_splits)

lemma heuristic_stat: "heuristic cfg dnsdb now ft st = Some (b, st') \<Longrightarrow> packet_handler_stat st' = packet_handler_stat st"
  by (auto simp: heuristic_def heuristic_address_def Let_def split: bind_splits if_splits)

lemma process_new_stat: "process_new cfg dnsdb now ft st = Some st' \<Longrightarrow> packet_handler_stat st' = packet_handler_stat st"
  by (auto simp: process_new_def dest!: heuristic_stat put_packet_stat split: bind_splits if_splits)

lemma process_packet_stat:
  "process_packet cfg dnsdb now mem ft tcp st = Some st' \<Longrightarrow> packet_handler_stat st' = packet_handler_stat st"
  by (auto simp: process_packet_def dest!: process_new_stat put_packet_stat split: bind_splits if_splits)

lemma put_dns_packet_stat: "put_dns_packet cfg caplen mem n st = Some st' \<Longrightarrow> packet_handler_stat st' = packet_handler_stat st"
  by (auto simp: put_dns_packet_def Let_def split: bind_splits if_splits)

lemma packet_handler_counts:
  assumes "packet_handler cfg dnsdb now caplen mem off st = Some st'"
  shows "packet_handler_stat st' = packet_handler_stat st + 1"
proof -
  from assms obtain p where p: "parse_headers caplen mem off = Some p" by (cases "parse_headers caplen mem off") (auto simp: packet_handler_def)
  show ?thesis
  proof (cases p)
    case (Parsed x)
    then obtain ft l4Proto tcp udp n where "p = Parsed (ft, l4Proto, tcp, udp, n)" by (metis prod_cases5)
    with assms p show ?thesis
      by (auto simp: packet_handler_def Let_def dest!: process_packet_stat put_dns_packet_stat split: bind_splits if_splits)
  qed (use assms p in \<open>auto simp: packet_handler_def\<close>)
qed

lemma pcap_loop_ok:
  assumes "ph_ok cfg st" "\<forall>c \<in> set cs. cap_len c \<le> length (cap_mem c) \<and> not_a_reply (cap_len c) (cap_mem c) (cap_off c)"
  shows "\<exists>st'. pcap_loop cfg dnsdb cs st = Some st' \<and> ph_ok cfg st' \<and> ph_flows st' = ph_flows st \<and> ph_dns st' = ph_dns st \<and>
    packet_handler_stat st' = packet_handler_stat st + of_nat (length cs)"
  using assms
proof (induction cs arbitrary: st)
  case (Cons c cs)
  from packet_handler_returns [OF Cons.prems(1), of "cap_len c" "cap_mem c" "cap_off c" dnsdb "cap_now c"] Cons.prems(2) obtain st1 where
    "packet_handler cfg dnsdb (cap_now c) (cap_len c) (cap_mem c) (cap_off c) st = Some st1" "ph_ok cfg st1" "ph_flows st1 = ph_flows st" "ph_dns st1 = ph_dns st"
    by auto
  with Cons.IH [of st1] Cons.prems(2) packet_handler_counts [OF this(1)] show ?case by (auto simp: add.assoc)
qed simp

text \<open>
  The thread exits when the interface cannot be opened; otherwise it handles and counts every packet of any sequence that has no packet that is taken
  for a DNS reply, and leaves the tables to the other threads.
\<close>

lemma packet_thread_runs:
  assumes "ph_ok cfg st" "\<forall>cs. captured = Some cs \<longrightarrow>
    (\<forall>c \<in> set cs. cap_len c \<le> length (cap_mem c) \<and> not_a_reply (cap_len c) (cap_mem c) (cap_off c))"
  shows "captured = None \<and> packet_thread cfg dnsdb captured st = Some (Inl 1) \<or>
    (\<exists>cs st'. captured = Some cs \<and> packet_thread cfg dnsdb captured st = Some (Inr st') \<and> ph_ok cfg st' \<and> ph_flows st' = ph_flows st \<and>
       ph_dns st' = ph_dns st \<and> packet_handler_stat st' = packet_handler_stat st + of_nat (length cs))"
proof (cases captured)
  case (Some cs)
  with pcap_loop_ok [OF assms(1), of cs dnsdb] assms(2) show ?thesis by (auto simp: packet_thread_def)
qed (simp add: packet_thread_def)

end
