(* ===== verification/Evaluation.thy ===== *)
theory Evaluation
  imports Controller Packet_Thread
begin

text \<open>
  The evaluation programs (\<^verbatim>\<open>evaluation/\<close>, with the packets of \<^verbatim>\<open>tests/mock_packets.h\<close>). Each drives one thread of the controller with a
  fixed load: \<^verbatim>\<open>packet_handler_eval.c\<close> the packet handler, \<^verbatim>\<open>flowdb_eval.c\<close> and \<^verbatim>\<open>flowdb_bloom_eval.c\<close> the flow database, \<^verbatim>\<open>dnsdb_eval.c\<close> the DNS
  database, \<^verbatim>\<open>flowexport_eval.c\<close> the export. The times they measure are not modelled.

  Shown: the start of \<^verbatim>\<open>packet_handler_eval.c\<close> exits or starts its two threads, and each mock packet takes the path of a new relevant flow; a thread that is
  fed through a ring executes the fed commands in order, whatever the interleaving, so that the counters of the Bloom filter evaluation are
  those of its finished rounds, modulo their width; the export evaluation fills the flow table with all its flows.
\<close>

section \<open>The packet handler\<close>

subsection \<open>Model\<close>

text \<open>\<open>raw_packet\<close>: a string of 54 bytes in an array of 255.\<close>

definition raw_packet :: "u8 list" where
  "raw_packet =
     [0x01, 0x01, 0x01, 0x01, 0x01, 0x01, 0x00, 0x00, 0x00, 0x00, 0x00, 0x00, 0x08, 0x00,
      0x45, 0x00,
      0x00, 0x28, 0x00, 0x01, 0x00, 0x00, 0x40, 0x06, 0x7c, 0xcd, 0x7f, 0x00, 0x00, 0x01, 0x7f, 0x00,
      0x00, 0x01, 0x00, 0x14, 0x00, 0x50, 0x00, 0x00, 0x00, 0x00, 0x00, 0x00, 0x00, 0x00, 0x50, 0x02,
      0x20, 0x00, 0x91, 0x7c, 0x00, 0x00] @ replicate 201 0"

definition mock_raw_packets :: "config \<Rightarrow> bool \<Rightarrow> int \<Rightarrow> int \<Rightarrow> u8 list \<times> packet_state \<Rightarrow> (u8 list \<times> packet_state) option" where
  "mock_raw_packets cfg dnsdb now off st =
     (let (raw, ps) = st; raw = raw[26 := raw ! 26 + 1] in
      do { ps \<leftarrow> packet_handler cfg dnsdb now 255 raw off ps; Some (raw, ps) })"

text \<open>\<open>packet_thread\<close> with \<open>MOCK_PACKETS\<close>: its turns, for the clock and the uninitialised field at each turn.\<close>

fun mock_packet_thread :: "config \<Rightarrow> bool \<Rightarrow> (int \<times> int) list \<Rightarrow> u8 list \<times> packet_state \<Rightarrow> (u8 list \<times> packet_state) option" where
  "mock_packet_thread cfg dnsdb [] st = Some st"
| "mock_packet_thread cfg dnsdb ((now, off) # turns) st =
     do { st \<leftarrow> mock_raw_packets cfg dnsdb now off st; mock_packet_thread cfg dnsdb turns st }"

definition relevant_key :: dns_hashtable_key_t where
  "relevant_key = \<lparr> dk_type = L3_IPV4, dk_addr = set_ipv4 16777343 0 \<rparr>"

definition add_relevant_dns_entry :: "config \<Rightarrow> int \<Rightarrow> dns_hashtable_t \<Rightarrow> dns_hashtable_t option" where
  "add_relevant_dns_entry cfg now t =
     do { (_, t) \<leftarrow> dns_hashtable_add_or_change cfg t relevant_key (now + 100000); Some t }"

text \<open>
  \<open>low_level_controller\<close> of \<^verbatim>\<open>packet_handler_eval.c\<close>: \<open>sw\<close> is the switch, \<open>devmap\<close> the port map and \<open>fs\<close> the features before. The session table is not
  initialised. \<open>Inl\<close> is \<open>exit\<close>.
\<close>

definition eval_data_structures :: "config \<Rightarrow> int \<Rightarrow> controller \<Rightarrow> controller option" where
  "eval_data_structures cfg now c =
     do { dns \<leftarrow> add_relevant_dns_entry cfg now (dns_hashtable_init cfg);
          Some (c\<lparr> packet_ringbuffer := ringbuffer_init (packet_ringbuffer c),
            dataplane_ringbuffer := ringbuffer_init (dataplane_ringbuffer c),
            dns_ringbuffer := ringbuffer_init (dns_ringbuffer c),
            flow_hashtable := flow_hashtable_init cfg,
            dns_hashtable := dns, bloom_filter := bloom_filter_init cfg \<rparr>) }"

definition eval_low_level_controller ::
  "config \<Rightarrow> 'sw pal \<Rightarrow> 'sw sde \<Rightarrow> log_square_entry_t list \<Rightarrow> log_square_entry_t list \<Rightarrow> nat \<Rightarrow> port_entry_t list \<Rightarrow> forward_entry_t list \<Rightarrow>
    int \<Rightarrow> (thread \<Rightarrow> int) \<Rightarrow> int list \<Rightarrow> feature_state \<Rightarrow> 'sw \<Rightarrow> controller \<Rightarrow> ((int \<times> controller) + controller) option" where
  "eval_low_level_controller cfg pal sde iat_log_square size_log_square header_lengths ports forwards now pthread_create devmap fs sw c =
     do { c \<leftarrow> eval_data_structures cfg now c;
          let (_, _, sw) = switch_connect sde sw;
          p \<leftarrow> prepare_dataplane cfg pal iat_log_square size_log_square header_lengths ports forwards \<lparr> pr_switch = sw, DEVPORT_MAPPING = devmap \<rparr>;
          case p of Inl _ \<Rightarrow> Some (Inl (1, c))
          | Inr st \<Rightarrow> do {
              _ \<leftarrow> prepare_features cfg sde fs (pr_switch st);
              Some (THREAD_CREATE_OR_EXIT pthread_create [Statistics_Thread, Packet_Thread] c) } }"

subsection \<open>The mock packets\<close>

text \<open>The \<open>k\<close>-th mock packet is a SYN from port 20 to port 80 of 127.0.0.1, the source of which depends on \<open>k\<close> in its first byte.\<close>

definition mock_l3 :: "u8 \<Rightarrow> l3_header" where
  "mock_l3 b = IP4_Header [0x45, 0, 0, 0x28, 0, 1, 0, 0, 0x40] [0x7c, 0xcd] (of_le_bytes [b, 0, 0, 1]) 16777343"

definition mock_l4 :: l4_header where
  "mock_l4 = TCP_Header 20 80 [0, 0, 0, 0, 0, 0, 0, 0, 0x50] TH_SYN [0x20, 0, 0x91, 0x7c, 0, 0]"

definition mock_frame :: "u8 \<Rightarrow> u8 list" where
  "mock_frame b = frame 0x010101010101 [0, 0, 0, 0] 0 (mock_l3 b) mock_l4"

lemma mock_headers [simp]:
  "l3_ok (mock_l3 b)" "l4_ok mock_l4" "is_tcp mock_l4" "l4_flags mock_l4 AND TH_FIN = 0" "length (mock_frame b) = 54"
  by (simp_all add: mock_l3_def mock_l4_def mock_frame_def frame_def ether_bytes_def TH_SYN_def TH_FIN_def)

lemma le_bytes_of_le_bytes:
  assumes "8 * length bs \<le> LENGTH('a::len)"
  shows "le_bytes (length bs) (of_le_bytes bs :: 'a word) = bs"
proof (rule nth_equalityI)
  fix i assume i: "i < length (le_bytes (length bs) (of_le_bytes bs :: 'a word))"
  have "byte_of i (of_le_bytes bs :: 'a word) = bs ! i"
  proof (rule bit_word_eqI)
    fix n assume "n < LENGTH(8)"
    then have n: "(8 * i + n) div 8 = i" "(8 * i + n) mod 8 = n" "n < 8" "8 * i + n < LENGTH('a)" using i assms by simp_all
    then show "bit (byte_of i (of_le_bytes bs :: 'a word)) n = bit (bs ! i) n"
      using i unfolding bit_byte_of bit_of_le_bytes by simp
  qed
  then show "le_bytes (length bs) (of_le_bytes bs :: 'a word) ! i = bs ! i" using i by (simp add: le_bytes_def)
qed simp

lemma mock_frame_eq: "raw_packet[26 := b] = mock_frame b @ replicate 201 0"
proof -
  have n: "length [b, 0, 0, 1] = 4" by simp
  have "le_bytes 4 (of_le_bytes [b, 0, 0, 1] :: u32) = [b, 0, 0, 1]"
    using le_bytes_of_le_bytes [of "[b, 0, 0, 1]", where 'a = 32] unfolding n by (simp del: of_le_bytes.simps)
  moreover have "le_bytes 4 (16777343 :: u32) = [0x7f, 0, 0, 1]" "be_bytes 6 (0x010101010101 :: u64) = [1, 1, 1, 1, 1, 1]"
    "be_bytes 2 (0 :: u16) = [0, 0]" "be_bytes 2 (20 :: u16) = [0, 20]" "be_bytes 2 (80 :: u16) = [0, 80]" "le_bytes 2 ETHERTYPE_IPV4_BE = [8, 0]"
    by code_simp+
  ultimately show ?thesis
    by (simp add: raw_packet_def mock_frame_def frame_def ether_bytes_def mock_l3_def mock_l4_def IPPROTO_TCP_def TH_SYN_def del: of_le_bytes.simps)
qed

definition mock_flow :: "bool \<Rightarrow> dns_view \<Rightarrow> u8 \<Rightarrow> int \<Rightarrow> five_tuple_t" where
  "mock_flow dnsdb m b off = session_side dnsdb m (frame_tuple 0x010101010101 0 off (mock_l3 b) mock_l4)"

text \<open>The commands of a sequence of turns, the last mock packet before which had the byte \<open>b\<close>.\<close>

fun mock_commands :: "bool \<Rightarrow> dns_view \<Rightarrow> u8 \<Rightarrow> (int \<times> int) list \<Rightarrow> packet_item_t list" where
  "mock_commands dnsdb m b [] = []"
| "mock_commands dnsdb m b ((now, off) # turns) = PKT_ADD_FLOW (mock_flow dnsdb m (b + 1) off) # mock_commands dnsdb m (b + 1) turns"

lemma mock_flow_dst: "dst_dns_key (mock_flow dnsdb m b off) = relevant_key"
  by (simp add: mock_flow_def dst_dns_key_def toDnsHashtableKey_def relevant_key_def session_side_def frame_tuple_def mock_l3_def mock_l4_def)

lemma mock_commands_one:
  assumes "now \<le> t"
  shows "packet_commands dnsdb [relevant_key \<mapsto> t] now False (mock_flow dnsdb m b off) (l4_flags mock_l4) = ([PKT_ADD_FLOW (mock_flow dnsdb m b off)], [])"
proof -
  have d: "live [relevant_key \<mapsto> t] now (dst_dns_key (mock_flow dnsdb m b off))" using assms by (simp add: live_def mock_flow_dst)
  have s: "\<not> stale [relevant_key \<mapsto> t] now k" for k using assms by (simp add: stale_def)
  have p: "l4_proto (ft_h (mock_flow dnsdb m b off)) = L4_TCP"
    by (simp add: mock_flow_def session_side_def frame_tuple_def mock_l4_def)
  show ?thesis using d s p
    by (simp add: packet_commands_def packet_verdict_def new_commands_def relevant_def removals_def L4_TCP_def L4_UDP_def)
qed

lemma mock_turn:
  assumes "ph_ok cfg ps" "flow_map (ph_flows ps) = Map.empty" "dns_map (ph_dns ps) = [relevant_key \<mapsto> t]" "now \<le> t"
  shows "\<exists>ps'. mock_raw_packets cfg dnsdb now off (raw_packet[26 := b], ps) = Some (raw_packet[26 := b + 1], ps') \<and>
    ph_effect cfg ([PKT_ADD_FLOW (mock_flow dnsdb [relevant_key \<mapsto> t] (b + 1) off)], []) ps ps' \<and>
    packet_handler_stat ps' = packet_handler_stat ps + 1"
proof -
  let ?f = "mock_frame (b + 1)" and ?ft = "frame_tuple 0x010101010101 0 off (mock_l3 (b + 1)) mock_l4"
  have "length raw_packet = 255" by (simp add: raw_packet_def)
  then have r: "(raw_packet[26 := b])[26 := raw_packet[26 := b] ! 26 + 1] = ?f @ replicate 201 0" by (simp flip: mock_frame_eq)
  have c: "255 \<le> length (?f @ replicate 201 (0 :: u8))" "length ?f \<le> 255" "length [0, 0, 0, 0 :: u8] = 4" by simp_all
  note parse = parse_frame [OF mock_headers(1,2) c(3) c(2) [unfolded mock_frame_def], of "replicate 201 0" off, folded mock_frame_def]
  have n: "\<not> taken_for_reply (?f @ replicate 201 0) (l4_number mock_l4) (length ?f)"
    using frame_not_reply [OF mock_headers(1,2) c(3)] unfolding mock_frame_def by simp
  have f: "th_flags (?f @ replicate 201 0) (if is_tcp mock_l4 then Some (l4_offset (mock_l3 (b + 1))) else None) = Some (l4_flags mock_l4)"
    using frame_l4(1) [OF mock_headers(1,2) c(3)] unfolding mock_frame_def by simp
  from packet_handler_effect [OF assms(1) c(1) parse n f, of dnsdb now] obtain ps' where
    p: "packet_handler cfg dnsdb now 255 (?f @ replicate 201 0) off ps = Some ps'"
      "ph_effect cfg (packet_commands dnsdb (dns_map (ph_dns ps)) now (flow_map (ph_flows ps) (ft_h ?ft) \<noteq> None)
        (session_side dnsdb (dns_map (ph_dns ps)) ?ft) (l4_flags mock_l4)) ps ps'" by blast
  have "ph_effect cfg ([PKT_ADD_FLOW (mock_flow dnsdb [relevant_key \<mapsto> t] (b + 1) off)], []) ps ps'"
    using p(2) mock_commands_one [OF assms(4), of dnsdb "[relevant_key \<mapsto> t]" "b + 1" off] assms(2,3) by (simp add: mock_flow_def)
  with p(1) packet_handler_counts [OF p(1)] r show ?thesis by (simp add: mock_raw_packets_def mock_frame_eq)
qed

lemma mock_turns:
  assumes "flow_map (ph_flows ps) = Map.empty" "dns_map (ph_dns ps) = [relevant_key \<mapsto> t]" "\<forall>(now, off) \<in> set turns. now \<le> t" "ph_ok cfg ps"
  shows "\<exists>raw ps'. mock_packet_thread cfg dnsdb turns (raw_packet[26 := b], ps) = Some (raw, ps') \<and>
    ph_effect cfg (mock_commands dnsdb [relevant_key \<mapsto> t] b turns, []) ps ps' \<and>
    packet_handler_stat ps' = packet_handler_stat ps + of_nat (length turns)"
  using assms
proof (induction turns arbitrary: b ps)
  case Nil
  then show ?case by (simp add: ph_effect_refl)
next
  case (Cons x turns)
  obtain now off where x: "x = (now, off)" by (cases x)
  from mock_turn [OF Cons.prems(4,1,2), of now dnsdb off b] Cons.prems(3) x obtain ps1 where
    1: "mock_raw_packets cfg dnsdb now off (raw_packet[26 := b], ps) = Some (raw_packet[26 := b + 1], ps1)"
      "ph_effect cfg ([PKT_ADD_FLOW (mock_flow dnsdb [relevant_key \<mapsto> t] (b + 1) off)], []) ps ps1"
      "packet_handler_stat ps1 = packet_handler_stat ps + 1" by auto
  then have "ph_ok cfg ps1" "ph_flows ps1 = ph_flows ps" "ph_dns ps1 = ph_dns ps" by (simp_all add: ph_effect_def)
  with Cons.IH [of ps1 "b + 1"] Cons.prems 1 x show ?case by (auto simp: ph_effect_def add.assoc simp del: fun_upd_apply)
qed

lemma q_accept_all_take: "length xs \<le> cap \<Longrightarrow> q_accept_all cap new xs = take cap (xs @ new)"
proof (induction new arbitrary: xs)
  case (Cons x new)
  then show ?case by (cases "length xs < cap") (simp_all add: q_accept_def Cons.IH [of "xs @ [x]"] take_Cons')
qed simp

lemma relevant_entry_added:
  assumes "0 < DNS_HASHTABLE_SIZE cfg" "DNS_HASHTABLE_SIZE cfg < 2 ^ 31"
  shows "\<exists>t. add_relevant_dns_entry cfg now (dns_hashtable_init cfg) = Some t \<and> dns_table_inv cfg t \<and> dns_map t = [relevant_key \<mapsto> now + 100000]"
  using dns_put_new [OF dns_init_inv(1) [OF assms], of relevant_key "now + 100000"] dns_init_inv(2) [OF assms] assms(1)
  by (auto simp: add_relevant_dns_entry_def)

lemma eval_memory:
  assumes "cfg_ok cfg" "1 < DNS_HASHTABLE_SIZE cfg" "static_memory cfg c"
  shows "\<exists>c'. eval_data_structures cfg now c = Some c' \<and> threads c' = [] \<and>
    (\<forall>ts. let ps = fst (monitor_of (c'\<lparr> threads := ts \<rparr>)) in ph_ok cfg ps \<and> flow_map (ph_flows ps) = Map.empty \<and>
       dns_map (ph_dns ps) = [relevant_key \<mapsto> now + 100000] \<and> rb_items (PACKET_RINGBUFFER_SIZE cfg) (ph_packets ps) = [] \<and> packet_handler_stat ps = 0)"
proof -
  have d: "0 < DNS_HASHTABLE_SIZE cfg" "DNS_HASHTABLE_SIZE cfg < 2 ^ 31" using assms(1) by (simp_all add: cfg_ok_def)
  from relevant_entry_added [OF this, of now] obtain t where
    t: "add_relevant_dns_entry cfg now (dns_hashtable_init cfg) = Some t" "dns_table_inv cfg t" "dns_map t = [relevant_key \<mapsto> now + 100000]" by blast
  have r: "rb_inv (PACKET_RINGBUFFER_SIZE cfg) (ringbuffer_init (packet_ringbuffer c))" "rb_inv (DNS_RINGBUFFER_SIZE cfg) (ringbuffer_init (dns_ringbuffer c))"
    using assms(1,3) by (auto simp: cfg_ok_def static_memory_def intro: rb_inv_init)
  show ?thesis using t r assms(2,3) flow_init_inv [OF assms(1)]
    by (simp add: eval_data_structures_def monitor_of_def ph_ok_def ph_inv_def static_memory_def rb_items_init)
qed

text \<open>
  The evaluation of the packet handler. On the memory of the loader, the program exits with status 1 because the data plane cannot be prepared or a
  thread cannot be created, or it starts the statistics thread and the packet
  thread; then, for any number of mock packets within the 100000 seconds that the mock address is relevant, whether \<open>USE_DNS_DB\<close> is defined or not, the packet
  handler counts every packet and finds each to be a new relevant flow. As no thread takes the commands, the ring ends up with those of the first packets that fit.
\<close>

theorem packet_handler_evaluation:
  assumes "cfg_ok cfg" "1 < DNS_HASHTABLE_SIZE cfg" "static_memory cfg c"
    and "pal_ok pal fwd" "capacities_ok cfg pal" "sde_keeps sde tab" "egress_flags_ok (fs_features fs)"
    and "\<forall>(now, off) \<in> set turns. now \<le> now0 + 100000"
  shows "\<exists>r. eval_low_level_controller cfg pal sde iat_log_square size_log_square header_lengths ports forwards now0 pthread_create devmap fs sw c = Some r \<and>
    ((\<exists>c'. r = Inl (1, c')) \<and>
       (prepare_dataplane cfg pal iat_log_square size_log_square header_lengths ports forwards
          \<lparr> pr_switch = snd (snd (switch_connect sde sw)), DEVPORT_MAPPING = devmap \<rparr> = Some (Inl ()) \<or>
        pthread_create Statistics_Thread \<noteq> 0 \<or> pthread_create Packet_Thread \<noteq> 0) \<or>
     (\<exists>c' raw ps. r = Inr c' \<and> threads c' = [Statistics_Thread, Packet_Thread] \<and>
        mock_packet_thread cfg dnsdb turns (raw_packet, fst (monitor_of c')) = Some (raw, ps) \<and>
        packet_handler_stat ps = of_nat (length turns) \<and>
        rb_items (PACKET_RINGBUFFER_SIZE cfg) (ph_packets ps) =
          take (PACKET_RINGBUFFER_SIZE cfg) (mock_commands dnsdb [relevant_key \<mapsto> now0 + 100000] 0x7f turns)))"
proof -
  from eval_memory [OF assms(1-3), of now0] obtain c1 where
    c1: "eval_data_structures cfg now0 c = Some c1" "threads c1 = []" and
    m: "\<And>ts. let ps = fst (monitor_of (c1\<lparr> threads := ts \<rparr>)) in ph_ok cfg ps \<and> flow_map (ph_flows ps) = Map.empty \<and>
       dns_map (ph_dns ps) = [relevant_key \<mapsto> now0 + 100000] \<and> rb_items (PACKET_RINGBUFFER_SIZE cfg) (ph_packets ps) = [] \<and> packet_handler_stat ps = 0" by blast
  obtain s h sw1 where w: "switch_connect sde sw = (s, h, sw1)" by (metis prod_cases3)
  let ?p = "prepare_dataplane cfg pal iat_log_square size_log_square header_lengths ports forwards \<lparr> pr_switch = sw1, DEVPORT_MAPPING = devmap \<rparr>"
  from prepare_leads [OF assms(4,5), of iat_log_square size_log_square header_lengths ports forwards]
  consider "?p = Some (Inl ())" | st where "?p = Some (Inr st)" unfolding leads_def by blast
  then show ?thesis
  proof cases
    case 1
    then show ?thesis by (simp add: eval_low_level_controller_def c1(1) w)
  next
    case (2 st)
    obtain x where x: "prepare_features cfg sde fs (pr_switch st) = Some x" using prepare_features_ok [OF assms(6,7)] by blast
    let ?ts = "[Statistics_Thread, Packet_Thread]"
    have e: "eval_low_level_controller cfg pal sde iat_log_square size_log_square header_lengths ports forwards now0 pthread_create devmap fs sw c =
        Some (THREAD_CREATE_OR_EXIT pthread_create ?ts c1)"
      using 2 x by (simp add: eval_low_level_controller_def c1(1) w del: THREAD_CREATE_OR_EXIT.simps)
    show ?thesis
    proof (cases "\<forall>t \<in> set ?ts. pthread_create t = 0")
      case False
      then have "\<exists>t \<in> set ?ts. pthread_create t \<noteq> 0" by blast
      from thread_fails [OF this, of c1] e show ?thesis by auto
    next
      case True
      let ?c = "c1\<lparr> threads := ?ts \<rparr>"
      have i: "THREAD_CREATE_OR_EXIT pthread_create ?ts c1 = Inr ?c" using threads_started [OF True, of c1] c1(2) by simp
      note k = m [of ?ts, unfolded Let_def]
      have raw: "raw_packet = raw_packet[26 := 0x7f]" by (simp add: raw_packet_def)
      from mock_turns [OF _ _ assms(8), of "fst (monitor_of ?c)" cfg dnsdb "0x7f"] k obtain raw ps where
        "mock_packet_thread cfg dnsdb turns (raw_packet, fst (monitor_of ?c)) = Some (raw, ps)"
        "ph_effect cfg (mock_commands dnsdb [relevant_key \<mapsto> now0 + 100000] 0x7f turns, []) (fst (monitor_of ?c)) ps"
        "packet_handler_stat ps = of_nat (length turns)" unfolding raw [symmetric] by auto
      with e i k show ?thesis by (auto simp: ph_effect_def q_accept_all_take)
    qed
  qed
qed

theorem packet_handler_evaluation_witness:
  "\<exists>c' raw ps. eval_low_level_controller small_config ref_pal forwarding_sde [] [] 0 (port_entries 0 0) forward_entries 5 (\<lambda>_. 0) []
        \<lparr> fs_features = features small_config (\<lambda>_. 1), last_flow_update = [] \<rparr> [(7, 5, 6)] example_controller = Some (Inr c') \<and>
     mock_packet_thread small_config True [(6, 0), (7, 0)] (raw_packet, fst (monitor_of c')) = Some (raw, ps) \<and> packet_handler_stat ps = 2 \<and>
     length (rb_items 4 (ph_packets ps)) = 2"
proof -
  have m: "static_memory small_config example_controller"
    by (simp add: static_memory_def example_controller_def empty_ring_def ringbuffer_init_def boot_session_table_def session_hashtable_init_def)
  let ?fs = "\<lparr> fs_features = features small_config (\<lambda>_. 1), last_flow_update = [] \<rparr>"
  have k: "sde_keeps forwarding_sde (\<lambda>_. Map.empty)" "egress_flags_ok (fs_features ?fs)"
    by (simp_all add: sde_keeps_def egress_flags_ok_def features_def mk_register_def)
  have c: "switch_connect forwarding_sde [(7, 5, 6)] = (SUCCESS, 1, [(7, 5, 6)])" by (simp add: switch_connect_def forwarding_sde_def)
  from ref_pal_prepares have "prepare_dataplane small_config ref_pal [] [] 0 (port_entries 0 0) forward_entries
      \<lparr> pr_switch = snd (snd (switch_connect forwarding_sde [(7, 5, 6)])), DEVPORT_MAPPING = [] \<rparr> \<noteq> Some (Inl ())" unfolding c by auto
  with packet_handler_evaluation [OF cfg_ok_small _ m ref_pal_ok ref_capacities_ok k, of "[(6, 0), (7, 0)]" 5 "[]" "[]" 0 "port_entries 0 0" forward_entries
      "\<lambda>_. 0" "[]" "[(7, 5, 6)]" True]
  obtain c' raw ps where r: "eval_low_level_controller small_config ref_pal forwarding_sde [] [] 0 (port_entries 0 0) forward_entries 5 (\<lambda>_. 0) []
        ?fs [(7, 5, 6)] example_controller = Some (Inr c')"
     "mock_packet_thread small_config True [(6, 0), (7, 0)] (raw_packet, fst (monitor_of c')) = Some (raw, ps)" "packet_handler_stat ps = 2"
     "rb_items 4 (ph_packets ps) = take 4 (mock_commands True [relevant_key \<mapsto> 100005] 0x7f [(6, 0), (7, 0)])" by auto
  have "length (rb_items 4 (ph_packets ps)) = 2" unfolding r(4) by simp
  with r(1-3) show ?thesis by blast
qed

section \<open>Threads that are fed through a ring\<close>

text \<open>
  The other programs put the commands \<open>cs 0, cs 1, ...\<close> into a ring with \<open>ensure_put\<close>, while the thread under evaluation takes them
  and executes them: \<open>exec c s s'\<close>, a relation, since the clock, \<open>libuuid\<close> and uninitialised variables are not determined.
\<close>

inductive fed_reachable :: "nat \<Rightarrow> (nat \<Rightarrow> 'c) \<Rightarrow> ('c \<Rightarrow> 's \<Rightarrow> 's \<Rightarrow> bool) \<Rightarrow> 's \<Rightarrow> nat \<times> 'c ringbuffer \<times> 's \<Rightarrow> bool"
  for sz cs exec s0 where
  Start: "rb_inv sz ring \<Longrightarrow> rb_items sz ring = [] \<Longrightarrow> fed_reachable sz cs exec s0 (0, ring, s0)"
| Feed: "fed_reachable sz cs exec s0 (i, ring, s) \<Longrightarrow> ringbuffer_ensure_put sz (cs i) ring = Some ring' \<Longrightarrow>
     fed_reachable sz cs exec s0 (Suc i, ring', s)"
| Take: "fed_reachable sz cs exec s0 (i, ring, s) \<Longrightarrow> ringbuffer_get sz ring = Some ((0, Some c), ring') \<Longrightarrow> exec c s s' \<Longrightarrow>
     fed_reachable sz cs exec s0 (i, ring', s')"

text \<open>\<open>inv k s\<close>: what holds of the thread after the first \<open>k\<close> commands.\<close>

locale fed_thread =
  fixes sz :: nat and cs :: "nat \<Rightarrow> 'c" and exec :: "'c \<Rightarrow> 's \<Rightarrow> 's \<Rightarrow> bool" and inv :: "nat \<Rightarrow> 's \<Rightarrow> bool"
  assumes preserves: "inv k s \<Longrightarrow> exec (cs k) s s' \<Longrightarrow> inv (Suc k) s'"
    and progress: "inv k s \<Longrightarrow> \<exists>s'. exec (cs k) s s'"
begin

lemma fed_prefix:
  assumes "fed_reachable sz cs exec s0 st" "inv 0 s0"
  shows "case st of (i, ring, s) \<Rightarrow> rb_inv sz ring \<and> (\<exists>k \<le> i. rb_items sz ring = map cs [k..<i] \<and> inv k s)"
  using assms(1)
proof induction
  case (Start ring)
  with assms(2) show ?case by auto
next
  case (Feed i ring s ring')
  then obtain k where k: "k \<le> i" "rb_items sz ring = map cs [k..<i]" "inv k s" "rb_inv sz ring" by auto
  with ensure_put_stores [OF k(4) Feed.hyps(2)] show ?case by (auto intro!: exI [of _ k])
next
  case (Take i ring s c ring' s')
  then obtain k where k: "k \<le> i" "rb_items sz ring = map cs [k..<i]" "inv k s" "rb_inv sz ring" by auto
  from ring.get_cases [OF k(4) Take.hyps(2)] have r: "rb_inv sz ring'" "map cs [k..<i] = c # rb_items sz ring'" using k(2) by auto
  then have "k < i" by (cases "k < i") auto
  with r(2) have "c = cs k" "rb_items sz ring' = map cs [Suc k..<i]" by (auto simp: upt_conv_Cons)
  with preserves [OF k(3)] Take.hyps(3) r(1) \<open>k < i\<close> show ?case by (auto intro!: exI [of _ "Suc k"])
qed

text \<open>The thread is never stuck: what is at the front of the ring can be executed.\<close>

lemma fed_progress:
  assumes "fed_reachable sz cs exec s0 (i, ring, s)" "inv 0 s0" "ringbuffer_get sz ring = Some ((0, Some c), ring')"
  shows "\<exists>s'. exec c s s'"
proof -
  from fed_prefix [OF assms(1,2)] obtain k where k: "rb_inv sz ring" "rb_items sz ring = map cs [k..<i]" "inv k s" by auto
  from ring.get_cases [OF k(1) assms(3)] k(2) have "map cs [k..<i] = c # rb_items sz ring'" by auto
  then have "c = cs k" by (cases "k < i") (auto simp: upt_conv_Cons)
  with progress [OF k(3)] show ?thesis by simp
qed

text \<open>Any number of commands can be put and executed.\<close>

lemma fed_run:
  fixes ring0 :: "'c ringbuffer"
  assumes "rb_inv sz ring0" "rb_items sz ring0 = []" "inv 0 s0"
  shows "\<exists>ring s. fed_reachable sz cs exec s0 (n, ring, s) \<and> rb_items sz ring = []"
proof (induction n)
  case 0
  from fed_reachable.Start [OF assms(1,2), of cs exec s0] assms(2) show ?case by blast
next
  case (Suc n)
  then obtain ring s where r: "fed_reachable sz cs exec s0 (n, ring, s)" "rb_items sz ring = []" by blast
  from fed_prefix [OF r(1) assms(3)] r(2) have i: "rb_inv sz ring" by auto
  have "length (rb_items sz ring) < sz" using r(2) i by (simp add: rb_inv_def del: length_rb_items)
  from ensure_put_room [OF i this, of "cs n"] r(2) obtain ring1 where
    1: "ringbuffer_ensure_put sz (cs n) ring = Some ring1" "rb_inv sz ring1" "rb_items sz ring1 = [cs n]" by auto
  from ring.get_item [OF 1(2,3)] obtain ring2 where 2: "ringbuffer_get sz ring1 = Some ((0, Some (cs n)), ring2)" "rb_items sz ring2 = []" by blast
  note f = fed_reachable.Feed [OF r(1) 1(1)]
  from fed_progress [OF f assms(3) 2(1)] obtain s' where "exec (cs n) s s'" by blast
  from fed_reachable.Take [OF f 2(1) this] 2(2) show ?case by blast
qed

end

subsection \<open>The flow database\<close>

text \<open>The five tuple of the flow database evaluations.\<close>

definition eval_tuple :: five_tuple_t where
  "eval_tuple = zero_five_tuple\<lparr>
     ft_h := \<lparr> src_addr = set_ipv4 1234 0, dst_addr = set_ipv4 1234 0, src_port = 1234, dst_port = 1234, l3_proto = L3_IPV4, l4_proto = L4_TCP \<rparr>,
     session_id_egress_offset := 0, dev_port := 1, ingress_ts := 1 \<rparr>"

text \<open>The loops put two commands per round: number \<open>i\<close> is the first one of round \<open>i div 2\<close> if \<open>i\<close> is even.\<close>

definition flowdb_eval_command :: "nat \<Rightarrow> packet_item_t" where
  "flowdb_eval_command i = (if even i then PKT_ADD_FLOW eval_tuple else PKT_REMOVE_FLOW eval_tuple)"

definition flowdb_bloom_eval_command :: "nat \<Rightarrow> packet_item_t" where
  "flowdb_bloom_eval_command i = (if even i then PKT_FIX_BLOOM_FILTER_RELEVANT eval_tuple else PKT_ADD_BLOOM_FILTER_IRRELEVANT eval_tuple)"

definition flowdb_exec :: "config \<Rightarrow> bool \<Rightarrow> int list \<Rightarrow> packet_item_t \<Rightarrow> flow_db \<Rightarrow> flow_db \<Rightarrow> bool" where
  "flowdb_exec cfg us devmap command db db' \<longleftrightarrow>
     (\<exists>uuid junk g. (us \<longrightarrow> 0 \<le> g \<and> g < int (FEATURE_SIZE cfg)) \<and> flowdb_command cfg us devmap uuid junk g command db = Some db')"

lemma eval_tuple_simps:
  "bf_flow_ok eval_tuple" "ft_pipe eval_tuple = 0" "get_hashes cfg junk eval_tuple = get_hashes cfg [] eval_tuple"
  "wf_packet us (\<lambda>_. 0) (\<lambda>_. 0) eval_tuple"
  by (simp_all add: bf_flow_ok_def eval_tuple_def dev_port_to_pipe_def get_hashes_def wf_packet_def MAX_DEV_PORT_ID_def)

lemma flowdb_execI:
  assumes "cfg_ok cfg" "flowdb_command cfg us devmap uuid junk 0 command db = Some db'"
  shows "flowdb_exec cfg us devmap command db db'"
proof -
  have "us \<longrightarrow> (0 :: int) \<le> 0 \<and> 0 < int (FEATURE_SIZE cfg)" using assms(1) by (simp add: cfg_ok_def FEATURE_SIZE_def NUM_PIPES_def)
  with assms(2) show ?thesis unfolding flowdb_exec_def by blast
qed

text \<open>After the first \<open>k\<close> commands of the Bloom filter evaluation.\<close>

definition bloom_rounds :: "config \<Rightarrow> nat \<Rightarrow> flow_db \<Rightarrow> bool" where
  "bloom_rounds cfg k db \<longleftrightarrow> cfg_ok cfg \<and> bf_ok cfg (db_bloom db) \<and> rb_inv (DATAPLANE_RINGBUFFER_SIZE cfg) (db_ring db) \<and>
     (\<forall>p i x. in_filter cfg p i x \<longrightarrow>
        counter (db_bloom db) p i x = (if p = 0 \<and> x = get_hashes cfg [] eval_tuple ! i then of_nat (k div 2) else 0))"

lemma bloom_round_ok:
  assumes "bloom_rounds cfg k db"
  shows "\<exists>db'. flowdb_command cfg us devmap uuid junk g (flowdb_bloom_eval_command k) db = Some db' \<and> bloom_rounds cfg (Suc k) db'"
proof -
  from assms have D: "cfg_ok cfg" "bf_ok cfg (db_bloom db)" "rb_inv (DATAPLANE_RINGBUFFER_SIZE cfg) (db_ring db)" by (auto simp: bloom_rounds_def)
  show ?thesis
  proof (cases "even k")
    case True
    with set_relevant_ok [OF D eval_tuple_simps(1), of junk] assms show ?thesis
      by (auto simp: flowdb_bloom_eval_command_def flowdb_command_def bloom_rounds_def)
  next
    case False
    then have k: "Suc k div 2 = Suc (k div 2)" by presburger
    from set_irrelevant_ok [OF D eval_tuple_simps(1), of junk] obtain bf' ring' where
      r: "bloom_filter_set_irrelevant cfg junk eval_tuple (db_bloom db, db_ring db) = Some (bf', ring')" "bf_ok cfg bf'"
        "rb_inv (DATAPLANE_RINGBUFFER_SIZE cfg) ring'"
        "\<And>p i x. in_filter cfg p i x \<Longrightarrow> counter bf' p i x = counter (db_bloom db) p i x +
           (if p = 0 \<and> x = get_hashes cfg [] eval_tuple ! i then 1 else 0)"
      unfolding eval_tuple_simps(2) eval_tuple_simps(3) [of cfg junk] by blast
    then show ?thesis using False k assms
      by (auto simp: flowdb_bloom_eval_command_def flowdb_command_def bloom_rounds_def add.commute)
  qed
qed

interpretation bloom_eval: fed_thread "PACKET_RINGBUFFER_SIZE cfg" flowdb_bloom_eval_command "flowdb_exec cfg us devmap" "bloom_rounds cfg"
  for cfg us devmap
proof unfold_locales
  fix k db db' assume r: "bloom_rounds cfg k db" and e: "flowdb_exec cfg us devmap (flowdb_bloom_eval_command k) db db'"
  then obtain uuid junk g where "flowdb_command cfg us devmap uuid junk g (flowdb_bloom_eval_command k) db = Some db'"
    by (auto simp: flowdb_exec_def)
  with bloom_round_ok [OF r, of us devmap uuid junk g] show "bloom_rounds cfg (Suc k) db'" by simp
next
  fix k db assume r: "bloom_rounds cfg k db"
  then have "cfg_ok cfg" by (simp add: bloom_rounds_def)
  with bloom_round_ok [OF r, of us devmap "[]" "[]" 0] show "\<exists>db'. flowdb_exec cfg us devmap (flowdb_bloom_eval_command k) db db'"
    using flowdb_execI by blast
qed

text \<open>After the first \<open>k\<close> commands of the flow evaluation the flow is in the table at most between its two commands of a round.\<close>

definition flow_rounds :: "config \<Rightarrow> bool \<Rightarrow> int list \<Rightarrow> nat \<Rightarrow> flow_db \<Rightarrow> bool" where
  "flow_rounds cfg us devmap k db \<longleftrightarrow> cfg_ok cfg \<and> devmap_ok devmap \<and> db_inv cfg us (\<lambda>_. 0) (\<lambda>_. 0) db \<and>
     (even k \<longrightarrow> flow_map (db_flows db) (ft_h eval_tuple) = None)"

lemma flow_round_ok:
  assumes "flow_rounds cfg us devmap k db" "us \<longrightarrow> 0 \<le> g \<and> g < int (FEATURE_SIZE cfg)"
  shows "\<exists>db'. flowdb_command cfg us devmap uuid junk g (flowdb_eval_command k) db = Some db' \<and> flow_rounds cfg us devmap (Suc k) db'"
proof -
  let ?db = "db\<lparr> flowdb_stat := flowdb_stat db + 1 \<rparr>"
  from assms(1) have D: "devmap_ok devmap" "db_inv cfg us (\<lambda>_. 0) (\<lambda>_. 0) db" "db_inv cfg us (\<lambda>_. 0) (\<lambda>_. 0) ?db"
    by (auto simp: flow_rounds_def)
  show ?thesis
  proof (cases "even k")
    case True
    from flowdb_command_ok [OF D(2,1), of g "PKT_ADD_FLOW eval_tuple" uuid junk] eval_tuple_simps(4) obtain db' where
      r: "flowdb_command cfg us devmap uuid junk g (PKT_ADD_FLOW eval_tuple) db = Some db'" "db_inv cfg us (\<lambda>_. 0) (\<lambda>_. 0) db'" by auto
    with r True assms(1) show ?thesis by (auto simp: flow_rounds_def flowdb_eval_command_def)
  next
    case False
    from remove_by_five_tuple_ok [OF D(3) eval_tuple_simps(4), of g] assms(2) obtain db' where
      "remove_flow_by_five_tuple cfg us g eval_tuple ?db = Some db'" "db_inv cfg us (\<lambda>_. 0) (\<lambda>_. 0) db'"
      "flow_map (db_flows db') = (flow_map (db_flows ?db))(ft_h eval_tuple := None)" by blast
    with False assms(1) show ?thesis by (auto simp: flow_rounds_def flowdb_eval_command_def flowdb_command_def split: if_splits)
  qed
qed

interpretation flow_eval: fed_thread "PACKET_RINGBUFFER_SIZE cfg" flowdb_eval_command "flowdb_exec cfg us devmap" "flow_rounds cfg us devmap"
  for cfg us devmap
proof unfold_locales
  fix k db db' assume r: "flow_rounds cfg us devmap k db" and e: "flowdb_exec cfg us devmap (flowdb_eval_command k) db db'"
  then obtain uuid junk g where "us \<longrightarrow> 0 \<le> g \<and> g < int (FEATURE_SIZE cfg)" "flowdb_command cfg us devmap uuid junk g (flowdb_eval_command k) db = Some db'"
    by (auto simp: flowdb_exec_def)
  with flow_round_ok [OF r this(1), of uuid junk] show "flow_rounds cfg us devmap (Suc k) db'" by simp
next
  fix k db assume r: "flow_rounds cfg us devmap k db"
  then have c: "cfg_ok cfg" by (simp add: flow_rounds_def)
  then have "us \<longrightarrow> (0 :: int) \<le> 0 \<and> 0 < int (FEATURE_SIZE cfg)" by (simp add: cfg_ok_def FEATURE_SIZE_def NUM_PIPES_def)
  from flow_round_ok [OF r this, of "[]" "[]"] show "\<exists>db'. flowdb_exec cfg us devmap (flowdb_eval_command k) db db'"
    using flowdb_execI [OF c] by blast
qed

lemma flow_evaluation:
  assumes "cfg_ok cfg" "devmap_ok devmap" "db_inv cfg us (\<lambda>_. 0) (\<lambda>_. 0) db0" "flow_map (db_flows db0) = Map.empty"
    and "fed_reachable (PACKET_RINGBUFFER_SIZE cfg) flowdb_eval_command (flowdb_exec cfg us devmap) db0 (i, ring, db)"
  shows "\<exists>k \<le> i. rb_items (PACKET_RINGBUFFER_SIZE cfg) ring = map flowdb_eval_command [k..<i] \<and> db_inv cfg us (\<lambda>_. 0) (\<lambda>_. 0) db \<and>
    (even k \<longrightarrow> flow_map (db_flows db) (ft_h eval_tuple) = None)"
proof -
  have "flow_rounds cfg us devmap 0 db0" using assms(1-4) by (simp add: flow_rounds_def)
  from flow_eval.fed_prefix [OF assms(5) this] show ?thesis by (auto simp: flow_rounds_def)
qed

lemma counter_init: "in_filter cfg p i x \<Longrightarrow> counter (bloom_filter_init cfg) p i x = 0"
  by (simp add: counter_def bloom_filter_init_def in_filter_def nat_less_iff)

text \<open>
  C24. The evaluation of the Bloom filter. However the main thread and the flow database are interleaved, the counters of the flow are the number of the rounds
  that are finished, modulo \<open>2^16\<close>, and all other counters are zero: marking the flow relevant again does not take its mark back, and after 65536 rounds
  the flow counts as unmarked. The next command in the ring can always be executed.
\<close>

theorem bloom_evaluation_wraps:
  assumes "cfg_ok cfg" "db_bloom db0 = bloom_filter_init cfg" "rb_inv (DATAPLANE_RINGBUFFER_SIZE cfg) (db_ring db0)"
    and "fed_reachable (PACKET_RINGBUFFER_SIZE cfg) flowdb_bloom_eval_command (flowdb_exec cfg us devmap) db0 (i, ring, db)"
  shows "(\<exists>k \<le> i. rb_items (PACKET_RINGBUFFER_SIZE cfg) ring = map flowdb_bloom_eval_command [k..<i] \<and>
      (\<forall>p j x. in_filter cfg p j x \<longrightarrow>
         unat (counter (db_bloom db) p j x) = (if p = 0 \<and> x = get_hashes cfg [] eval_tuple ! j then k div 2 mod 65536 else 0))) \<and>
    (\<forall>c ring'. ringbuffer_get (PACKET_RINGBUFFER_SIZE cfg) ring = Some ((0, Some c), ring') \<longrightarrow> (\<exists>db'. flowdb_exec cfg us devmap c db db'))"
proof -
  have s: "bloom_rounds cfg 0 db0" using assms(1-3) by (simp add: bloom_rounds_def bf_ok_init counter_init)
  from bloom_eval.fed_prefix [OF assms(4) s] obtain k where
    k: "k \<le> i" "rb_items (PACKET_RINGBUFFER_SIZE cfg) ring = map flowdb_bloom_eval_command [k..<i]" "bloom_rounds cfg k db" by auto
  have "unat (counter (db_bloom db) p j x) = (if p = 0 \<and> x = get_hashes cfg [] eval_tuple ! j then k div 2 mod 65536 else 0)" if "in_filter cfg p j x" for p j x
    using k(3) that by (simp add: bloom_rounds_def unat_of_nat)
  with k(1,2) bloom_eval.fed_progress [OF assms(4) s] show ?thesis by blast
qed

theorem bloom_evaluation_wraps_witness:
  "\<exists>db. (\<forall>j < NUM_BLOOMFILTERS. counter (db_bloom db) 0 j (get_hashes small_config [] eval_tuple ! j) = 0) \<and>
     (\<exists>ring. fed_reachable 4 flowdb_bloom_eval_command (flowdb_exec small_config False []) (boot_db small_config (empty_ring 3 (DP_ADD_BLOOM_FILTER [] 0)))
        (131072, ring, db))"
proof -
  let ?db0 = "boot_db small_config (empty_ring 3 (DP_ADD_BLOOM_FILTER [] 0))" and ?ring = "empty_ring 4 (PKT_TIMEOUT_FLOW 0)"
  have s: "cfg_ok small_config" "db_bloom ?db0 = bloom_filter_init small_config" "rb_inv (DATAPLANE_RINGBUFFER_SIZE small_config) (db_ring ?db0)"
    by (simp_all add: cfg_ok_small boot_db_def empty_ring_inv)
  then have "bloom_rounds small_config 0 ?db0" by (simp add: bloom_rounds_def bf_ok_init counter_init)
  with bloom_eval.fed_run [of small_config ?ring ?db0 False "[]" 131072] obtain ring db where
    r: "fed_reachable 4 flowdb_bloom_eval_command (flowdb_exec small_config False []) ?db0 (131072, ring, db)" "rb_items 4 ring = []"
    by (auto simp: empty_ring_inv)
  from bloom_evaluation_wraps [OF s, of False "[]" 131072 ring db] r obtain k where
    k: "k \<le> 131072" "map flowdb_bloom_eval_command [k..<131072] = []"
      "\<forall>p j x. in_filter small_config p j x \<longrightarrow>
         unat (counter (db_bloom db) p j x) = (if p = 0 \<and> x = get_hashes small_config [] eval_tuple ! j then k div 2 mod 65536 else 0)"
    by auto
  then have "k = 131072" by simp
  have "counter (db_bloom db) 0 j (get_hashes small_config [] eval_tuple ! j) = 0" if "j < NUM_BLOOMFILTERS" for j
  proof -
    from bf_flow_in_filter [OF cfg_ok_small eval_tuple_simps(1) that, of "[]"] have "in_filter small_config 0 j (get_hashes small_config [] eval_tuple ! j)"
      by (simp add: eval_tuple_simps(2))
    from k(3) [rule_format, OF this] \<open>k = 131072\<close> show ?thesis by (simp add: unat_eq_0)
  qed
  with r(1) show ?thesis by blast
qed

subsection \<open>The DNS database\<close>

text \<open>\<open>dns_packet\<close>: 106 bytes and the terminating zero of the string.\<close>

definition dns_packet :: "u8 list" where
  "dns_packet =
     [0xc0, 0x41, 0x81, 0x80, 0x00, 0x01, 0x00, 0x02, 0x00, 0x00, 0x00, 0x01, 0x10, 0x72, 0x33, 0x2d,
      0x2d, 0x2d, 0x73, 0x6e, 0x2d, 0x68, 0x30, 0x6a, 0x65, 0x65, 0x6e, 0x65, 0x72, 0x0b, 0x67, 0x6f,
      0x6f, 0x67, 0x6c, 0x65, 0x76, 0x69, 0x64, 0x65, 0x6f, 0x03, 0x63, 0x6f, 0x6d, 0x00, 0x00, 0x01,
      0x00, 0x01, 0xc0, 0x0c, 0x00, 0x05, 0x00, 0x01, 0x00, 0x00, 0x00, 0x10, 0x00, 0x11, 0x02, 0x72,
      0x33, 0x0b, 0x73, 0x6e, 0x2d, 0x68, 0x30, 0x6a, 0x65, 0x65, 0x6e, 0x65, 0x72, 0xc0, 0x1d, 0xc0,
      0x3e, 0x00, 0x01, 0x00, 0x01, 0x00, 0x00, 0x01, 0x56, 0x00, 0x04, 0xac, 0xd9, 0x85, 0x68, 0x00,
      0x00, 0x29, 0x04, 0xd0, 0x00, 0x00, 0x00, 0x00, 0x00, 0x00, 0x00]"

definition SET_RESPONSE_IP :: "u8 list \<Rightarrow> u32 \<Rightarrow> u8 list" where
  "SET_RESPONSE_IP pkt ip = take 91 pkt @ le_bytes 4 ip @ drop 95 pkt"

text \<open>The command of turn \<open>i\<close>: the reply in the item's array, with the address replaced by \<open>i\<close>.\<close>

definition dnsdb_eval_command :: "nat \<Rightarrow> dns_item_t" where
  "dnsdb_eval_command i = DNS_ADD_PKT (SET_RESPONSE_IP (dns_packet @ replicate (MAX_DNS_PKT_LEN - length dns_packet) 0) (of_nat i)) (int (length dns_packet))"

text \<open>The replies of the DNS evaluation differ in the address of their last answer only, which runs through all addresses.\<close>

lemma dnsdb_eval_replies:
  obtains pkt where "dnsdb_eval_command i = DNS_ADD_PKT pkt 107" "length pkt = MAX_DNS_PKT_LEN"
    "rd 4 pkt 91 = Some (of_nat i :: u32)" "\<And>j. j < 91 \<or> 95 \<le> j \<Longrightarrow> j < 107 \<Longrightarrow> pkt ! j = dns_packet ! j"
proof -
  let ?pkt = "SET_RESPONSE_IP (dns_packet @ replicate (MAX_DNS_PKT_LEN - length dns_packet) 0) (of_nat i)"
  have l: "length dns_packet = 107" by (simp add: dns_packet_def)
  have "length ?pkt = MAX_DNS_PKT_LEN" by (simp add: SET_RESPONSE_IP_def l MAX_DNS_PKT_LEN_def)
  moreover have "rd 4 ?pkt 91 = Some (of_nat i :: u32)" by (simp add: SET_RESPONSE_IP_def l MAX_DNS_PKT_LEN_def rd_def)
  moreover have "?pkt ! j = dns_packet ! j" if "j < 91 \<or> 95 \<le> j" "j < 107" for j
    using that by (auto simp: SET_RESPONSE_IP_def l MAX_DNS_PKT_LEN_def nth_append)
  ultimately show thesis using that [of ?pkt] by (simp add: dnsdb_eval_command_def l)
qed

section \<open>The export\<close>

subsection \<open>Model\<close>

definition NUM_STEPS :: nat where "NUM_STEPS = 20"

definition export_flow :: "nat \<Rightarrow> five_tuple_t" where
  "export_flow flow_id_counter = eval_tuple\<lparr> ft_h := (ft_h eval_tuple)\<lparr> dst_addr := set_ipv4 (of_nat flow_id_counter) 0 \<rparr> \<rparr>"

text \<open>The inner loop that adds flows.\<close>

fun export_eval_adds :: "config \<Rightarrow> nat \<Rightarrow> flow_hashtable_t \<times> nat \<Rightarrow> (flow_hashtable_t \<times> nat) option" where
  "export_eval_adds cfg 0 st = Some st"
| "export_eval_adds cfg (Suc n) (t, flow_id_counter) =
     do { (_, t) \<leftarrow> flow_hashtable_add cfg t (export_flow flow_id_counter) (int flow_id_counter);
          export_eval_adds cfg n (t, Suc flow_id_counter) }"

text \<open>The loop over the steps, with the numbers of entries that are logged, one for each of the 50 times that the export thread is woken.\<close>

fun export_eval_steps :: "config \<Rightarrow> nat \<Rightarrow> flow_hashtable_t \<times> nat \<Rightarrow> (nat list \<times> flow_hashtable_t \<times> nat) option" where
  "export_eval_steps cfg 0 st = Some ([], st)"
| "export_eval_steps cfg (Suc i) st =
     do { st \<leftarrow> export_eval_adds cfg (MAX_FLOWS cfg * NUM_PIPES div NUM_STEPS) st;
          (log, st') \<leftarrow> export_eval_steps cfg i st;
          Some (replicate 50 (snd st) @ log, st') }"

definition flowexport_eval :: "config \<Rightarrow> (nat list \<times> flow_hashtable_t \<times> nat) option" where
  "flowexport_eval cfg = export_eval_steps cfg NUM_STEPS (flow_hashtable_init cfg, 0)"

subsection \<open>The table\<close>

definition export_flows :: "config \<Rightarrow> flow_hashtable_t \<times> nat \<Rightarrow> bool" where
  "export_flows cfg st \<longleftrightarrow> flow_table_inv cfg (fst st) \<and>
     (\<forall>h v. flow_map (fst st) h = Some v \<longleftrightarrow> (\<exists>i < snd st. h = ft_h (export_flow i) \<and> v = int i))"

lemma export_flow_inj:
  assumes "i < 2 ^ 32" "j < 2 ^ 32" "ft_h (export_flow i) = ft_h (export_flow j)"
  shows "i = j"
proof -
  from arg_cong [OF assms(3), of "\<lambda>h. addr_ipv4 (dst_addr h)"] have "(of_nat i :: u32) = of_nat j" by (simp add: export_flow_def)
  then have "unat (of_nat i :: u32) = unat (of_nat j :: u32)" by simp
  with assms(1,2) show ?thesis by (simp add: unat_of_nat)
qed

lemma feature_size_bound:
  assumes "cfg_ok cfg"
  shows "FEATURE_SIZE cfg < 2 ^ 32"
proof -
  have "FEATURE_SIZE cfg \<le> FLOW_HASHTABLE_SIZE cfg" using assms by (simp add: cfg_ok_def FEATURE_SIZE_def FLOW_HASHTABLE_SIZE_def)
  moreover have "FLOW_HASHTABLE_SIZE cfg < 2 ^ 31" using assms by (simp add: cfg_ok_def)
  ultimately show ?thesis by simp
qed

lemma export_add:
  assumes "cfg_ok cfg" "export_flows cfg (t, c)" "c < FEATURE_SIZE cfg"
  shows "\<exists>t'. flow_hashtable_add cfg t (export_flow c) (int c) = Some (0, t') \<and> export_flows cfg (t', Suc c)"
proof -
  from assms(2) have t: "flow_table_inv cfg t" and m: "\<And>h v. flow_map t h = Some v \<longleftrightarrow> (\<exists>i < c. h = ft_h (export_flow i) \<and> v = int i)"
    by (auto simp: export_flows_def)
  have inj: "i = c" if "i < c" "ft_h (export_flow i) = ft_h (export_flow c)" for i
    using export_flow_inj [OF _ _ that(2)] that(1) assms(3) feature_size_bound [OF assms(1)] by simp
  have "flow_map t (ft_h (export_flow c)) = None"
  proof (rule ccontr)
    assume "flow_map t (ft_h (export_flow c)) \<noteq> None"
    then obtain i where "i < c" "ft_h (export_flow c) = ft_h (export_flow i)" using m by blast
    with inj [of i] show False by simp
  qed
  moreover have "flow_id_free cfg (flow_map t) (int c)" using assms(3) m by (auto simp: flow_id_free_def ran_def)
  ultimately obtain t' where t': "flow_hashtable_add cfg t (export_flow c) (int c) = Some (0, t')" "flow_table_inv cfg t'"
    "flow_map t' = (flow_map t)(ft_h (export_flow c) \<mapsto> int c)" using flow_add_new [OF t flow.never_full [OF t]] by blast
  have "flow_map t' h = Some v \<longleftrightarrow> (\<exists>i < Suc c. h = ft_h (export_flow i) \<and> v = int i)" for h v
    using m [of h v] inj by (auto simp: t'(3) less_Suc_eq)
  with t'(1,2) show ?thesis by (simp add: export_flows_def)
qed

lemma export_adds:
  assumes "cfg_ok cfg" "export_flows cfg (t, c)" "c + n \<le> FEATURE_SIZE cfg"
  shows "\<exists>t'. export_eval_adds cfg n (t, c) = Some (t', c + n) \<and> export_flows cfg (t', c + n)"
  using assms(2,3)
proof (induction n arbitrary: t c)
  case (Suc n)
  from export_add [OF assms(1) Suc.prems(1)] Suc.prems(2) obtain t1 where
    "flow_hashtable_add cfg t (export_flow c) (int c) = Some (0, t1)" "export_flows cfg (t1, Suc c)" by auto
  with Suc.IH [of t1 "Suc c"] Suc.prems(2) show ?case by auto
qed simp

lemma export_steps:
  assumes "cfg_ok cfg" "export_flows cfg (t, c)" "c + k * (MAX_FLOWS cfg * NUM_PIPES div NUM_STEPS) \<le> FEATURE_SIZE cfg"
  shows "\<exists>t'. export_eval_steps cfg k (t, c) =
      Some (concat (map (\<lambda>i. replicate 50 (c + Suc i * (MAX_FLOWS cfg * NUM_PIPES div NUM_STEPS))) [0..<k]), t',
        c + k * (MAX_FLOWS cfg * NUM_PIPES div NUM_STEPS)) \<and>
    export_flows cfg (t', c + k * (MAX_FLOWS cfg * NUM_PIPES div NUM_STEPS))"
  using assms(2,3)
proof (induction k arbitrary: t c)
  case (Suc k)
  let ?n = "MAX_FLOWS cfg * NUM_PIPES div NUM_STEPS"
  from export_adds [OF assms(1) Suc.prems(1), of ?n] Suc.prems(2) obtain t1 where
    1: "export_eval_adds cfg ?n (t, c) = Some (t1, c + ?n)" "export_flows cfg (t1, c + ?n)" by auto
  from Suc.IH [OF 1(2)] Suc.prems(2) obtain t' where
    2: "export_eval_steps cfg k (t1, c + ?n) = Some (concat (map (\<lambda>i. replicate 50 (c + ?n + Suc i * ?n)) [0..<k]), t', c + ?n + k * ?n)"
      "export_flows cfg (t', c + ?n + k * ?n)" by (auto simp: add.assoc)
  have "concat (map (\<lambda>i. replicate 50 (c + Suc i * ?n)) [0..<Suc k]) = replicate 50 (c + ?n) @ concat (map (\<lambda>i. replicate 50 (c + ?n + Suc i * ?n)) [0..<k])"
    by (simp add: upt_conv_Cons map_Suc_upt [symmetric] comp_def add.assoc del: upt_Suc)
  with 1(1) 2 show ?case by (simp add: add.assoc del: replicate.simps)
qed simp

text \<open>
  The evaluation of the export terminates; its steps leave the flow table with exactly the flows that were added, each under the value of the counter, and
  the logged sizes are those of the table.
\<close>

lemma export_evaluation:
  assumes "cfg_ok cfg"
  shows "\<exists>log t n. flowexport_eval cfg = Some (log, t, n) \<and> n = NUM_STEPS * (MAX_FLOWS cfg * NUM_PIPES div NUM_STEPS) \<and>
    (\<forall>h v. flow_map t h = Some v \<longleftrightarrow> (\<exists>i < n. h = ft_h (export_flow i) \<and> v = int i)) \<and>
    log = concat (map (\<lambda>i. replicate 50 (Suc i * (MAX_FLOWS cfg * NUM_PIPES div NUM_STEPS))) [0..<NUM_STEPS])"
proof -
  have s: "export_flows cfg (flow_hashtable_init cfg, 0)" using flow_init_inv [OF assms] by (simp add: export_flows_def)
  have b: "0 + NUM_STEPS * (MAX_FLOWS cfg * NUM_PIPES div NUM_STEPS) \<le> FEATURE_SIZE cfg"
    by (simp add: FEATURE_SIZE_def)
  from export_steps [OF assms s b] show ?thesis unfolding flowexport_eval_def export_flows_def add_0 by auto
qed

end
