(* ===== verification/Spec2Isabelle.thy ===== *)
theory Spec2Isabelle
  imports Benchmark Ring_Interleaving Concurrent_Lookup End_To_End Evaluation
begin

text \<open>
  Verification of the Marina controller (\<^verbatim>\<open>src/controller\<close>), the C program beside a P4 switch that extracts features of network flows
  at line rate. This theory imports the whole development.

  \<^bold>\<open>The program.\<close> The controller is a set of threads in one process, joined by ring buffers:

  \<^item> \<^verbatim>\<open>packet_handler.c\<close> parses the packets that the switch mirrors to the CPU and looks up their flows. For new flows, SYNs and FINs it puts a command
    into the packet ring; DNS replies go to the DNS ring.
  \<^item> \<^verbatim>\<open>flow_db.c\<close> takes the commands of the packet ring. It owns the ids: per pipe one heap of free flow ids and one of free session ids, the flow table and
    the session table. It puts commands for the switch into the data plane ring, and marks a flow in the Bloom filters when the packet handler has
    found it to be irrelevant. A flow for which there is no id is dropped.
  \<^item> \<^verbatim>\<open>bloom_filter.c\<close> keeps counting Bloom filters, sends the bits that change to the data plane ring, and in a maintenance thread decrements counters at
    random.
  \<^item> \<^verbatim>\<open>dataplane.c\<close> takes the commands of the data plane ring and executes them on the switch through \<^verbatim>\<open>dp_api.c\<close>; before, \<^verbatim>\<open>prepare_dataplane.c\<close>
    fills the static tables and configures the ports.
  \<^item> \<^verbatim>\<open>export_features.c\<close> reads the registers of the switch (\<^verbatim>\<open>features.c\<close>), which ages sessions and sends time-outs back to the packet ring, and
    writes one row per session to a pipe.
  \<^item> \<^verbatim>\<open>dns_db.c\<close> learns the addresses of relevant names from DNS replies into the DNS table, which the packet handler reads.
  \<^item> \<^verbatim>\<open>controller.c\<close> initialises the shared memory and starts the threads; \<^verbatim>\<open>statistics.c\<close> prints rates.

  \<^bold>\<open>The theories,\<close> from the bottom to the top:

  \<^item> \<open>Marina_Prelude\<close>: widths of the C integers, \<^verbatim>\<open>config.h\<close> (the record \<open>config\<close>, with the values of the repository as \<open>marina_config\<close>), checked array access \<open>aget\<close>,
    byte images, cyclic indices. \<open>Structs\<close>: \<^verbatim>\<open>structs.h\<close> and the ring items.
  \<^item> \<open>Ring_Buffer\<close>, \<open>Ring_Interleaving\<close>: \<^verbatim>\<open>mk_ringbuffer.h\<close>, one call after the other (locale \<open>bounded_queue\<close>), and access by access for many producers and one consumer.
  \<^item> \<open>Id_Heap\<close>: \<^verbatim>\<open>heap.c\<close> (locale \<open>id_pool\<close>). \<open>Murmur\<close>, \<open>Crc\<close>: \<^verbatim>\<open>hashes/\<close>.
  \<^item> \<open>Open_Addressing\<close>, \<open>Index_Map\<close>, \<open>Keyed_Table\<close>: the code that the three hash tables have in common, its invariants, and the contract of a table for its
    clients (locales \<open>keyed_table\<close>, \<open>insert_once_table\<close>, \<open>roomy_table\<close>, \<open>overwrite_table\<close>).
  \<^item> \<open>Flow_Hashtable\<close>, \<open>Session_Hashtable\<close>, \<open>Dns_Hashtable\<close>: the tables, each with an interpretation of its contract. \<open>Concurrent_Lookup\<close>: the lookup without a lock beside a writer.
  \<^item> \<open>Bloom_Filter\<close>: \<^verbatim>\<open>bloom_filter.c\<close>. \<open>Flow_Db\<close>: \<^verbatim>\<open>flow_db.c\<close>. \<open>Packet_Handler\<close>, \<open>Packet_Thread\<close>: \<^verbatim>\<open>packet_handler.c\<close>. \<open>Dns_Db\<close>: \<^verbatim>\<open>dns_db.c\<close>.
  \<^item> \<open>Dp_Api\<close>: \<^verbatim>\<open>dp_api.c\<close>. \<open>Features\<close>: \<^verbatim>\<open>features.c\<close>. \<open>Dataplane\<close>, \<open>Dataplane_Start\<close>: \<^verbatim>\<open>dataplane.c\<close>. \<open>Prepare_Dataplane\<close>: \<^verbatim>\<open>prepare_dataplane.c\<close> and
    \<^verbatim>\<open>port_config.h\<close>. \<open>Export\<close>: \<^verbatim>\<open>export_features.c\<close>. \<open>Controller\<close>: \<^verbatim>\<open>controller.c\<close>, \<^verbatim>\<open>runtime_config.c\<close>, \<^verbatim>\<open>statistics.c\<close>.
    \<open>Benchmark\<close>: \<^verbatim>\<open>benchmark.c\<close>, a second program over the same parts. \<open>Evaluation\<close>: \<^verbatim>\<open>evaluation/\<close> and \<^verbatim>\<open>tests/mock_packets.h\<close>, programs that feed one thread
    each (locale \<open>fed_thread\<close>).
  \<^item> Threads together: \<open>Flow_Pipeline\<close> (flow database, Bloom filter maintenance and data plane thread), \<open>Dns_Monitoring\<close> (packet handler and DNS database),
    \<open>End_To_End\<close> (from the bytes of a frame to the table of the switch),
    the reachable states of \<open>Dataplane\<close> (Bloom filters and data plane thread). The steps of \<open>Flow_Pipeline\<close> and \<open>Dataplane\<close> are labelled and have
    the failing transitions of the code: full rings, exhausted session ids, wild offsets of FINs, errors of the driver. \<open>orderly\<close> and \<open>wf_event\<close> select
    the histories that a property speaks of, and the label of \<open>bloom_step\<close> holds the bits that a step loses.

  \<^bold>\<open>How the model corresponds to the code.\<close> A definition has the name of the C function it translates; a struct is a record, the fields of which have a prefix
  where two structs share a name. The static state of a thread is a record that its functions take and return (\<open>flow_db\<close>, \<open>packet_state\<close>, \<open>dns_db\<close>,
  \<open>dataplane\<close>, \<open>feature_state\<close>, \<open>controller\<close>). An endless loop is the function for one turn, and a step relation with its reachable states
  where properties of all histories are stated (\<open>db_reachable\<close>, \<open>bloom_reachable\<close>, \<open>pipeline_reachable\<close>, \<open>monitor_reachable\<close>, \<open>ring_reachable\<close>,
  \<open>lookup_reachable\<close>, \<open>fed_reachable\<close>). Status codes are the integers of the code. \<open>None\<close> stands for an access outside an array or a loop that never ends: the
  loops are \<open>partial_function\<close>s without fuel, and the theorems that a result is \<open>Some\<close> state termination and memory safety together. \<open>exit(1)\<close> is
  \<open>Inl\<close>. The steps of \<open>Ring_Interleaving\<close> and \<open>Concurrent_Lookup\<close> are single accesses to memory in program order; in the other relations a step is a command of one thread.

  \<^bold>\<open>What is shown.\<close>

  \<^item> Containers: the rings are bounded FIFO queues, with the status that every call returns, and FIFO also for every interleaving of their accesses; the heaps are pools that give out the least id; the
    tables are finite maps; the CRC functions are polynomial division.
  \<^item> Flow database: every id is in the heap of its pipe or in use exactly once, in every reachable state, and every well-formed command is executed to
    the end; a new flow is admitted whenever there are resources; removals remove exactly what they should.
  \<^item> Flow database and switch: in orderly histories (a session id for each new flow, room in the ring and an offset to a pipe of the switch for each FIN,
    no reported error) the classification tables hold exactly the flows of the flow table once the pending commands are executed; Bloom filter
    bits have no false negatives but those that a full ring or a reported error loses.
  \<^item> From the frame to the switch: a captured frame of a new relevant flow leads to a table entry that matches exactly its header fields, with the register of
    its session; every command on the way to the switch, also in histories that are not orderly, has its operands in range, the offset of a FIN excepted.
  \<^item> Packets: frames of the data plane are parsed to what they contain; which commands each packet causes; which packets are safe to parse, as long as the DNS table has a free slot.
  \<^item> Features: totals are exact across the wrap-around of the 32 bit registers; ageing reports exactly the expired sessions; the exported text can be read
    back.
  \<^item> Benchmark and evaluation: the classification benchmarks lose no entry and restore the tables of the switch if no delete fails; the export benchmark prints the sessions it generates; the mock packets
    take the path of new relevant flows; the counters of the Bloom filter evaluation are its rounds, modulo \<open>2^16\<close>.
  \<^item> Start: the preparation gives a port map that fits the forwarding table, and the threads start in the initial states of the step relations.
  \<^item> Defects, each as a theorem: the DNS database and the packet handler never agree on a key; DNS replies are looked for at a port in the wrong byte order and copied
    with a wrong length; the comparison with the relevant names leaves its array; the undo loop of the Bloom filter maintenance increments too much;
    exhausted session ids strand a flow; a full ring loses the FIN of a flow (\<open>fin_lost_when_full\<close>) and the Bloom filter bits of a mark (\<open>mark_lost_when_full\<close>); a FIN on another pipe overflows a heap; a FIN carries an uninitialised offset to the feature arrays; the flow count of a session is one too low; a full DNS table makes a lookup endless; a failed register read corrupts totals; a removal hides other flows from a
    concurrent lookup; the export header has a column too many (\<open>Export\<close>).

  \<^bold>\<open>Arguments and hypotheses.\<close> Code outside the repository is an argument. The driver of the switch is the record \<open>sde\<close> and the port layer the record \<open>pal\<close>:
  \<open>sde_tables\<close> states that an add or delete of the classification tables that returns success has added or deleted its entry and that one that fails has changed nothing,
  \<open>sde_bits\<close> the same of the Bloom filter bits, \<open>driver_reads\<close> that a range read fills the buffer it is given,
  \<open>pal_ok\<close> that the forwarding table behaves as a table, \<open>capacities_ok\<close> that the tables that are cleared fit the buffer for their handles,
  \<open>pal_keeps\<close> and \<open>sde_keeps\<close> that calls on other tables do not touch the
  classification tables; \<open>driver_keeps\<close>, \<open>accepts\<close> and \<open>deletes\<close> are the same for the calls of the benchmark, the room in the IPv4 table, and deletes that
  succeed. \<open>ntop_ok\<close> states that a printed address has no separator. Each of them holds for a concrete driver in a witness. \<open>cfg_ok\<close> restricts the
  sizes of the configuration to those that an \<open>int32_t\<close> can index, and holds of the repository's. \<open>wf_packet\<close> assumes that the packets of a flow, and those of a session, arrive
  on one pipe; a theorem shows what happens otherwise for a flow. Clocks, \<open>random\<close> and \<open>libuuid\<close> are universally quantified. So are uninitialised values, with two
  exceptions: \<open>command_ok\<close> and \<open>wf_event\<close> take the uninitialised \<open>session_id\<close> of a removal (\<^verbatim>\<open>flow_db.c\<close>, line 96) to be an index of the session table when sessions are
  enabled, since the code uses it as one, and \<open>orderly\<close> takes the uninitialised offset of a FIN to lead to a pipe of the switch; a theorem shows what happens
  otherwise.

  \<^bold>\<open>Not modelled.\<close> The times that \<^verbatim>\<open>benchmark.c\<close> and \<^verbatim>\<open>evaluation/\<close> measure; what libresolv makes of the packet of \<^verbatim>\<open>dnsdb_eval.c\<close>; \<^verbatim>\<open>tests/\<close> holds test programs and a
  stub of the driver. \<^verbatim>\<open>logging.h\<close> and the debugging macros only print; the \<open>EXPORT_NUMPY\<close> branch of the export is not compiled by default;
  \<^verbatim>\<open>PCAP_STATISTICS\<close> needs libpcap. The P4 program and the scripts are not C. Weak memory is not modelled: steps of
  different threads are interleaved, which the code's barriers are there for. Locks are modelled where the interleaving is (\<open>Ring_Interleaving\<close>), and elsewhere calls
  run one after the other.
\<close>

end
